(* ===== verification/Prelude.thy ===== *)
theory Prelude
  imports Main "HOL-Library.Word"
begin

section \<open>Prelude: outcomes of kernel code, weakest preconditions, shared lemmas\<close>

text \<open>
  The C functions of the kernel are state transformers.  Running one on a state ends in one of
  five ways, the constructors of the type below:
  \<^item> the function returns a value and leaves a new state;
  \<^item> it calls \<open>panic(msg)\<close>, which never returns (console.c);
  \<^item> it dereferences a null pointer or leaves an array, where C gives no meaning;
  \<^item> it waits for ever: it spins on a lock nobody releases, or sleeps and is never resumed;
  \<^item> the machine loses power at a disk write.
  A program is a function from states to outcomes, and sequencing stops at the first outcome
  that is not a return.  The weakest precondition of a program, \<open>wp\<close>, demands a return (total
  correctness); \<open>wlp\<close> only constrains the return.
\<close>

named_theorems wp_simps "weakest preconditions of the program constructors"
named_theorems field_simps_k "fields of the kernel state that an operation leaves alone"

datatype ('a, 's) outcome =
    Done 'a 's
  | Panic string
  | Fault
  | Blocked
  | PowerOff 's

type_synonym ('s, 'a) prog = "'s \<Rightarrow> ('a, 's) outcome"

definition kret :: "'a \<Rightarrow> ('s, 'a) prog" where
  "kret x = (\<lambda>s. Done x s)"

definition kbind :: "('s, 'a) prog \<Rightarrow> ('a \<Rightarrow> ('s, 'b) prog) \<Rightarrow> ('s, 'b) prog" where
  "kbind m f = (\<lambda>s. case m s of
      Done x t \<Rightarrow> f x t
    | Panic e \<Rightarrow> Panic e
    | Fault \<Rightarrow> Fault
    | Blocked \<Rightarrow> Blocked
    | PowerOff t \<Rightarrow> PowerOff t)"

definition kseq :: "('s, 'a) prog \<Rightarrow> ('s, 'b) prog \<Rightarrow> ('s, 'b) prog" where
  "kseq m n = kbind m (\<lambda>_. n)"

definition kget :: "('s \<Rightarrow> 'a) \<Rightarrow> ('s, 'a) prog" where
  "kget f = (\<lambda>s. Done (f s) s)"

definition kmod :: "('s \<Rightarrow> 's) \<Rightarrow> ('s, unit) prog" where
  "kmod f = (\<lambda>s. Done () (f s))"

definition kpanic :: "string \<Rightarrow> ('s, 'a) prog" where
  "kpanic e = (\<lambda>s. Panic e)"

definition kfault :: "('s, 'a) prog" where
  "kfault = (\<lambda>s. Fault)"

definition kblock :: "('s, 'a) prog" where
  "kblock = (\<lambda>s. Blocked)"

definition kwhen :: "bool \<Rightarrow> ('s, unit) prog \<Rightarrow> ('s, unit) prog" where
  "kwhen b m = (if b then m else kret ())"

text \<open>A C \<open>for\<close> loop over a fixed sequence of loop values.\<close>

fun kfor :: "'i list \<Rightarrow> ('i \<Rightarrow> ('s, unit) prog) \<Rightarrow> ('s, unit) prog" where
  "kfor [] body = kret ()"
| "kfor (i # is) body = kseq (body i) (kfor is body)"

subsection \<open>Sequencing\<close>

lemma kbind_cong [fundef_cong]:
  assumes "m s = m' s" and "\<And>x t. m' s = Done x t \<Longrightarrow> f x t = f' x t"
  shows "kbind m f s = kbind m' f' s"
  using assms by (simp add: kbind_def split: outcome.split)

lemma kseq_cong [fundef_cong]:
  assumes "m s = m' s" and "\<And>x t. m' s = Done x t \<Longrightarrow> n t = n' t"
  shows "kseq m n s = kseq m' n' s"
  using assms by (auto simp: kseq_def intro: kbind_cong)

lemma kbind_Done [simp]: "m s = Done x t \<Longrightarrow> kbind m f s = f x t"
  by (simp add: kbind_def)

lemma kseq_Done [simp]: "m s = Done x t \<Longrightarrow> kseq m n s = n t"
  by (simp add: kseq_def)

text \<open>Unfolding a sequence by the outcome of its first part, for evaluation.\<close>

lemma kbind_app: "kbind m f s = (case m s of Done x t \<Rightarrow> f x t | Panic e \<Rightarrow> Panic e | Fault \<Rightarrow> Fault
    | Blocked \<Rightarrow> Blocked | PowerOff t \<Rightarrow> PowerOff t)"
  by (simp add: kbind_def)

lemma kseq_app: "kseq m n s = (case m s of Done x t \<Rightarrow> n t | Panic e \<Rightarrow> Panic e | Fault \<Rightarrow> Fault
    | Blocked \<Rightarrow> Blocked | PowerOff t \<Rightarrow> PowerOff t)"
  by (simp add: kseq_def kbind_def)

lemmas run_app = kbind_app kseq_app

lemma kbind_eq_Done: "kbind m f s = Done y u \<longleftrightarrow> (\<exists>x t. m s = Done x t \<and> f x t = Done y u)"
  by (simp add: kbind_def split: outcome.split)

lemma kseq_eq_Done: "kseq m n s = Done y u \<longleftrightarrow> (\<exists>x t. m s = Done x t \<and> n t = Done y u)"
  by (simp add: kseq_def kbind_eq_Done)

lemma run_simps [simp]:
  "kret x s = Done x s"
  "kget g s = Done (g s) s"
  "kmod h s = Done () (h s)"
  "kpanic e s = Panic e"
  "kfault s = Fault"
  "kblock s = Blocked"
  by (simp_all add: kret_def kget_def kmod_def kpanic_def kfault_def kblock_def)

lemma kbind_assoc: "kbind (kbind m f) g = kbind m (\<lambda>x. kbind (f x) g)"
  by (rule ext) (simp add: kbind_def split: outcome.split)

lemma kbind_run [simp]:
  "kbind (kret x) f s = f x s"
  "kbind (kget g) f s = f (g s) s"
  "kbind (kmod h) f' s = f' () (h s)"
  "kbind (kpanic e) f s = Panic e"
  "kbind kfault f s = Fault"
  "kbind kblock f s = Blocked"
  "kseq (kret y) n s = n s"
  "kseq (kget g) n s = n s"
  "kseq (kmod h) n s = n (h s)"
  "kseq (kpanic e) n s = Panic e"
  "kseq kfault n s = Fault"
  "kseq kblock n s = Blocked"
  by (simp_all add: kbind_def kseq_def)

lemma kwhen_run [simp]: "kwhen b m s = (if b then m s else Done () s)"
  by (simp add: kwhen_def)

lemma kfor_append: "kfor (xs @ ys) body = kseq (kfor xs body) (kfor ys body)"
proof (induction xs)
  case Nil
  show ?case by (rule ext) simp
next
  case (Cons x xs)
  then show ?case by (simp add: kseq_def kbind_assoc)
qed

subsection \<open>Weakest preconditions\<close>

definition wp :: "('s, 'a) prog \<Rightarrow> ('a \<Rightarrow> 's \<Rightarrow> bool) \<Rightarrow> 's \<Rightarrow> bool" where
  "wp m Q s \<longleftrightarrow> (\<exists>x t. m s = Done x t \<and> Q x t)"

definition wlp :: "('s, 'a) prog \<Rightarrow> ('a \<Rightarrow> 's \<Rightarrow> bool) \<Rightarrow> 's \<Rightarrow> bool" where
  "wlp m Q s \<longleftrightarrow> (\<forall>x t. m s = Done x t \<longrightarrow> Q x t)"

lemma wp_ret [wp_simps]: "wp (kret x) Q = Q x"
  by (rule ext) (simp add: wp_def)

lemma wp_Done [wp_simps]: "wp (Done x) Q s \<longleftrightarrow> Q x s"
  by (simp add: wp_def)

lemma wp_get [wp_simps]: "wp (kget g) Q = (\<lambda>s. Q (g s) s)"
  by (rule ext) (simp add: wp_def)

lemma wp_mod [wp_simps]: "wp (kmod h) Q = (\<lambda>s. Q () (h s))"
  by (rule ext) (simp add: wp_def)

lemma wp_panic [wp_simps]: "\<not> wp (kpanic e) Q s"
  by (simp add: wp_def)

lemma wp_fault [wp_simps]: "\<not> wp kfault Q s"
  by (simp add: wp_def)

lemma wp_block [wp_simps]: "\<not> wp kblock Q s"
  by (simp add: wp_def)

lemma wp_bind [wp_simps]: "wp (kbind m f) Q = wp m (\<lambda>x. wp (f x) Q)"
  by (rule ext) (auto simp: wp_def kbind_eq_Done)

lemma wp_seq [wp_simps]: "wp (kseq m n) Q = wp m (\<lambda>_. wp n Q)"
  by (simp add: kseq_def wp_bind)

lemma wp_when [wp_simps]: "wp (kwhen b m) Q = (if b then wp m Q else Q ())"
  by (simp add: kwhen_def wp_ret)

lemma wp_conseq: "wp m P s \<Longrightarrow> (\<And>x t. P x t \<Longrightarrow> Q x t) \<Longrightarrow> wp m Q s"
  by (auto simp: wp_def)

lemma wp_conj: "wp m P s \<Longrightarrow> wp m Q s \<Longrightarrow> wp m (\<lambda>x t. P x t \<and> Q x t) s"
  by (auto simp: wp_def)

lemma wpI: "m s = Done x t \<Longrightarrow> Q x t \<Longrightarrow> wp m Q s"
  by (auto simp: wp_def)

lemma wpE:
  assumes "wp m Q s"
  obtains x t where "m s = Done x t" and "Q x t"
  using assms by (auto simp: wp_def)

lemma wp_imp_wlp: "wp m Q s \<Longrightarrow> wlp m Q s"
  by (auto simp: wp_def wlp_def)

lemma wlp_bindI: "wlp m (\<lambda>x. wlp (f x) Q) s \<Longrightarrow> wlp (kbind m f) Q s"
  by (auto simp: wlp_def kbind_eq_Done)

text \<open>A loop keeps an invariant that each iteration keeps.\<close>

lemma wp_for:
  assumes "I s" and "\<And>i s. i \<in> set is \<Longrightarrow> I s \<Longrightarrow> wp (body i) (\<lambda>_. I) s"
  shows "wp (kfor is body) (\<lambda>_. I) s"
  using assms
proof (induction "is" arbitrary: s)
  case Nil
  then show ?case by (simp add: wp_simps)
next
  case (Cons i "is")
  have "wp (body i) (\<lambda>_. I) s" using Cons.prems by simp
  then show ?case
    using Cons.IH Cons.prems(2) by (auto simp: wp_seq elim!: wp_conseq)
qed

lemma wp_for_upt:
  assumes "I 0 s" and "\<And>i s. i < n \<Longrightarrow> I i s \<Longrightarrow> wp (body i) (\<lambda>_. I (Suc i)) s"
  shows "wp (kfor [0 ..< n] body) (\<lambda>_. I n) s"
  using assms
proof (induction n)
  case 0
  then show ?case by (simp add: wp_simps)
next
  case (Suc n)
  have "wp (kfor [0 ..< n] body) (\<lambda>_. I n) s" using Suc by simp
  then have "wp (kfor [0 ..< n] body) (\<lambda>_. wp (body n) (\<lambda>_. I (Suc n))) s"
    by (rule wp_conseq) (simp add: Suc.prems(2))
  then show ?case by (simp add: kfor_append wp_simps)
qed

text \<open>A loop whose body is total and pure is a fold of the body's effect.\<close>

lemma kfor_kmod: "kfor is (\<lambda>i. kmod (f i)) s = Done () (fold f is s)"
  by (induction "is" arbitrary: s) simp_all

subsection \<open>Searching an array\<close>

text \<open>
  The kernel's tables are arrays scanned from index 0; \<open>find_idx P xs\<close> is the index at which
  such a scan stops, \<open>None\<close> when it runs off the end.
\<close>

fun find_idx :: "('a \<Rightarrow> bool) \<Rightarrow> 'a list \<Rightarrow> nat option" where
  "find_idx P [] = None"
| "find_idx P (x # xs) = (if P x then Some 0 else map_option Suc (find_idx P xs))"

lemma find_idx_None [simp]: "find_idx P xs = None \<longleftrightarrow> (\<forall>x \<in> set xs. \<not> P x)"
  by (induction xs) auto

lemma find_idx_Some:
  "find_idx P xs = Some i \<longleftrightarrow> i < length xs \<and> P (xs ! i) \<and> (\<forall>j < i. \<not> P (xs ! j))"
proof (induction xs arbitrary: i)
  case Nil
  then show ?case by simp
next
  case (Cons x xs)
  show ?case
    by (cases i) (auto simp: Cons.IH nth_Cons split: nat.splits)
qed

lemma find_idx_SomeD:
  assumes "find_idx P xs = Some i"
  shows "i < length xs" and "P (xs ! i)" and "\<And>j. j < i \<Longrightarrow> \<not> P (xs ! j)"
  using assms by (auto simp: find_idx_Some)

lemma find_idx_ex:
  assumes "i < length xs" and "P (xs ! i)"
  shows "\<exists>j \<le> i. find_idx P xs = Some j"
proof (cases "find_idx P xs")
  case None
  then show ?thesis using assms by auto
next
  case (Some j)
  then show ?thesis using assms
    by (metis find_idx_Some leI)
qed

lemma find_idx_cong:
  "xs = ys \<Longrightarrow> (\<And>x. x \<in> set ys \<Longrightarrow> P x = Q x) \<Longrightarrow> find_idx P xs = find_idx Q ys"
  by (induction ys arbitrary: xs) auto

subsection \<open>Arrays updated in place\<close>

definition upd :: "nat \<Rightarrow> ('a \<Rightarrow> 'a) \<Rightarrow> 'a list \<Rightarrow> 'a list" where
  "upd i f xs = xs[i := f (xs ! i)]"

lemma length_upd [simp]: "length (upd i f xs) = length xs"
  by (simp add: upd_def)

lemma nth_upd: "j < length xs \<Longrightarrow> upd i f xs ! j = (if i = j then f (xs ! j) else xs ! j)"
  by (auto simp: upd_def nth_list_update)

lemma nth_upd_eq [simp]: "i < length xs \<Longrightarrow> upd i f xs ! i = f (xs ! i)"
  by (simp add: nth_upd)

lemma nth_upd_neq [simp]: "i \<noteq> j \<Longrightarrow> upd i f xs ! j = xs ! j"
  by (simp add: upd_def)

lemma upd_upd [simp]: "upd i f (upd i g xs) = upd i (\<lambda>x. f (g x)) xs"
  by (cases "i < length xs") (simp_all add: upd_def list_update_beyond)

lemma map_upd_same: "(\<And>x. g (f x) = g x) \<Longrightarrow> map g (upd i f xs) = map g xs"
  by (cases "i < length xs") (auto simp: upd_def map_update list_update_beyond intro: list_update_same_conv[THEN iffD2])

end
