(* ===== verification/Bytes.thy ===== *)
theory Bytes
  imports Prelude
begin

unbundle bit_operations_syntax

section \<open>Bytes: little-endian words in memory and in disk blocks\<close>

text \<open>
  The kernel overlays structs of \<open>uint\<close> and \<open>ushort\<close> on raw bytes: on physical memory
  (\<open>struct run\<close>, \<open>struct context\<close>) and on the 512 bytes of a disk block (\<open>struct logheader\<close>,
  \<open>struct dinode\<close>, indirect blocks).  The x86 stores a \<open>uint\<close> as four bytes, least significant
  first.  This theory holds the encoding, its round trip, and loads and stores at an offset.
\<close>

type_synonym byte = "8 word"
type_synonym uint32 = "32 word"
type_synonym memory = "32 word \<Rightarrow> 8 word"
type_synonym block = "8 word list"

definition byte_of :: "nat \<Rightarrow> uint32 \<Rightarrow> byte" where
  "byte_of k w = ucast (drop_bit (8 * k) w)"

definition word_of_bytes :: "byte \<Rightarrow> byte \<Rightarrow> byte \<Rightarrow> byte \<Rightarrow> uint32" where
  "word_of_bytes a b c d =
     ucast a OR push_bit 8 (ucast b) OR push_bit 16 (ucast c) OR push_bit 24 (ucast d)"

lemma word_of_bytes_byte_of [simp]:
  "word_of_bytes (byte_of 0 w) (byte_of (Suc 0) w) (byte_of 2 w) (byte_of 3 w) = w"
proof (rule bit_word_eqI)
  fix n
  assume "n < LENGTH(32)"
  then consider "n < 8" | "8 \<le> n" "n < 16" | "16 \<le> n" "n < 24" | "24 \<le> n" "n < 32"
    by fastforce
  then show "bit (word_of_bytes (byte_of 0 w) (byte_of (Suc 0) w) (byte_of 2 w) (byte_of 3 w)) n = bit w n"
    by cases (auto simp: word_of_bytes_def byte_of_def bit_simps)
qed

subsection \<open>Physical memory\<close>

definition load32 :: "memory \<Rightarrow> uint32 \<Rightarrow> uint32" where
  "load32 m a = word_of_bytes (m a) (m (a + 1)) (m (a + 2)) (m (a + 3))"

definition store32 :: "memory \<Rightarrow> uint32 \<Rightarrow> uint32 \<Rightarrow> memory" where
  "store32 m a w =
     m(a := byte_of 0 w, a + 1 := byte_of (Suc 0) w, a + 2 := byte_of 2 w, a + 3 := byte_of 3 w)"

text \<open>\<open>memset(p, c, n)\<close> writes the byte \<open>c\<close> to the \<open>n\<close> addresses from \<open>p\<close> on.\<close>

definition mem_set :: "memory \<Rightarrow> uint32 \<Rightarrow> byte \<Rightarrow> uint32 \<Rightarrow> memory" where
  "mem_set m p c n = (\<lambda>a. if a - p < n then c else m a)"

lemma load32_store32 [simp]: "load32 (store32 m a w) a = w"
  by (simp add: load32_def store32_def)

lemma store32_other:
  "x - a \<noteq> 0 \<Longrightarrow> x - a \<noteq> 1 \<Longrightarrow> x - a \<noteq> 2 \<Longrightarrow> x - a \<noteq> 3 \<Longrightarrow> store32 m a w x = m x"
  by (auto simp: store32_def)

subsection \<open>Disk blocks\<close>

definition get32 :: "block \<Rightarrow> nat \<Rightarrow> uint32" where
  "get32 bs k = word_of_bytes (bs ! k) (bs ! (k + 1)) (bs ! (k + 2)) (bs ! (k + 3))"

definition put32 :: "block \<Rightarrow> nat \<Rightarrow> uint32 \<Rightarrow> block" where
  "put32 bs k w =
     bs[k := byte_of 0 w, k + 1 := byte_of (Suc 0) w, k + 2 := byte_of 2 w, k + 3 := byte_of 3 w]"

lemma length_put32 [simp]: "length (put32 bs k w) = length bs"
  by (simp add: put32_def)

lemma get32_put32_same [simp]: "k + 3 < length bs \<Longrightarrow> get32 (put32 bs k w) k = w"
  by (simp add: get32_def put32_def nth_list_update)

lemma nth_put32_other: "j < k \<or> k + 4 \<le> j \<Longrightarrow> put32 bs k w ! j = bs ! j"
  by (auto simp: put32_def)

lemma get32_put32_other [simp]:
  "j + 4 \<le> k \<or> k + 4 \<le> j \<Longrightarrow> get32 (put32 bs k w) j = get32 bs j"
  by (auto simp: get32_def nth_put32_other)

text \<open>An array of \<open>uint\<close>s stored from offset \<open>k\<close> on.\<close>

fun put32s :: "block \<Rightarrow> nat \<Rightarrow> uint32 list \<Rightarrow> block" where
  "put32s bs k [] = bs"
| "put32s bs k (w # ws) = put32s (put32 bs k w) (k + 4) ws"

lemma length_put32s [simp]: "length (put32s bs k ws) = length bs"
  by (induction ws arbitrary: bs k) auto

lemma get32_put32s_below: "j + 4 \<le> k \<Longrightarrow> get32 (put32s bs k ws) j = get32 bs j"
  by (induction ws arbitrary: bs k) auto

lemma get32_put32s:
  "i < length ws \<Longrightarrow> k + 4 * length ws \<le> length bs \<Longrightarrow> get32 (put32s bs k ws) (k + 4 * i) = ws ! i"
proof (induction ws arbitrary: bs k i)
  case Nil
  then show ?case by simp
next
  case (Cons w ws)
  show ?case
  proof (cases i)
    case 0
    then show ?thesis using Cons.prems by (simp add: get32_put32s_below)
  next
    case (Suc i')
    have "get32 (put32s (put32 bs k w) (k + 4) ws) ((k + 4) + 4 * i') = ws ! i'"
      using Cons.prems Suc by (intro Cons.IH) auto
    then show ?thesis using Suc by (simp add: add.assoc)
  qed
qed

end
