(* ===== verification/Kernel_State.thy ===== *)
theory Kernel_State
  imports Bytes
begin

section \<open>The kernel's data: constants, structs and the global state\<close>

text \<open>
  The structs of the kernel's headers as records, its enums as datatypes, and one record
  \<open>kstate\<close> for the global variables and the machine registers the code reads.  Pointers into
  the kernel's fixed tables are indices, a null pointer is \<open>None\<close>.  Spin locks and sleep locks
  are embedded in many structs, so they live in two stores addressed by the lock's identity
  (\<open>lockid\<close>, \<open>slockid\<close>): \<open>&ptable.lock\<close> is \<open>PtableLock\<close>, the lock of buffer \<open>i\<close> is
  \<open>BufSleep i\<close> and the spin lock inside it \<open>SleepLk (BufSleep i)\<close>.
  Signed \<open>int\<close> counters that the code never lets overflow are \<open>int\<close>; \<open>uint\<close> fields are
  32-bit words; a \<open>float\<close> is its 32-bit pattern.
\<close>

subsection \<open>param.h, memlayout.h, mmu.h, fs.h, buf.h, proc.h\<close>

abbreviation (input) NPROC :: nat where "NPROC \<equiv> 10"
abbreviation (input) NCPU :: nat where "NCPU \<equiv> 8"
abbreviation (input) NOFILE :: nat where "NOFILE \<equiv> 16"
abbreviation (input) MAXOPBLOCKS :: nat where "MAXOPBLOCKS \<equiv> 10"
abbreviation (input) LOGSIZE :: nat where "LOGSIZE \<equiv> 30"
abbreviation (input) NBUF :: nat where "NBUF \<equiv> 30"
abbreviation (input) NFILE :: nat where "NFILE \<equiv> 100"
abbreviation (input) NINODE :: nat where "NINODE \<equiv> 50"
abbreviation (input) NDIRECT :: nat where "NDIRECT \<equiv> 12"
abbreviation (input) NSEMS :: nat where "NSEMS \<equiv> 6"
abbreviation (input) KSTACKSIZE :: "32 word" where "KSTACKSIZE \<equiv> 4096"
abbreviation (input) PGSIZE :: "32 word" where "PGSIZE \<equiv> 4096"
abbreviation (input) KERNBASE :: "32 word" where "KERNBASE \<equiv> 0x80000000"
abbreviation (input) PHYSTOP :: "32 word" where "PHYSTOP \<equiv> 0xE000000"
abbreviation (input) BSIZE :: nat where "BSIZE \<equiv> 512"
abbreviation (input) PIPESIZE :: nat where "PIPESIZE \<equiv> 512"
abbreviation (input) INPUT_BUF :: nat where "INPUT_BUF \<equiv> 128"
abbreviation (input) HIST_SIZE :: nat where "HIST_SIZE \<equiv> 15"
abbreviation (input) CRT_CELLS :: nat where "CRT_CELLS \<equiv> 2000"
abbreviation (input) NDEV :: int where "NDEV \<equiv> 10"

abbreviation (input) BJF_PRIORITY_DEF :: int where "BJF_PRIORITY_DEF \<equiv> 3"
abbreviation (input) UNSET :: int where "UNSET \<equiv> 0"
abbreviation (input) ROUND_ROBIN :: int where "ROUND_ROBIN \<equiv> 1"
abbreviation (input) LCFS :: int where "LCFS \<equiv> 2"
abbreviation (input) BJF :: int where "BJF \<equiv> 3"
abbreviation (input) PROC_HIST_SIZE :: nat where "PROC_HIST_SIZE \<equiv> 1000"
abbreviation (input) SYS_CALL_NUM :: nat where "SYS_CALL_NUM \<equiv> 35"
abbreviation (input) AGING_THRESHOLD :: int where "AGING_THRESHOLD \<equiv> 8000"

subsection \<open>Addresses of locks and sleep channels\<close>

datatype slockid = BufSleep nat | InodeSleep nat

datatype lockid =
    PtableLock | TicksLock | BcacheLock | LogLock | IcacheLock | FtableLock
  | KmemLock | IdeLock | ConsLock
  | SemLk nat | PipeLk "32 word" | SleepLk slockid

datatype chan =
    ChProc nat | ChSem nat | ChLog | ChBuf nat | ChSleepLk slockid
  | ChPipeRead "32 word" | ChPipeWrite "32 word" | ChTicks | ChInput

subsection \<open>Structs\<close>

record spinlock =
  lk_locked :: bool
  lk_name :: string
  lk_cpu :: "nat option"
  lk_pcs :: "32 word list"

record cpu =
  apicid :: "8 word"
  ncli :: int
  intena :: bool
  cpu_proc :: "nat option"

record sleeplock =
  sl_locked :: bool
  sl_name :: string
  sl_pid :: int

type_synonym f32 = "32 word"

record schedStat =
  queue_id :: int
  place :: int
  last_run :: int
  priority :: int
  priority_ratio :: f32
  arrival_time :: int
  arrival_time_ratio :: f32
  executed_cycle :: f32
  executed_cycle_ratio :: f32

datatype procstate = UNUSED | EMBRYO | SLEEPING | RUNNABLE | RUNNING | ZOMBIE

record proc =
  sz :: "32 word"
  pgdir :: "32 word"
  kstack :: "32 word"
  pstate :: procstate
  pid :: int
  parent :: "nat option"
  tf :: "32 word"
  context_ptr :: "32 word"
  pchan :: "chan option"
  killed :: bool
  ofile :: "nat option list"
  cwd :: "nat option"
  pname :: string
  schedule_status :: schedStat

record syscall_hist =
  hist_pids :: "int list"
  hist_size :: int

record semaphore =
  sem_value :: int
  waiting :: "nat option list"
  wfirst :: nat
  wlast :: nat
  sem_name :: string

record pipe =
  pipe_data :: "8 word list"
  nread :: "32 word"
  nwrite :: "32 word"
  readopen :: bool
  writeopen :: bool

text \<open>
  A buffer's \<open>flags\<close> only ever hold the bits \<open>B_VALID\<close> and \<open>B_DIRTY\<close> (buf.h): two booleans.
  The doubly linked list through \<open>prev\<close> and \<open>next\<close> is kept as two functions on list nodes, the
  list head \<open>&bcache.head\<close> or the buffer \<open>&bcache.buf[i]\<close>.
\<close>

record buf =
  b_valid :: bool
  b_dirty :: bool
  b_dev :: "32 word"
  b_blockno :: "32 word"
  b_refcnt :: "32 word"
  b_data :: block

datatype bnode = Head | Node nat

record bcache =
  bufs :: "buf list"
  b_next :: "bnode \<Rightarrow> bnode"
  b_prev :: "bnode \<Rightarrow> bnode"

record superblock =
  sb_size :: "32 word"
  sb_nblocks :: "32 word"
  sb_ninodes :: "32 word"
  sb_nlog :: "32 word"
  sb_logstart :: "32 word"
  sb_inodestart :: "32 word"
  sb_bmapstart :: "32 word"

datatype fd_type = FD_NONE | FD_PIPE | FD_INODE

record kfile =
  f_type :: fd_type
  f_ref :: int
  f_readable :: bool
  f_writable :: bool
  f_pipe :: "32 word option"
  f_ip :: "nat option"
  f_off :: "32 word"

record inode =
  i_dev :: "32 word"
  i_inum :: "32 word"
  i_ref :: int
  i_valid :: bool
  i_type :: "16 word"
  i_major :: "16 word"
  i_minor :: "16 word"
  i_nlink :: "16 word"
  i_size :: "32 word"
  i_addrs :: "32 word list"

record fs_state =
  ftable :: "kfile list"
  icache :: "inode list"
  sb :: superblock

text \<open>
  The console (console.c): the \<open>cons\<close> struct, the display with the cursor position that the CRT
  controller keeps, the keyboard buffer \<open>input\<close> and the command history \<open>hist\<close>.
\<close>

record input_buf =
  in_buf :: "8 word list"
  in_r :: "32 word"
  in_w :: "32 word"
  in_e :: "32 word"

record history =
  queue_idx :: "32 word"
  cmd_buf :: "8 word list list"
  last_used_idx :: "32 word"
  last_arrow_idx :: "32 word"
  is_suggestion_used :: bool
  original_cmd :: "8 word list"
  original_cmd_size :: "32 word"
  total_count :: int
  last_arrow_total :: int

record cons_state =
  cons_locking :: bool
  panicked :: bool
  crt :: "16 word list"
  crt_pos :: nat
  input :: input_buf
  hist :: history

record ide_state =
  idequeue :: "nat option"
  havedisk1 :: bool
  qnext :: "nat \<Rightarrow> nat option"

record logheader =
  lh_n :: int
  lh_block :: "32 word list"

record log =
  log_start :: "32 word"
  log_size :: int
  outstanding :: int
  committing :: bool
  log_dev :: "32 word"
  lh :: logheader

subsection \<open>The global state\<close>

text \<open>
  \<open>eflags_IF\<close>, \<open>lapic_ID\<close> and \<open>argp\<close> belong to the processor that runs the code: its interrupt
  flag, the ID register of its local APIC (\<open>None\<close> while \<open>lapic\<close> is null) and the address of the
  running function's first argument.  \<open>power\<close> is the number of disk writes the machine still
  completes before it loses power, \<open>None\<close> for one that never does.  \<open>console_out\<close> lists the
  characters passed to \<open>uartputc\<close>.
\<close>

record kstate =
  eflags_IF :: bool
  lapic_ID :: "32 word option"
  argp :: "32 word"
  ram :: memory
  cpus :: "cpu list"
  ncpu :: nat
  locks :: "lockid \<Rightarrow> spinlock"
  slocks :: "slockid \<Rightarrow> sleeplock"
  ticks :: "32 word"
  procs :: "proc list"
  initproc :: "nat option"
  nextpid :: int
  p_hist :: "syscall_hist list"
  sems :: "semaphore list"
  use_lock :: bool
  freelist :: "32 word"
  pipes :: "32 word \<Rightarrow> pipe"
  bcache :: bcache
  memdisk :: "block list"
  disksize :: nat
  power :: "nat option"
  log :: log
  fsys :: fs_state
  ide :: ide_state
  cons :: cons_state
  console_out :: "int list"

text \<open>
  Other processors and other processes run while the code spins on a lock or sleeps.  What
  they do to the state is a list of functions, one consumed by each round of a spin loop and by
  each context switch; when the list is used up nobody ever lets the code continue.
\<close>

record kworld = kstate +
  env :: "(kstate \<Rightarrow> kstate) list"

type_synonym 'a kern = "(kworld, 'a) prog"

definition env_apply :: "(kstate \<Rightarrow> kstate) \<Rightarrow> kworld \<Rightarrow> kworld" where
  "env_apply e s = kstate.extend (e (kstate.truncate s)) (kworld.fields (env s))"

definition others_run :: "unit kern" where
  "others_run s = (case env s of [] \<Rightarrow> Blocked | e # es \<Rightarrow> Done () (env_apply e (s\<lparr>env := es\<rparr>)))"

subsection \<open>Updating one element\<close>

definition upd_proc :: "nat \<Rightarrow> (proc \<Rightarrow> proc) \<Rightarrow> kworld \<Rightarrow> kworld" where
  "upd_proc i f s = s\<lparr>procs := upd i f (procs s)\<rparr>"

definition upd_cpu :: "nat \<Rightarrow> (cpu \<Rightarrow> cpu) \<Rightarrow> kworld \<Rightarrow> kworld" where
  "upd_cpu i f s = s\<lparr>cpus := upd i f (cpus s)\<rparr>"

definition upd_lock :: "lockid \<Rightarrow> (spinlock \<Rightarrow> spinlock) \<Rightarrow> kworld \<Rightarrow> kworld" where
  "upd_lock l f s = s\<lparr>locks := (locks s)(l := f (locks s l))\<rparr>"

definition upd_slock :: "slockid \<Rightarrow> (sleeplock \<Rightarrow> sleeplock) \<Rightarrow> kworld \<Rightarrow> kworld" where
  "upd_slock l f s = s\<lparr>slocks := (slocks s)(l := f (slocks s l))\<rparr>"

definition upd_sched :: "(schedStat \<Rightarrow> schedStat) \<Rightarrow> proc \<Rightarrow> proc" where
  "upd_sched f p = p\<lparr>schedule_status := f (schedule_status p)\<rparr>"

lemmas upd_defs = upd_proc_def upd_cpu_def upd_lock_def upd_slock_def

subsection \<open>Zero-initialised globals\<close>

text \<open>
  C clears every global before \<open>main\<close> runs.  The state below is the cleared state on a machine
  with one processor, interrupts off, and an empty disk; \<open>main.c\<close> starts from it.
\<close>

definition zero_lock :: spinlock where
  "zero_lock = \<lparr>lk_locked = False, lk_name = '''', lk_cpu = None, lk_pcs = replicate 10 0\<rparr>"

definition zero_cpu :: cpu where
  "zero_cpu = \<lparr>apicid = 0, ncli = 0, intena = False, cpu_proc = None\<rparr>"

definition zero_sched :: schedStat where
  "zero_sched = \<lparr>queue_id = 0, place = 0, last_run = 0, priority = 0, priority_ratio = 0,
     arrival_time = 0, arrival_time_ratio = 0, executed_cycle = 0, executed_cycle_ratio = 0\<rparr>"

definition zero_proc :: proc where
  "zero_proc = \<lparr>sz = 0, pgdir = 0, kstack = 0, pstate = UNUSED, pid = 0, parent = None, tf = 0,
     context_ptr = 0, pchan = None, killed = False, ofile = replicate NOFILE None, cwd = None,
     pname = '''', schedule_status = zero_sched\<rparr>"

definition zero_sem :: semaphore where
  "zero_sem = \<lparr>sem_value = 0, waiting = replicate NPROC None, wfirst = 0, wlast = 0, sem_name = ''''\<rparr>"

definition zero_pipe :: pipe where
  "zero_pipe = \<lparr>pipe_data = replicate PIPESIZE 0, nread = 0, nwrite = 0, readopen = False, writeopen = False\<rparr>"

definition zero_buf :: buf where
  "zero_buf = \<lparr>b_valid = False, b_dirty = False, b_dev = 0, b_blockno = 0, b_refcnt = 0,
     b_data = replicate BSIZE 0\<rparr>"

definition zero_log :: log where
  "zero_log = \<lparr>log_start = 0, log_size = 0, outstanding = 0, committing = False, log_dev = 0,
     lh = \<lparr>lh_n = 0, lh_block = replicate LOGSIZE 0\<rparr>\<rparr>"

definition zero_file :: kfile where
  "zero_file = \<lparr>f_type = FD_NONE, f_ref = 0, f_readable = False, f_writable = False, f_pipe = None,
     f_ip = None, f_off = 0\<rparr>"

definition zero_inode :: inode where
  "zero_inode = \<lparr>i_dev = 0, i_inum = 0, i_ref = 0, i_valid = False, i_type = 0, i_major = 0,
     i_minor = 0, i_nlink = 0, i_size = 0, i_addrs = replicate (NDIRECT + 1) 0\<rparr>"

definition zero_fs :: fs_state where
  "zero_fs = \<lparr>ftable = replicate NFILE zero_file, icache = replicate NINODE zero_inode,
     sb = \<lparr>sb_size = 0, sb_nblocks = 0, sb_ninodes = 0, sb_nlog = 0, sb_logstart = 0,
       sb_inodestart = 0, sb_bmapstart = 0\<rparr>\<rparr>"

definition zero_ide :: ide_state where
  "zero_ide = \<lparr>idequeue = None, havedisk1 = False, qnext = (\<lambda>_. None)\<rparr>"

definition zero_cons :: cons_state where
  "zero_cons = \<lparr>cons_locking = False, panicked = False, crt = replicate CRT_CELLS 0, crt_pos = 0,
     input = \<lparr>in_buf = replicate INPUT_BUF 0, in_r = 0, in_w = 0, in_e = 0\<rparr>,
     hist = \<lparr>queue_idx = 0, cmd_buf = replicate HIST_SIZE (replicate INPUT_BUF 0), last_used_idx = 0, last_arrow_idx = 0,
       is_suggestion_used = False, original_cmd = replicate INPUT_BUF 0, original_cmd_size = 0, total_count = 0,
       last_arrow_total = 0\<rparr>\<rparr>"

definition bss :: kworld where
  "bss = \<lparr>eflags_IF = False, lapic_ID = Some 0, argp = 0, ram = (\<lambda>_. 0),
     cpus = replicate NCPU zero_cpu, ncpu = 1,
     locks = (\<lambda>_. zero_lock), slocks = (\<lambda>_. \<lparr>sl_locked = False, sl_name = '''', sl_pid = 0\<rparr>),
     ticks = 0, procs = replicate NPROC zero_proc, initproc = None, nextpid = 1,
     p_hist = replicate SYS_CALL_NUM \<lparr>hist_pids = replicate PROC_HIST_SIZE 0, hist_size = 0\<rparr>,
     sems = replicate NSEMS zero_sem, use_lock = False, freelist = 0, pipes = (\<lambda>_. zero_pipe),
     bcache = \<lparr>bufs = replicate NBUF zero_buf, b_next = (\<lambda>_. Head), b_prev = (\<lambda>_. Head)\<rparr>,
     memdisk = [], disksize = 0, power = None, log = zero_log,
     fsys = zero_fs, ide = zero_ide, cons = zero_cons,
     console_out = [], env = []\<rparr>"

lemma bss_fields [simp]:
  "lk_locked (locks bss l) = False" "lk_cpu (locks bss l) = None" "procs bss = replicate NPROC zero_proc"
  "sl_locked (slocks bss k) = False" "sl_pid (slocks bss k) = 0"
  "cpus bss = replicate NCPU zero_cpu" "ncpu bss = 1" "sems bss = replicate NSEMS zero_sem"
  "freelist bss = 0" "use_lock bss = False" "ram bss = (\<lambda>_. 0)" "env bss = []" "initproc bss = None"
  "pipes bss = (\<lambda>_. zero_pipe)" "nextpid bss = 1" "ticks bss = 0" "console_out bss = []"
  "power bss = None" "log bss = zero_log" "fsys bss = zero_fs" "ide bss = zero_ide"
  "cons bss = zero_cons"
  "p_hist bss = replicate SYS_CALL_NUM \<lparr>hist_pids = replicate PROC_HIST_SIZE 0, hist_size = 0\<rparr>"
  by (simp_all add: bss_def zero_lock_def)

subsection \<open>Fields under the update functions\<close>

lemma upd_proc_fields [simp]:
  "procs (upd_proc i f s) = upd i f (procs s)"
  "cpus (upd_proc i f s) = cpus s" "locks (upd_proc i f s) = locks s"
  "slocks (upd_proc i f s) = slocks s" "env (upd_proc i f s) = env s"
  "eflags_IF (upd_proc i f s) = eflags_IF s" "lapic_ID (upd_proc i f s) = lapic_ID s"
  "ncpu (upd_proc i f s) = ncpu s" "ticks (upd_proc i f s) = ticks s"
  "sems (upd_proc i f s) = sems s" "pipes (upd_proc i f s) = pipes s"
  "nextpid (upd_proc i f s) = nextpid s" "initproc (upd_proc i f s) = initproc s"
  "ram (upd_proc i f s) = ram s" "argp (upd_proc i f s) = argp s"
  "console_out (upd_proc i f s) = console_out s" "cons (upd_proc i f s) = cons s"
  "use_lock (upd_proc i f s) = use_lock s" "freelist (upd_proc i f s) = freelist s"
  "p_hist (upd_proc i f s) = p_hist s" "bcache (upd_proc i f s) = bcache s"
  "memdisk (upd_proc i f s) = memdisk s" "disksize (upd_proc i f s) = disksize s"
  "power (upd_proc i f s) = power s" "log (upd_proc i f s) = log s"
  "fsys (upd_proc i f s) = fsys s" "ide (upd_proc i f s) = ide s"
  by (simp_all add: upd_proc_def)

lemma upd_sched_fields [simp]:
  "schedule_status (upd_sched f p) = f (schedule_status p)" "pstate (upd_sched f p) = pstate p"
  "pid (upd_sched f p) = pid p" "pchan (upd_sched f p) = pchan p" "killed (upd_sched f p) = killed p"
  "parent (upd_sched f p) = parent p"
  by (simp_all add: upd_sched_def)

lemma others_run_Cons [simp]:
  "env s = e # es \<Longrightarrow> others_run s = Done () (env_apply e (s\<lparr>env := es\<rparr>))"
  by (simp add: others_run_def)

lemma others_run_Nil [simp]: "env s = [] \<Longrightarrow> others_run s = Blocked"
  by (simp add: others_run_def)

end
