(* ===== verification/Spinlock.thy ===== *)
theory Spinlock
  imports Kernel_State
begin

section \<open>Spin locks and interrupt nesting (spinlock.c, mycpu of proc.c, lapicid of lapic.c)\<close>

text \<open>
  \<open>acquire\<close> and \<open>release\<close> with everything they call: \<open>pushcli\<close> and \<open>popcli\<close>, which count how
  often the processor asked for interrupts to be off, \<open>mycpu\<close>, which finds the processor by its
  APIC ID, \<open>holding\<close>, and \<open>getcallerpcs\<close>, which records the call stack.  The lemmas reduce each
  operation, on a state where it succeeds, to one state function (\<open>acquired\<close>, \<open>released\<close>); the
  other components use only those.
\<close>

subsection \<open>Definitions\<close>

definition lapicid :: "kworld \<Rightarrow> 32 word" where
  "lapicid s = (case lapic_ID s of None \<Rightarrow> 0 | Some w \<Rightarrow> drop_bit 24 w)"

text \<open>The loop of \<open>mycpu\<close>: the first of the \<open>ncpu\<close> processors with this APIC ID.\<close>

definition cpu_index :: "kworld \<Rightarrow> nat option" where
  "cpu_index s = find_idx (\<lambda>c. ucast (apicid c) = lapicid s) (take (ncpu s) (cpus s))"

definition mycpu :: "nat kern" where
  "mycpu = kbind (kget (\<lambda>s. s)) (\<lambda>s.
     if eflags_IF s then kpanic (''mycpu called with interrupts enabled'' @ [CHR 0x0A])
     else case cpu_index s of
            Some i \<Rightarrow> kret i
          | None \<Rightarrow> kpanic (''unknown apicid'' @ [CHR 0x0A]))"

definition cpuid :: "nat kern" where
  "cpuid = mycpu"

definition cli :: "unit kern" where
  "cli = kmod (\<lambda>s. s\<lparr>eflags_IF := False\<rparr>)"

definition sti :: "unit kern" where
  "sti = kmod (\<lambda>s. s\<lparr>eflags_IF := True\<rparr>)"

definition pushcli :: "unit kern" where
  "pushcli =
     kbind (kget eflags_IF) (\<lambda>eflags.
     kseq cli (
     kbind mycpu (\<lambda>i.
     kbind (kget (\<lambda>s. ncli (cpus s ! i))) (\<lambda>n.
     kseq (kwhen (n = 0) (kmod (upd_cpu i (\<lambda>c. c\<lparr>intena := eflags\<rparr>)))) (
     kmod (upd_cpu i (\<lambda>c. c\<lparr>ncli := ncli c + 1\<rparr>)))))))"

definition popcli :: "unit kern" where
  "popcli =
     kbind (kget eflags_IF) (\<lambda>eflags.
     if eflags then kpanic ''popcli - interruptible''
     else
     kbind mycpu (\<lambda>i.
     kseq (kmod (upd_cpu i (\<lambda>c. c\<lparr>ncli := ncli c - 1\<rparr>))) (
     kbind (kget (\<lambda>s. cpus s ! i)) (\<lambda>c.
     if ncli c < 0 then kpanic ''popcli''
     else kwhen (ncli c = 0 \<and> intena c) sti))))"

definition holding :: "lockid \<Rightarrow> bool kern" where
  "holding l =
     kseq pushcli (
     kbind mycpu (\<lambda>i.
     kbind (kget (\<lambda>s. lk_locked (locks s l) \<and> lk_cpu (locks s l) = Some i)) (\<lambda>r.
     kseq popcli (
     kret r))))"

definition initlock :: "lockid \<Rightarrow> string \<Rightarrow> unit kern" where
  "initlock l n = kmod (upd_lock l (\<lambda>k. k\<lparr>lk_name := n, lk_locked := False, lk_cpu := None\<rparr>))"

text \<open>The walk up the saved frame pointers, at most \<open>k\<close> frames from \<open>ebp\<close>.\<close>

fun walk_frames :: "memory \<Rightarrow> nat \<Rightarrow> 32 word \<Rightarrow> 32 word list" where
  "walk_frames m 0 ebp = []"
| "walk_frames m (Suc k) ebp =
     (if ebp = 0 \<or> ebp < KERNBASE \<or> ebp = 0xffffffff then []
      else load32 m (ebp + 4) # walk_frames m k (load32 m ebp))"

definition getcallerpcs :: "memory \<Rightarrow> 32 word \<Rightarrow> 32 word list" where
  "getcallerpcs m v = (let pcs = walk_frames m 10 (v - 8) in pcs @ replicate (10 - length pcs) 0)"

text \<open>
  \<open>while(xchg(&lk->locked, 1) != 0);\<close>  A round that finds the lock taken lets the other
  processors run; the loop ends when one of them has released the lock.
\<close>

lemma env_env_apply [simp]: "env (env_apply e s) = env s"
  by (simp add: env_apply_def kstate.defs kworld.defs)

function xchg_spin :: "lockid \<Rightarrow> unit kern" where
  "xchg_spin l s =
     (if lk_locked (locks s l)
      then (case env s of [] \<Rightarrow> Blocked | e # es \<Rightarrow> xchg_spin l (env_apply e (s\<lparr>env := es\<rparr>)))
      else Done () (upd_lock l (\<lambda>k. k\<lparr>lk_locked := True\<rparr>) s))"
  by pat_completeness auto
termination
  by (relation "measure (\<lambda>(l, s). length (env s))") auto

declare xchg_spin.simps [simp del]

definition acquire :: "lockid \<Rightarrow> unit kern" where
  "acquire l =
     kseq pushcli (
     kbind (holding l) (\<lambda>h.
     if h then kpanic ''acquire''
     else
     kseq (xchg_spin l) (
     kbind mycpu (\<lambda>i.
     kseq (kmod (upd_lock l (\<lambda>k. k\<lparr>lk_cpu := Some i\<rparr>))) (
     kmod (\<lambda>s. upd_lock l (\<lambda>k. k\<lparr>lk_pcs := getcallerpcs (ram s) (argp s)\<rparr>) s))))))"

definition release :: "lockid \<Rightarrow> unit kern" where
  "release l =
     kbind (holding l) (\<lambda>h.
     if \<not> h then kpanic ''release''
     else
     kseq (kmod (upd_lock l (\<lambda>k. k\<lparr>lk_pcs := (lk_pcs k)[0 := 0]\<rparr>))) (
     kseq (kmod (upd_lock l (\<lambda>k. k\<lparr>lk_cpu := None\<rparr>))) (
     kseq (kmod (upd_lock l (\<lambda>k. k\<lparr>lk_locked := False\<rparr>)))
     popcli)))"

subsection \<open>The processor's part of the state\<close>

definition this_cpu :: "kworld \<Rightarrow> nat" where
  "this_cpu s = the (cpu_index s)"

definition depth :: "kworld \<Rightarrow> int" where
  "depth s = ncli (cpus s ! this_cpu s)"

text \<open>
  The processor is known, its nesting depth is not negative, and interrupts are off whenever
  some \<open>pushcli\<close> is not yet undone.
\<close>

definition cpu_wf :: "kworld \<Rightarrow> bool" where
  "cpu_wf s \<longleftrightarrow> cpu_index s \<noteq> None \<and> 0 \<le> depth s \<and> (0 < depth s \<longrightarrow> \<not> eflags_IF s)"

definition owns :: "lockid \<Rightarrow> kworld \<Rightarrow> bool" where
  "owns l s \<longleftrightarrow> lk_locked (locks s l) \<and> lk_cpu (locks s l) = Some (this_cpu s)"

definition free :: "lockid \<Rightarrow> kworld \<Rightarrow> bool" where
  "free l s \<longleftrightarrow> \<not> lk_locked (locks s l)"

definition pushed :: "kworld \<Rightarrow> kworld" where
  "pushed s = s\<lparr>eflags_IF := False,
     cpus := upd (this_cpu s) (\<lambda>c. c\<lparr>intena := (if ncli c = 0 then eflags_IF s else intena c),
                                     ncli := ncli c + 1\<rparr>) (cpus s)\<rparr>"

definition popped :: "kworld \<Rightarrow> kworld" where
  "popped s = s\<lparr>
     eflags_IF := (depth s = 1 \<and> intena (cpus s ! this_cpu s)),
     cpus := upd (this_cpu s) (\<lambda>c. c\<lparr>ncli := ncli c - 1\<rparr>) (cpus s)\<rparr>"

definition acquired :: "lockid \<Rightarrow> kworld \<Rightarrow> kworld" where
  "acquired l s = upd_lock l (\<lambda>k. k\<lparr>lk_locked := True, lk_cpu := Some (this_cpu s),
     lk_pcs := getcallerpcs (ram s) (argp s)\<rparr>) (pushed s)"

definition released :: "lockid \<Rightarrow> kworld \<Rightarrow> kworld" where
  "released l s = popped (upd_lock l (\<lambda>k. k\<lparr>lk_pcs := (lk_pcs k)[0 := 0], lk_cpu := None,
     lk_locked := False\<rparr>) s)"

text \<open>
  What an operation that takes and gives back locks must leave as it found it: who holds each
  lock, the nesting depth, the interrupt flag, and the processor.
\<close>

definition neutral :: "kworld \<Rightarrow> kworld \<Rightarrow> bool" where
  "neutral s t \<longleftrightarrow>
     (\<forall>l. lk_locked (locks t l) = lk_locked (locks s l) \<and> lk_cpu (locks t l) = lk_cpu (locks s l))
     \<and> depth t = depth s \<and> eflags_IF t = eflags_IF s \<and> cpu_index t = cpu_index s"

subsection \<open>Independence from the other fields\<close>

lemma cpu_index_indep [simp]:
  "cpu_index (s\<lparr>argp := x_argp\<rparr>) = cpu_index s"
  "cpu_index (s\<lparr>ram := x_ram\<rparr>) = cpu_index s"
  "cpu_index (s\<lparr>slocks := x_slocks\<rparr>) = cpu_index s"
  "cpu_index (s\<lparr>ticks := x_ticks\<rparr>) = cpu_index s"
  "cpu_index (s\<lparr>procs := x_procs\<rparr>) = cpu_index s"
  "cpu_index (s\<lparr>initproc := x_initproc\<rparr>) = cpu_index s"
  "cpu_index (s\<lparr>nextpid := x_nextpid\<rparr>) = cpu_index s"
  "cpu_index (s\<lparr>p_hist := x_p_hist\<rparr>) = cpu_index s"
  "cpu_index (s\<lparr>sems := x_sems\<rparr>) = cpu_index s"
  "cpu_index (s\<lparr>use_lock := x_use_lock\<rparr>) = cpu_index s"
  "cpu_index (s\<lparr>freelist := x_freelist\<rparr>) = cpu_index s"
  "cpu_index (s\<lparr>pipes := x_pipes\<rparr>) = cpu_index s"
  "cpu_index (s\<lparr>bcache := x_bcache\<rparr>) = cpu_index s"
  "cpu_index (s\<lparr>memdisk := x_memdisk\<rparr>) = cpu_index s"
  "cpu_index (s\<lparr>disksize := x_disksize\<rparr>) = cpu_index s"
  "cpu_index (s\<lparr>power := x_power\<rparr>) = cpu_index s"
  "cpu_index (s\<lparr>log := x_log\<rparr>) = cpu_index s"
  "cpu_index (s\<lparr>console_out := x_console_out\<rparr>) = cpu_index s"
  "cpu_index (s\<lparr>fsys := x_fsys\<rparr>) = cpu_index s"
  "cpu_index (s\<lparr>ide := x_ide\<rparr>) = cpu_index s"
  "cpu_index (s\<lparr>cons := x_cons\<rparr>) = cpu_index s"
  "cpu_index (s\<lparr>env := x_env\<rparr>) = cpu_index s"
  by (simp_all add: cpu_index_def lapicid_def)

lemma this_cpu_indep [simp]:
  "this_cpu (s\<lparr>argp := x_argp\<rparr>) = this_cpu s"
  "this_cpu (s\<lparr>ram := x_ram\<rparr>) = this_cpu s"
  "this_cpu (s\<lparr>slocks := x_slocks\<rparr>) = this_cpu s"
  "this_cpu (s\<lparr>ticks := x_ticks\<rparr>) = this_cpu s"
  "this_cpu (s\<lparr>procs := x_procs\<rparr>) = this_cpu s"
  "this_cpu (s\<lparr>initproc := x_initproc\<rparr>) = this_cpu s"
  "this_cpu (s\<lparr>nextpid := x_nextpid\<rparr>) = this_cpu s"
  "this_cpu (s\<lparr>p_hist := x_p_hist\<rparr>) = this_cpu s"
  "this_cpu (s\<lparr>sems := x_sems\<rparr>) = this_cpu s"
  "this_cpu (s\<lparr>use_lock := x_use_lock\<rparr>) = this_cpu s"
  "this_cpu (s\<lparr>freelist := x_freelist\<rparr>) = this_cpu s"
  "this_cpu (s\<lparr>pipes := x_pipes\<rparr>) = this_cpu s"
  "this_cpu (s\<lparr>bcache := x_bcache\<rparr>) = this_cpu s"
  "this_cpu (s\<lparr>memdisk := x_memdisk\<rparr>) = this_cpu s"
  "this_cpu (s\<lparr>disksize := x_disksize\<rparr>) = this_cpu s"
  "this_cpu (s\<lparr>power := x_power\<rparr>) = this_cpu s"
  "this_cpu (s\<lparr>log := x_log\<rparr>) = this_cpu s"
  "this_cpu (s\<lparr>console_out := x_console_out\<rparr>) = this_cpu s"
  "this_cpu (s\<lparr>fsys := x_fsys\<rparr>) = this_cpu s"
  "this_cpu (s\<lparr>ide := x_ide\<rparr>) = this_cpu s"
  "this_cpu (s\<lparr>cons := x_cons\<rparr>) = this_cpu s"
  "this_cpu (s\<lparr>env := x_env\<rparr>) = this_cpu s"
  by (simp_all add: this_cpu_def)

lemma depth_indep [simp]:
  "depth (s\<lparr>argp := x_argp\<rparr>) = depth s"
  "depth (s\<lparr>ram := x_ram\<rparr>) = depth s"
  "depth (s\<lparr>slocks := x_slocks\<rparr>) = depth s"
  "depth (s\<lparr>ticks := x_ticks\<rparr>) = depth s"
  "depth (s\<lparr>procs := x_procs\<rparr>) = depth s"
  "depth (s\<lparr>initproc := x_initproc\<rparr>) = depth s"
  "depth (s\<lparr>nextpid := x_nextpid\<rparr>) = depth s"
  "depth (s\<lparr>p_hist := x_p_hist\<rparr>) = depth s"
  "depth (s\<lparr>sems := x_sems\<rparr>) = depth s"
  "depth (s\<lparr>use_lock := x_use_lock\<rparr>) = depth s"
  "depth (s\<lparr>freelist := x_freelist\<rparr>) = depth s"
  "depth (s\<lparr>pipes := x_pipes\<rparr>) = depth s"
  "depth (s\<lparr>bcache := x_bcache\<rparr>) = depth s"
  "depth (s\<lparr>memdisk := x_memdisk\<rparr>) = depth s"
  "depth (s\<lparr>disksize := x_disksize\<rparr>) = depth s"
  "depth (s\<lparr>power := x_power\<rparr>) = depth s"
  "depth (s\<lparr>log := x_log\<rparr>) = depth s"
  "depth (s\<lparr>console_out := x_console_out\<rparr>) = depth s"
  "depth (s\<lparr>fsys := x_fsys\<rparr>) = depth s"
  "depth (s\<lparr>ide := x_ide\<rparr>) = depth s"
  "depth (s\<lparr>cons := x_cons\<rparr>) = depth s"
  "depth (s\<lparr>env := x_env\<rparr>) = depth s"
  by (simp_all add: depth_def)

lemma cpu_wf_indep [simp]:
  "cpu_wf (s\<lparr>argp := x_argp\<rparr>) = cpu_wf s"
  "cpu_wf (s\<lparr>ram := x_ram\<rparr>) = cpu_wf s"
  "cpu_wf (s\<lparr>slocks := x_slocks\<rparr>) = cpu_wf s"
  "cpu_wf (s\<lparr>ticks := x_ticks\<rparr>) = cpu_wf s"
  "cpu_wf (s\<lparr>procs := x_procs\<rparr>) = cpu_wf s"
  "cpu_wf (s\<lparr>initproc := x_initproc\<rparr>) = cpu_wf s"
  "cpu_wf (s\<lparr>nextpid := x_nextpid\<rparr>) = cpu_wf s"
  "cpu_wf (s\<lparr>p_hist := x_p_hist\<rparr>) = cpu_wf s"
  "cpu_wf (s\<lparr>sems := x_sems\<rparr>) = cpu_wf s"
  "cpu_wf (s\<lparr>use_lock := x_use_lock\<rparr>) = cpu_wf s"
  "cpu_wf (s\<lparr>freelist := x_freelist\<rparr>) = cpu_wf s"
  "cpu_wf (s\<lparr>pipes := x_pipes\<rparr>) = cpu_wf s"
  "cpu_wf (s\<lparr>bcache := x_bcache\<rparr>) = cpu_wf s"
  "cpu_wf (s\<lparr>memdisk := x_memdisk\<rparr>) = cpu_wf s"
  "cpu_wf (s\<lparr>disksize := x_disksize\<rparr>) = cpu_wf s"
  "cpu_wf (s\<lparr>power := x_power\<rparr>) = cpu_wf s"
  "cpu_wf (s\<lparr>log := x_log\<rparr>) = cpu_wf s"
  "cpu_wf (s\<lparr>console_out := x_console_out\<rparr>) = cpu_wf s"
  "cpu_wf (s\<lparr>fsys := x_fsys\<rparr>) = cpu_wf s"
  "cpu_wf (s\<lparr>ide := x_ide\<rparr>) = cpu_wf s"
  "cpu_wf (s\<lparr>cons := x_cons\<rparr>) = cpu_wf s"
  "cpu_wf (s\<lparr>env := x_env\<rparr>) = cpu_wf s"
  by (simp_all add: cpu_wf_def)

lemma owns_indep [simp]:
  "owns l (s\<lparr>argp := x_argp\<rparr>) = owns l s"
  "owns l (s\<lparr>ram := x_ram\<rparr>) = owns l s"
  "owns l (s\<lparr>slocks := x_slocks\<rparr>) = owns l s"
  "owns l (s\<lparr>ticks := x_ticks\<rparr>) = owns l s"
  "owns l (s\<lparr>procs := x_procs\<rparr>) = owns l s"
  "owns l (s\<lparr>initproc := x_initproc\<rparr>) = owns l s"
  "owns l (s\<lparr>nextpid := x_nextpid\<rparr>) = owns l s"
  "owns l (s\<lparr>p_hist := x_p_hist\<rparr>) = owns l s"
  "owns l (s\<lparr>sems := x_sems\<rparr>) = owns l s"
  "owns l (s\<lparr>use_lock := x_use_lock\<rparr>) = owns l s"
  "owns l (s\<lparr>freelist := x_freelist\<rparr>) = owns l s"
  "owns l (s\<lparr>pipes := x_pipes\<rparr>) = owns l s"
  "owns l (s\<lparr>bcache := x_bcache\<rparr>) = owns l s"
  "owns l (s\<lparr>memdisk := x_memdisk\<rparr>) = owns l s"
  "owns l (s\<lparr>disksize := x_disksize\<rparr>) = owns l s"
  "owns l (s\<lparr>power := x_power\<rparr>) = owns l s"
  "owns l (s\<lparr>log := x_log\<rparr>) = owns l s"
  "owns l (s\<lparr>console_out := x_console_out\<rparr>) = owns l s"
  "owns l (s\<lparr>fsys := x_fsys\<rparr>) = owns l s"
  "owns l (s\<lparr>ide := x_ide\<rparr>) = owns l s"
  "owns l (s\<lparr>cons := x_cons\<rparr>) = owns l s"
  "owns l (s\<lparr>env := x_env\<rparr>) = owns l s"
  by (simp_all add: owns_def)

lemma free_indep [simp]:
  "free l (s\<lparr>argp := x_argp\<rparr>) = free l s"
  "free l (s\<lparr>ram := x_ram\<rparr>) = free l s"
  "free l (s\<lparr>slocks := x_slocks\<rparr>) = free l s"
  "free l (s\<lparr>ticks := x_ticks\<rparr>) = free l s"
  "free l (s\<lparr>procs := x_procs\<rparr>) = free l s"
  "free l (s\<lparr>initproc := x_initproc\<rparr>) = free l s"
  "free l (s\<lparr>nextpid := x_nextpid\<rparr>) = free l s"
  "free l (s\<lparr>p_hist := x_p_hist\<rparr>) = free l s"
  "free l (s\<lparr>sems := x_sems\<rparr>) = free l s"
  "free l (s\<lparr>use_lock := x_use_lock\<rparr>) = free l s"
  "free l (s\<lparr>freelist := x_freelist\<rparr>) = free l s"
  "free l (s\<lparr>pipes := x_pipes\<rparr>) = free l s"
  "free l (s\<lparr>bcache := x_bcache\<rparr>) = free l s"
  "free l (s\<lparr>memdisk := x_memdisk\<rparr>) = free l s"
  "free l (s\<lparr>disksize := x_disksize\<rparr>) = free l s"
  "free l (s\<lparr>power := x_power\<rparr>) = free l s"
  "free l (s\<lparr>log := x_log\<rparr>) = free l s"
  "free l (s\<lparr>console_out := x_console_out\<rparr>) = free l s"
  "free l (s\<lparr>fsys := x_fsys\<rparr>) = free l s"
  "free l (s\<lparr>ide := x_ide\<rparr>) = free l s"
  "free l (s\<lparr>cons := x_cons\<rparr>) = free l s"
  "free l (s\<lparr>env := x_env\<rparr>) = free l s"
  by (simp_all add: free_def)

lemma upd_proc_cpu [simp]:
  "cpu_index (upd_proc i f s) = cpu_index s" "this_cpu (upd_proc i f s) = this_cpu s"
  "depth (upd_proc i f s) = depth s" "cpu_wf (upd_proc i f s) = cpu_wf s"
  "owns l (upd_proc i f s) = owns l s" "free l (upd_proc i f s) = free l s"
  by (simp_all add: upd_proc_def)

lemma acquired_fields [simp]:
  "lapic_ID (acquired l s) = lapic_ID s" "argp (acquired l s) = argp s" "ram (acquired l s) = ram s"
  "ncpu (acquired l s) = ncpu s" "slocks (acquired l s) = slocks s" "ticks (acquired l s) = ticks s"
  "procs (acquired l s) = procs s" "initproc (acquired l s) = initproc s"
  "nextpid (acquired l s) = nextpid s" "p_hist (acquired l s) = p_hist s"
  "sems (acquired l s) = sems s" "use_lock (acquired l s) = use_lock s"
  "freelist (acquired l s) = freelist s" "pipes (acquired l s) = pipes s"
  "bcache (acquired l s) = bcache s" "memdisk (acquired l s) = memdisk s"
  "disksize (acquired l s) = disksize s" "power (acquired l s) = power s"
  "log (acquired l s) = log s" "console_out (acquired l s) = console_out s"
  "fsys (acquired l s) = fsys s" "ide (acquired l s) = ide s" "cons (acquired l s) = cons s"
  "env (acquired l s) = env s"
  by (simp_all add: acquired_def pushed_def upd_lock_def)

lemma released_fields [simp]:
  "lapic_ID (released l s) = lapic_ID s" "argp (released l s) = argp s" "ram (released l s) = ram s"
  "ncpu (released l s) = ncpu s" "slocks (released l s) = slocks s" "ticks (released l s) = ticks s"
  "procs (released l s) = procs s" "initproc (released l s) = initproc s"
  "nextpid (released l s) = nextpid s" "p_hist (released l s) = p_hist s"
  "sems (released l s) = sems s" "use_lock (released l s) = use_lock s"
  "freelist (released l s) = freelist s" "pipes (released l s) = pipes s"
  "bcache (released l s) = bcache s" "memdisk (released l s) = memdisk s"
  "disksize (released l s) = disksize s" "power (released l s) = power s"
  "log (released l s) = log s" "console_out (released l s) = console_out s"
  "fsys (released l s) = fsys s" "ide (released l s) = ide s" "cons (released l s) = cons s"
  "env (released l s) = env s"
  by (simp_all add: released_def popped_def upd_lock_def)

lemma pushed_fields [simp]:
  "lapic_ID (pushed s) = lapic_ID s" "argp (pushed s) = argp s" "ram (pushed s) = ram s"
  "ncpu (pushed s) = ncpu s" "slocks (pushed s) = slocks s" "ticks (pushed s) = ticks s"
  "procs (pushed s) = procs s" "initproc (pushed s) = initproc s" "nextpid (pushed s) = nextpid s"
  "p_hist (pushed s) = p_hist s" "sems (pushed s) = sems s" "use_lock (pushed s) = use_lock s"
  "freelist (pushed s) = freelist s" "pipes (pushed s) = pipes s" "bcache (pushed s) = bcache s"
  "memdisk (pushed s) = memdisk s" "disksize (pushed s) = disksize s" "power (pushed s) = power s"
  "log (pushed s) = log s" "console_out (pushed s) = console_out s" "env (pushed s) = env s"
  "fsys (pushed s) = fsys s" "ide (pushed s) = ide s" "cons (pushed s) = cons s"
  "locks (pushed s) = locks s"
  by (simp_all add: pushed_def)

lemma popped_fields [simp]:
  "lapic_ID (popped s) = lapic_ID s" "argp (popped s) = argp s" "ram (popped s) = ram s"
  "ncpu (popped s) = ncpu s" "slocks (popped s) = slocks s" "ticks (popped s) = ticks s"
  "procs (popped s) = procs s" "initproc (popped s) = initproc s" "nextpid (popped s) = nextpid s"
  "p_hist (popped s) = p_hist s" "sems (popped s) = sems s" "use_lock (popped s) = use_lock s"
  "freelist (popped s) = freelist s" "pipes (popped s) = pipes s" "bcache (popped s) = bcache s"
  "memdisk (popped s) = memdisk s" "disksize (popped s) = disksize s" "power (popped s) = power s"
  "log (popped s) = log s" "console_out (popped s) = console_out s" "env (popped s) = env s"
  "fsys (popped s) = fsys s" "ide (popped s) = ide s" "cons (popped s) = cons s"
  "locks (popped s) = locks s"
  by (simp_all add: popped_def)

lemma length_cpus [simp]:
  "length (cpus (acquired l s)) = length (cpus s)" "length (cpus (released l s)) = length (cpus s)"
  "length (cpus (pushed s)) = length (cpus s)" "length (cpus (popped s)) = length (cpus s)"
  by (simp_all add: acquired_def released_def pushed_def popped_def upd_lock_def)


subsection \<open>Finding the processor\<close>

lemma find_idx_map: "find_idx P (map g xs) = find_idx (\<lambda>x. P (g x)) xs"
  by (induction xs) auto

lemma find_idx_upd:
  assumes "\<And>x. g (f x) = g x"
  shows "find_idx (\<lambda>x. P (g x)) (take n (upd i f xs)) = find_idx (\<lambda>x. P (g x)) (take n xs)"
proof -
  have "map g (take n (upd i f xs)) = map g (take n xs)"
    using assms by (simp add: take_map [symmetric] map_upd_same)
  then show ?thesis by (metis find_idx_map)
qed

lemma cpu_index_cpus [simp]:
  assumes "\<And>c. apicid (f c) = apicid c"
  shows "cpu_index (s\<lparr>cpus := upd i f (cpus s)\<rparr>) = cpu_index s"
  using find_idx_upd [where g = apicid and f = f, OF assms] by (simp add: cpu_index_def lapicid_def)

lemma cpu_index_lt: "cpu_index s = Some i \<Longrightarrow> i < length (cpus s)"
  by (auto simp: cpu_index_def dest: find_idx_SomeD)

lemma this_cpu_lt: "cpu_wf s \<Longrightarrow> this_cpu s < length (cpus s)"
  by (auto simp: cpu_wf_def this_cpu_def dest: cpu_index_lt)

lemma cpu_index_flags [simp]:
  "cpu_index (s\<lparr>eflags_IF := b\<rparr>) = cpu_index s" "cpu_index (s\<lparr>locks := ls\<rparr>) = cpu_index s"
  "this_cpu (s\<lparr>eflags_IF := b\<rparr>) = this_cpu s" "this_cpu (s\<lparr>locks := ls\<rparr>) = this_cpu s"
  "depth (s\<lparr>eflags_IF := b\<rparr>) = depth s" "depth (s\<lparr>locks := ls\<rparr>) = depth s"
  "cpu_wf (s\<lparr>locks := ls\<rparr>) = cpu_wf s"
  by (simp_all add: cpu_index_def lapicid_def this_cpu_def depth_def cpu_wf_def)

lemma cpu_index_push_pop [simp]:
  "cpu_index (pushed s) = cpu_index s" "cpu_index (popped s) = cpu_index s"
  "cpu_index (acquired l s) = cpu_index s" "cpu_index (released l s) = cpu_index s"
  "cpu_index (upd_lock l f s) = cpu_index s" "cpu_index (upd_cpu i (ncli_update g) s) = cpu_index s"
  "cpu_index (upd_cpu i (intena_update h) s) = cpu_index s"
proof -
  show p: "cpu_index (pushed s) = cpu_index s" for s
    using cpu_index_cpus [where f = "\<lambda>c. c\<lparr>intena := (if ncli c = 0 then eflags_IF s else intena c),
        ncli := ncli c + 1\<rparr>" and s = "s\<lparr>eflags_IF := False\<rparr>" and i = "this_cpu s"]
    by (simp add: pushed_def)
  show q: "cpu_index (popped s) = cpu_index s" for s
    using cpu_index_cpus [where f = "\<lambda>c. c\<lparr>ncli := ncli c - 1\<rparr>" and i = "this_cpu s"
        and s = "s\<lparr>eflags_IF := (depth s = 1 \<and> intena (cpus s ! this_cpu s))\<rparr>"]
    by (simp add: popped_def)
  show "cpu_index (acquired l s) = cpu_index s" "cpu_index (released l s) = cpu_index s"
    by (simp_all add: acquired_def released_def upd_lock_def p q)
qed (simp_all add: upd_lock_def upd_cpu_def)

lemma this_cpu_push_pop [simp]:
  "this_cpu (pushed s) = this_cpu s" "this_cpu (popped s) = this_cpu s"
  "this_cpu (acquired l s) = this_cpu s" "this_cpu (released l s) = this_cpu s"
  "this_cpu (upd_lock l f s) = this_cpu s" "this_cpu (upd_cpu i (ncli_update g) s) = this_cpu s"
  "this_cpu (upd_cpu i (intena_update h) s) = this_cpu s"
  by (simp_all add: this_cpu_def)

lemma mycpu_run: "cpu_wf s \<Longrightarrow> \<not> eflags_IF s \<Longrightarrow> mycpu s = Done (this_cpu s) s"
  by (auto simp: mycpu_def cpu_wf_def this_cpu_def)

subsection \<open>Nesting depth\<close>

lemma depth_push_pop [simp]:
  assumes "cpu_wf s"
  shows "depth (pushed s) = depth s + 1" and "depth (popped s) = depth s - 1"
    and "depth (acquired l s) = depth s + 1" and "depth (released l s) = depth s - 1"
  using this_cpu_lt [OF assms]
  by (simp_all add: depth_def acquired_def released_def upd_lock_def)
     (simp_all add: pushed_def popped_def)

lemma depth_upd_lock [simp]: "depth (upd_lock l f s) = depth s"
  by (simp add: upd_lock_def)

lemma cpu_wf_upd_lock [simp]: "cpu_wf (upd_lock l f s) = cpu_wf s"
  by (simp add: upd_lock_def)

lemma flags_push_pop [simp]:
  "\<not> eflags_IF (pushed s)" "\<not> eflags_IF (acquired l s)"
  "eflags_IF (upd_lock l f s) = eflags_IF s" "eflags_IF (upd_cpu i g s) = eflags_IF s"
  by (simp_all add: pushed_def acquired_def upd_lock_def upd_cpu_def)

lemma eflags_pop [simp]:
  "eflags_IF (popped s) \<longleftrightarrow> depth s = 1 \<and> intena (cpus s ! this_cpu s)"
  "eflags_IF (released l s) \<longleftrightarrow> depth s = 1 \<and> intena (cpus s ! this_cpu s)"
  by (simp_all add: popped_def released_def) (simp add: upd_lock_def)

lemma cpu_wf_push_pop [simp]:
  assumes "cpu_wf s"
  shows "cpu_wf (pushed s)" and "0 < depth s \<Longrightarrow> cpu_wf (popped s)"
    and "cpu_wf (acquired l s)" and "0 < depth s \<Longrightarrow> cpu_wf (released l s)"
  using assms cpu_wf_def [THEN iffD1, OF assms]
  by (simp_all add: cpu_wf_def [of "pushed s"] cpu_wf_def [of "acquired l s"]
      cpu_wf_def [of "popped s"] cpu_wf_def [of "released l s"])

subsection \<open>What each operation does where it succeeds\<close>

lemma pushcli_run:
  assumes "cpu_wf s"
  shows "pushcli s = Done () (pushed s)"
proof -
  let ?s = "s\<lparr>eflags_IF := False\<rparr>"
  have "mycpu ?s = Done (this_cpu s) ?s"
    using mycpu_run [of ?s] assms by (simp add: cpu_wf_def)
  then show ?thesis
    by (simp add: pushcli_def cli_def pushed_def upd_cpu_def upd_def this_cpu_def depth_def
        nth_list_update split: if_splits)
      (cases "this_cpu s < length (cpus s)"; simp add: this_cpu_def list_update_beyond)
qed

lemma popcli_run:
  assumes "cpu_wf s" and "0 < depth s"
  shows "popcli s = Done () (popped s)"
proof -
  have IF: "\<not> eflags_IF s" using assms by (simp add: cpu_wf_def)
  have "mycpu s = Done (this_cpu s) s" using assms(1) IF by (rule mycpu_run)
  moreover have "popped s = (popped s)\<lparr>eflags_IF := eflags_IF s\<rparr>"
    if "\<not> (depth s = 1 \<and> intena (cpus s ! this_cpu s))"
    using that IF by (simp add: popped_def)
  ultimately show ?thesis
    using assms IF this_cpu_lt [OF assms(1)]
    by (auto simp: popcli_def popped_def sti_def upd_cpu_def depth_def)
qed

lemma popped_pushed:
  assumes "cpu_wf s" and "0 < depth s"
  shows "popped (pushed s) = s"
proof -
  have "upd (this_cpu s) (\<lambda>c. c\<lparr>intena := (if ncli c = 0 then eflags_IF s else intena c),
      ncli := ncli c + 1 - 1\<rparr>) (cpus s) = cpus s"
    using assms this_cpu_lt [OF assms(1)]
    by (intro nth_equalityI) (auto simp: nth_upd depth_def)
  then show ?thesis
    using assms by (simp add: popped_def cpu_wf_def) (simp add: pushed_def)
qed

text \<open>
  \<open>holding\<close> nests one \<open>pushcli\<close>; where some are already in force it changes nothing, and
  elsewhere only \<open>intena\<close>, which is read while some are in force.
\<close>

lemma holding_run:
  assumes "cpu_wf s"
  shows "holding l s = Done (owns l s) (popped (pushed s))"
proof -
  have "mycpu (pushed s) = Done (this_cpu s) (pushed s)"
    using mycpu_run [of "pushed s"] assms by simp
  moreover have "popcli (pushed s) = Done () (popped (pushed s))"
    using popcli_run [of "pushed s"] assms by (simp add: cpu_wf_def)
  ultimately show ?thesis
    using pushcli_run [OF assms] by (simp add: holding_def owns_def)
qed

lemma holding_run_nested: "cpu_wf s \<Longrightarrow> 0 < depth s \<Longrightarrow> holding l s = Done (owns l s) s"
  by (simp add: holding_run popped_pushed)

lemma owns_push_pop [simp]:
  "owns l (pushed s) = owns l s" "owns l (popped s) = owns l s"
  by (simp_all add: owns_def)

lemma free_push_pop [simp]:
  "free l (pushed s) = free l s" "free l (popped s) = free l s"
  by (simp_all add: free_def)

lemma xchg_spin_free: "free l s \<Longrightarrow> xchg_spin l s = Done () (upd_lock l (\<lambda>k. k\<lparr>lk_locked := True\<rparr>) s)"
  by (simp add: xchg_spin.simps free_def)

lemma acquire_run:
  assumes "cpu_wf s" and "free l s"
  shows "acquire l s = Done () (acquired l s)"
proof -
  have not_owns: "\<not> owns l (pushed s)" using assms by (simp add: owns_def free_def)
  have hold: "holding l (pushed s) = Done False (pushed s)"
    using holding_run_nested [of "pushed s" l] assms not_owns by (simp add: cpu_wf_def)
  let ?t = "upd_lock l (\<lambda>k. k\<lparr>lk_locked := True\<rparr>) (pushed s)"
  have "mycpu ?t = Done (this_cpu s) ?t"
    using mycpu_run [of ?t] assms by simp
  then show ?thesis
    using assms hold pushcli_run [OF assms(1)] xchg_spin_free [of l "pushed s"]
    by (simp add: acquire_def run_app acquired_def) (simp add: upd_lock_def)
qed

lemma release_run:
  assumes "cpu_wf s" and "owns l s" and "0 < depth s"
  shows "release l s = Done () (released l s)"
proof -
  let ?t = "upd_lock l (\<lambda>k. k\<lparr>lk_pcs := (lk_pcs k)[0 := 0], lk_cpu := None, lk_locked := False\<rparr>) s"
  have "popcli ?t = Done () (popped ?t)"
    using assms by (intro popcli_run) simp_all
  then show ?thesis
    using assms holding_run_nested [of s l]
    by (simp add: release_def released_def) (simp add: upd_lock_def)
qed

text \<open>Taking a lock twice, or giving back one that is not held, ends in a panic.\<close>

lemma acquire_held:
  assumes "cpu_wf s" and "owns l s"
  shows "acquire l s = Panic ''acquire''"
  using assms holding_run_nested [of "pushed s" l] pushcli_run [of s]
  by (simp add: acquire_def cpu_wf_def)

lemma release_not_held:
  assumes "cpu_wf s" and "\<not> owns l s"
  shows "release l s = Panic ''release''"
  using assms holding_run [of s l] by (simp add: release_def)

lemma wp_acquire [wp_simps]: "cpu_wf s \<Longrightarrow> free l s \<Longrightarrow> wp (acquire l) Q s \<longleftrightarrow> Q () (acquired l s)"
  by (simp add: wp_def acquire_run)

lemma wp_release [wp_simps]:
  "cpu_wf s \<Longrightarrow> owns l s \<Longrightarrow> 0 < depth s \<Longrightarrow> wp (release l) Q s \<longleftrightarrow> Q () (released l s)"
  by (simp add: wp_def release_run)

subsection \<open>Locks after acquiring and releasing\<close>

lemma locks_acquired:
  "locks (acquired l s) = (locks s)(l := (locks s l)\<lparr>lk_locked := True, lk_cpu := Some (this_cpu s),
     lk_pcs := getcallerpcs (ram s) (argp s)\<rparr>)"
  by (simp add: acquired_def upd_lock_def)

lemma locks_released:
  "locks (released l s) = (locks s)(l := (locks s l)\<lparr>lk_pcs := (lk_pcs (locks s l))[0 := 0],
     lk_cpu := None, lk_locked := False\<rparr>)"
  by (simp add: released_def upd_lock_def)

lemma owns_acquired [simp]: "owns k (acquired l s) \<longleftrightarrow> k = l \<or> owns k s"
  by (auto simp: owns_def locks_acquired)

lemma owns_released [simp]: "owns k (released l s) \<longleftrightarrow> k \<noteq> l \<and> owns k s"
  by (auto simp: owns_def locks_released)

lemma free_acquired [simp]: "free k (acquired l s) \<longleftrightarrow> k \<noteq> l \<and> free k s"
  by (auto simp: free_def locks_acquired)

lemma free_released [simp]: "free k (released l s) \<longleftrightarrow> k = l \<or> free k s"
  by (auto simp: free_def locks_released)

lemma depth_pos: "cpu_wf s \<Longrightarrow> 0 < depth (acquired l s)"
  by (simp add: cpu_wf_def)

lemma depth_nonneg: "cpu_wf s \<Longrightarrow> 0 \<le> depth s"
  by (simp add: cpu_wf_def)

subsection \<open>Operations that leave the locks as they found them\<close>

lemma neutral_refl [simp]: "neutral s s"
  by (simp add: neutral_def)

lemma neutral_trans: "neutral s t \<Longrightarrow> neutral t u \<Longrightarrow> neutral s u"
  by (auto simp: neutral_def)

lemma neutral_this_cpu: "neutral s t \<Longrightarrow> this_cpu t = this_cpu s"
  by (simp add: neutral_def this_cpu_def)

lemma neutral_cpu_wf: "neutral s t \<Longrightarrow> cpu_wf t = cpu_wf s"
  by (simp add: neutral_def cpu_wf_def)

lemma neutral_owns: "neutral s t \<Longrightarrow> owns l t = owns l s"
  by (simp add: neutral_def owns_def this_cpu_def)

lemma neutral_free: "neutral s t \<Longrightarrow> free l t = free l s"
  by (simp add: neutral_def free_def)

lemma intena_pushed: "cpu_wf s \<Longrightarrow>
  intena (cpus (pushed s) ! this_cpu s) = (if depth s = 0 then eflags_IF s else intena (cpus s ! this_cpu s))"
  using this_cpu_lt [of s] by (simp add: pushed_def depth_def)

lemma intena_acquired: "cpu_wf s \<Longrightarrow>
  intena (cpus (acquired l s) ! this_cpu s)
    = (if depth s = 0 then eflags_IF s else intena (cpus s ! this_cpu s))"
  using intena_pushed [of s] by (simp add: acquired_def upd_lock_def)

lemma neutral_push_pop: "cpu_wf s \<Longrightarrow> neutral s (popped (pushed s))"
  by (auto simp: neutral_def intena_pushed cpu_wf_def)

text \<open>
  The shape every locked operation of the kernel has: take the lock, change things that are not
  locks, give it back.  A free lock has no owner recorded (\<open>release\<close> and \<open>initlock\<close> clear it).
\<close>

lemma neutral_bracket:
  assumes "cpu_wf s" and "free l s" and "lk_cpu (locks s l) = None"
    and "locks t = locks (acquired l s)" and "cpus t = cpus (acquired l s)"
    and "eflags_IF t = eflags_IF (acquired l s)" and "lapic_ID t = lapic_ID s" and "ncpu t = ncpu s"
  shows "neutral s (released l t)"
proof -
  have idx: "cpu_index t = cpu_index s"
    using assms(5,7,8) cpu_index_push_pop(3) [of l s]
    by (simp add: cpu_index_def lapicid_def)
  then have this_eq: "this_cpu t = this_cpu s" by (simp add: this_cpu_def)
  then have d: "depth t = depth s + 1"
    using assms(1,5) depth_push_pop(3) [OF assms(1), of l] by (simp add: depth_def)
  have wf: "cpu_wf t"
    using assms(1,6) idx d by (simp add: cpu_wf_def)
  have int: "intena (cpus t ! this_cpu t) = (if depth s = 0 then eflags_IF s else intena (cpus s ! this_cpu s))"
    using intena_acquired [OF assms(1), of l] assms(5) this_eq by simp
  have "eflags_IF (released l t) = eflags_IF s"
    using d int assms(1) by (auto simp: cpu_wf_def)
  moreover have "lk_locked (locks (released l t) k) = lk_locked (locks s k)
      \<and> lk_cpu (locks (released l t) k) = lk_cpu (locks s k)" for k
    using assms(2-4) by (auto simp: locks_released locks_acquired free_def)
  ultimately show ?thesis
    using wf d idx by (simp add: neutral_def)
qed

subsection \<open>Several processors\<close>

text \<open>
  All processors share the kernel's memory; each has its own interrupt flag and APIC ID.  A step
  is one processor running \<open>acquire\<close> or \<open>release\<close> to the end.  \<open>crit i\<close> is the set of locks
  processor \<open>i\<close> has taken and not given back: the critical sections it is in.
\<close>

record smp =
  shared :: kworld
  flag :: "nat \<Rightarrow> bool"
  crit :: "nat \<Rightarrow> lockid set"

definition on_cpu :: "nat \<Rightarrow> smp \<Rightarrow> kworld" where
  "on_cpu i m = (shared m)\<lparr>eflags_IF := flag m i, env := [],
     lapic_ID := Some (push_bit 24 (ucast (apicid (cpus (shared m) ! i))))\<rparr>"

inductive smp_step :: "smp \<Rightarrow> smp \<Rightarrow> bool" where
  enter: "i < ncpu (shared m) \<Longrightarrow> acquire l (on_cpu i m) = Done () t \<Longrightarrow>
    smp_step m \<lparr>shared = t, flag = (flag m)(i := eflags_IF t), crit = (crit m)(i := insert l (crit m i))\<rparr>"
| leave: "i < ncpu (shared m) \<Longrightarrow> release l (on_cpu i m) = Done () t \<Longrightarrow>
    smp_step m \<lparr>shared = t, flag = (flag m)(i := eflags_IF t), crit = (crit m)(i := crit m i - {l})\<rparr>"

inductive_cases smp_stepE: "smp_step m m'"

definition smp_init :: "smp \<Rightarrow> bool" where
  "smp_init m \<longleftrightarrow> ncpu (shared m) \<le> length (cpus (shared m))
     \<and> distinct (map apicid (take (ncpu (shared m)) (cpus (shared m))))
     \<and> (\<forall>i < ncpu (shared m). ncli (cpus (shared m) ! i) = 0)
     \<and> (\<forall>l. \<not> lk_locked (locks (shared m) l)) \<and> (\<forall>i. crit m i = {})"

definition smp_inv :: "smp \<Rightarrow> bool" where
  "smp_inv m \<longleftrightarrow> ncpu (shared m) \<le> length (cpus (shared m))
     \<and> distinct (map apicid (take (ncpu (shared m)) (cpus (shared m))))
     \<and> (\<forall>i < ncpu (shared m). finite (crit m i) \<and> int (card (crit m i)) \<le> ncli (cpus (shared m) ! i)
          \<and> (0 < ncli (cpus (shared m) ! i) \<longrightarrow> \<not> flag m i))
     \<and> (\<forall>l. \<forall>i < ncpu (shared m). l \<in> crit m i \<longleftrightarrow>
          lk_locked (locks (shared m) l) \<and> lk_cpu (locks (shared m) l) = Some i)
     \<and> (\<forall>l. lk_locked (locks (shared m) l) \<longrightarrow>
          (\<exists>i < ncpu (shared m). lk_cpu (locks (shared m) l) = Some i))"

lemma drop_push_apicid: "drop_bit 24 (push_bit 24 (ucast (a :: 8 word) :: 32 word)) = ucast a"
  by (rule bit_word_eqI) (auto simp: bit_simps dest: bit_imp_le_length)

lemma ucast8_inj: "ucast a = (ucast b :: 32 word) \<longleftrightarrow> a = b" for a b :: "8 word"
  by transfer (simp add: take_bit_eq_mod)

lemma cpu_index_on_cpu:
  assumes "smp_inv m" and "i < ncpu (shared m)"
  shows "cpu_index (on_cpu i m) = Some i"
proof -
  let ?cs = "take (ncpu (shared m)) (cpus (shared m))"
  have "find_idx (\<lambda>c. (ucast (apicid c) :: 32 word) = ucast (apicid (cpus (shared m) ! i))) ?cs = Some i"
    using assms unfolding find_idx_Some smp_inv_def
    by (auto simp: ucast8_inj nth_eq_iff_index_eq distinct_conv_nth)
  then show ?thesis
    by (simp add: cpu_index_def lapicid_def on_cpu_def drop_push_apicid)
qed

lemma on_cpu_fields [simp]:
  "cpus (on_cpu i m) = cpus (shared m)" "ncpu (on_cpu i m) = ncpu (shared m)"
  "locks (on_cpu i m) = locks (shared m)" "eflags_IF (on_cpu i m) = flag m i"
  "env (on_cpu i m) = []"
  by (simp_all add: on_cpu_def)

lemma on_cpu_wf:
  assumes "smp_inv m" and "i < ncpu (shared m)"
  shows "this_cpu (on_cpu i m) = i" and "depth (on_cpu i m) = ncli (cpus (shared m) ! i)"
    and "cpu_wf (on_cpu i m)"
proof -
  show this_eq: "this_cpu (on_cpu i m) = i"
    using cpu_index_on_cpu [OF assms] by (simp add: this_cpu_def)
  then show d: "depth (on_cpu i m) = ncli (cpus (shared m) ! i)"
    by (simp add: depth_def)
  have "int (card (crit m i)) \<le> ncli (cpus (shared m) ! i)"
    and "0 < ncli (cpus (shared m) ! i) \<longrightarrow> \<not> flag m i"
    using assms by (auto simp: smp_inv_def)
  then show "cpu_wf (on_cpu i m)"
    using cpu_index_on_cpu [OF assms] d by (simp add: cpu_wf_def)
qed

lemma acquire_taken:
  assumes "cpu_wf s" and "\<not> free l s" and "\<not> owns l s" and "env s = []"
  shows "acquire l s = Blocked"
proof -
  have "xchg_spin l (pushed s) = Blocked"
    using assms by (simp add: xchg_spin.simps free_def)
  then show ?thesis
    using assms holding_run_nested [of "pushed s" l] pushcli_run [of s]
    by (simp add: acquire_def run_app cpu_wf_def)
qed

lemma cpus_acquired:
  "cpus (acquired l s) = upd (this_cpu s) (\<lambda>c. c\<lparr>intena := (if ncli c = 0 then eflags_IF s else intena c),
     ncli := ncli c + 1\<rparr>) (cpus s)"
  by (simp add: acquired_def upd_lock_def pushed_def)

lemma cpus_released: "cpus (released l s) = upd (this_cpu s) (\<lambda>c. c\<lparr>ncli := ncli c - 1\<rparr>) (cpus s)"
  by (simp add: released_def popped_def) (simp add: upd_lock_def)

lemma apicids_upd:
  "(\<And>c. apicid (f c) = apicid c) \<Longrightarrow> map apicid (take n (upd i f xs)) = map apicid (take n xs)"
  by (simp add: take_map [symmetric] map_upd_same)

lemma smp_step_inv:
  assumes "smp_step m m'" and "smp_inv m"
  shows "smp_inv m'"
  using assms(1)
proof cases
  case (enter i l t)
  let ?s = "on_cpu i m"
  note s = on_cpu_wf [OF assms(2) enter(2)]
  have "free l ?s"
    using enter(3) acquire_held [OF s(3)] acquire_taken [OF s(3)] by fastforce
  then have t: "t = acquired l ?s" and fr: "\<not> lk_locked (locks (shared m) l)"
    using enter(3) acquire_run [OF s(3)] by (auto simp: free_def)
  have "l \<notin> crit m j" if "j < ncpu (shared m)" for j
    using assms(2) fr that by (auto simp: smp_inv_def)
  then show ?thesis
    using assms(2) enter(1,2) fr s
    by (auto simp: smp_inv_def t cpus_acquired apicids_upd locks_acquired nth_upd)
next
  case (leave i l t)
  let ?s = "on_cpu i m"
  note s = on_cpu_wf [OF assms(2) leave(2)]
  have own: "owns l ?s"
    using leave(3) release_not_held [OF s(3)] by fastforce
  then have l: "l \<in> crit m i" and lk: "lk_cpu (locks (shared m) l) = Some i"
    using assms(2) leave(2) s(1) by (auto simp: smp_inv_def owns_def)
  have fin: "finite (crit m i)" and le: "int (card (crit m i)) \<le> ncli (cpus (shared m) ! i)"
    using assms(2) leave(2) by (auto simp: smp_inv_def)
  have card: "int (card (crit m i - {l})) \<le> ncli (cpus (shared m) ! i) - 1"
    using le l fin card_gt_0_iff [of "crit m i"] by (auto simp: card_Diff_singleton of_nat_diff)
  then have d: "0 < depth ?s"
    using s(2) by simp
  have t: "t = released l ?s"
    using leave(3) release_run [OF s(3) own d] by simp
  show ?thesis
    using assms(2) leave(1,2) s lk l card
    by (auto simp: smp_inv_def t cpus_released apicids_upd locks_released nth_upd)
qed

lemma smp_init_inv: "smp_init m \<Longrightarrow> smp_inv m"
  by (auto simp: smp_init_def smp_inv_def)

lemma smp_reach_inv: "smp_step\<^sup>*\<^sup>* m m' \<Longrightarrow> smp_inv m \<Longrightarrow> smp_inv m'"
  by (induction rule: rtranclp_induct) (auto intro: smp_step_inv)

lemma bss_cpu [simp]:
  "cpu_index bss = Some 0" "this_cpu bss = 0" "depth bss = 0" "cpu_wf bss" "\<not> eflags_IF bss"
  "free l bss" "\<not> owns l bss"
proof -
  show idx: "cpu_index bss = Some 0"
    by (simp add: cpu_index_def lapicid_def bss_def zero_cpu_def take_Cons')
  then show this_eq: "this_cpu bss = 0" by (simp add: this_cpu_def)
  then show d: "depth bss = 0" by (simp add: depth_def bss_def zero_cpu_def)
  show "\<not> eflags_IF bss" by (simp add: bss_def)
  then show "cpu_wf bss" using idx d by (simp add: cpu_wf_def)
  show "free l bss" by (simp add: free_def bss_def zero_lock_def)
  then show "\<not> owns l bss" by (simp add: free_def owns_def)
qed

subsection \<open>Properties\<close>


definition smp_example :: smp where
  "smp_example = \<lparr>shared = bss, flag = (\<lambda>_. True), crit = (\<lambda>_. {})\<rparr>"

lemma smp_example_init: "smp_init smp_example"
  by (simp add: smp_init_def smp_example_def bss_def zero_cpu_def zero_lock_def)


text \<open>
  C12. On a free lock \<open>acquire\<close> returns, with the lock held by this processor, interrupts off and
  the nesting one deeper; the \<open>release\<close> that follows returns and puts everything back: who holds
  every lock, the nesting depth and the interrupt flag are what they were before, also when other
  locks are held around it.
\<close>

theorem acquire_release_restores:
  assumes "cpu_wf s" and "free l s" and "lk_cpu (locks s l) = None"
  shows "\<exists>t u. acquire l s = Done () t \<and> owns l t \<and> \<not> eflags_IF t \<and> depth t = depth s + 1
    \<and> release l t = Done () u \<and> neutral s u"
proof -
  have "release l (acquired l s) = Done () (released l (acquired l s))"
    using assms depth_pos [of s l] by (intro release_run) simp_all
  moreover have "neutral s (released l (acquired l s))"
    using assms by (intro neutral_bracket) simp_all
  ultimately show ?thesis
    using acquire_run [OF assms(1,2)] assms(1) by auto
qed

theorem acquire_release_restores_witness:
  "\<exists>t u. acquire LogLock bss = Done () t \<and> release LogLock t = Done () u \<and> neutral bss u"
  using acquire_release_restores [of bss LogLock] by auto

text \<open>
  C13. Every branch of the two operations, when no other processor intervenes: a processor that
  acquires a lock it already holds panics, one that finds it free gets it, one that finds it held
  by another processor spins for ever; a release of a lock that is held gives it back, and of one
  that is not held panics.
\<close>

theorem spinlock_branches:
  assumes "cpu_wf s" and "env s = []" and "owns l s \<Longrightarrow> 0 < depth s"
  shows "acquire l s = (if owns l s then Panic ''acquire''
           else if free l s then Done () (acquired l s) else Blocked)
    \<and> release l s = (if owns l s then Done () (released l s) else Panic ''release'')"
  using assms
  by (simp add: acquire_held acquire_run release_not_held acquire_taken release_run)

theorem spinlock_branches_witness:
  "acquire LogLock (acquired LogLock bss) = Panic ''acquire'' \<and> release LogLock bss = Panic ''release''"
  using spinlock_branches [of "acquired LogLock bss" LogLock] spinlock_branches [of bss LogLock] by simp
end
