(* ===== verification/Critical.thy ===== *)
theory Critical
  imports Spinlock
begin

section \<open>Critical sections\<close>

text \<open>
  Almost every operation of the kernel takes a lock, works on the data the lock protects, and gives
  the lock back.  What remains afterwards of the lock is bookkeeping nobody reads: the call stack
  recorded in \<open>pcs\<close>, and \<open>intena\<close> of a processor outside every critical section.  \<open>core\<close> removes
  it, so that a critical section on the data is an equation between cores: lock, change the data
  and unlock is the change of the data.
\<close>

definition core :: "kworld \<Rightarrow> kworld" where
  "core s = s\<lparr>locks := (\<lambda>l. (locks s l)\<lparr>lk_pcs := []\<rparr>),
     cpus := map (\<lambda>c. if ncli c = 0 then c\<lparr>intena := False\<rparr> else c) (cpus s)\<rparr>"

text \<open>A lock that nobody holds, seen from a processor in good order.\<close>

definition ready :: "lockid \<Rightarrow> kworld \<Rightarrow> bool" where
  "ready l s \<longleftrightarrow> cpu_wf s \<and> free l s \<and> lk_cpu (locks s l) = None"

subsection \<open>Data is outside the lock layer\<close>

named_theorems crit_simps "a change of data commutes with taking a lock"

lemma core_fields [simp]:
  "eflags_IF (core s) = eflags_IF s" "lapic_ID (core s) = lapic_ID s" "ncpu (core s) = ncpu s"
  "argp (core s) = argp s" "ram (core s) = ram s" "slocks (core s) = slocks s"
  "ticks (core s) = ticks s" "procs (core s) = procs s" "initproc (core s) = initproc s"
  "nextpid (core s) = nextpid s" "p_hist (core s) = p_hist s" "sems (core s) = sems s"
  "use_lock (core s) = use_lock s" "freelist (core s) = freelist s" "pipes (core s) = pipes s"
  "bcache (core s) = bcache s" "memdisk (core s) = memdisk s" "disksize (core s) = disksize s"
  "power (core s) = power s" "log (core s) = log s" "fsys (core s) = fsys s"
  "ide (core s) = ide s" "cons (core s) = cons s" "console_out (core s) = console_out s"
  "env (core s) = env s"
  by (simp_all add: core_def)

lemma core_upd [crit_simps]:
  "core (argp_update f_argp s) = argp_update f_argp (core s)"
  "core (ram_update f_ram s) = ram_update f_ram (core s)"
  "core (slocks_update f_slocks s) = slocks_update f_slocks (core s)"
  "core (ticks_update f_ticks s) = ticks_update f_ticks (core s)"
  "core (procs_update f_procs s) = procs_update f_procs (core s)"
  "core (initproc_update f_initproc s) = initproc_update f_initproc (core s)"
  "core (nextpid_update f_nextpid s) = nextpid_update f_nextpid (core s)"
  "core (p_hist_update f_p_hist s) = p_hist_update f_p_hist (core s)"
  "core (sems_update f_sems s) = sems_update f_sems (core s)"
  "core (use_lock_update f_use_lock s) = use_lock_update f_use_lock (core s)"
  "core (freelist_update f_freelist s) = freelist_update f_freelist (core s)"
  "core (pipes_update f_pipes s) = pipes_update f_pipes (core s)"
  "core (bcache_update f_bcache s) = bcache_update f_bcache (core s)"
  "core (memdisk_update f_memdisk s) = memdisk_update f_memdisk (core s)"
  "core (disksize_update f_disksize s) = disksize_update f_disksize (core s)"
  "core (power_update f_power s) = power_update f_power (core s)"
  "core (log_update f_log s) = log_update f_log (core s)"
  "core (fsys_update f_fsys s) = fsys_update f_fsys (core s)"
  "core (ide_update f_ide s) = ide_update f_ide (core s)"
  "core (cons_update f_cons s) = cons_update f_cons (core s)"
  "core (console_out_update f_console_out s) = console_out_update f_console_out (core s)"
  "core (env_update f_env s) = env_update f_env (core s)"
  by (simp_all add: core_def)

lemma acquired_upd [crit_simps]:
  "slocks_update f_slocks (acquired l s) = acquired l (slocks_update f_slocks s)"
  "ticks_update f_ticks (acquired l s) = acquired l (ticks_update f_ticks s)"
  "procs_update f_procs (acquired l s) = acquired l (procs_update f_procs s)"
  "initproc_update f_initproc (acquired l s) = acquired l (initproc_update f_initproc s)"
  "nextpid_update f_nextpid (acquired l s) = acquired l (nextpid_update f_nextpid s)"
  "p_hist_update f_p_hist (acquired l s) = acquired l (p_hist_update f_p_hist s)"
  "sems_update f_sems (acquired l s) = acquired l (sems_update f_sems s)"
  "use_lock_update f_use_lock (acquired l s) = acquired l (use_lock_update f_use_lock s)"
  "freelist_update f_freelist (acquired l s) = acquired l (freelist_update f_freelist s)"
  "pipes_update f_pipes (acquired l s) = acquired l (pipes_update f_pipes s)"
  "bcache_update f_bcache (acquired l s) = acquired l (bcache_update f_bcache s)"
  "memdisk_update f_memdisk (acquired l s) = acquired l (memdisk_update f_memdisk s)"
  "disksize_update f_disksize (acquired l s) = acquired l (disksize_update f_disksize s)"
  "power_update f_power (acquired l s) = acquired l (power_update f_power s)"
  "log_update f_log (acquired l s) = acquired l (log_update f_log s)"
  "fsys_update f_fsys (acquired l s) = acquired l (fsys_update f_fsys s)"
  "ide_update f_ide (acquired l s) = acquired l (ide_update f_ide s)"
  "cons_update f_cons (acquired l s) = acquired l (cons_update f_cons s)"
  "console_out_update f_console_out (acquired l s) = acquired l (console_out_update f_console_out s)"
  "env_update f_env (acquired l s) = acquired l (env_update f_env s)"
  by (simp_all add: acquired_def pushed_def upd_lock_def this_cpu_def cpu_index_def lapicid_def
      cong: if_cong)

lemma core_eq_data:
  assumes "core t = core s"
  shows "eflags_IF t = eflags_IF s"
    and "lapic_ID t = lapic_ID s"
    and "ncpu t = ncpu s"
    and "argp t = argp s"
    and "ram t = ram s"
    and "slocks t = slocks s"
    and "ticks t = ticks s"
    and "procs t = procs s"
    and "initproc t = initproc s"
    and "nextpid t = nextpid s"
    and "p_hist t = p_hist s"
    and "sems t = sems s"
    and "use_lock t = use_lock s"
    and "freelist t = freelist s"
    and "pipes t = pipes s"
    and "bcache t = bcache s"
    and "memdisk t = memdisk s"
    and "disksize t = disksize s"
    and "power t = power s"
    and "log t = log s"
    and "fsys t = fsys s"
    and "ide t = ide s"
    and "cons t = cons s"
    and "console_out t = console_out s"
    and "env t = env s"
  using arg_cong [OF assms, of eflags_IF] arg_cong [OF assms, of lapic_ID]
    arg_cong [OF assms, of ncpu] arg_cong [OF assms, of argp] arg_cong [OF assms, of ram]
    arg_cong [OF assms, of slocks] arg_cong [OF assms, of ticks] arg_cong [OF assms, of procs]
    arg_cong [OF assms, of initproc] arg_cong [OF assms, of nextpid]
    arg_cong [OF assms, of p_hist] arg_cong [OF assms, of sems] arg_cong [OF assms, of use_lock]
    arg_cong [OF assms, of freelist] arg_cong [OF assms, of pipes] arg_cong [OF assms, of bcache]
    arg_cong [OF assms, of memdisk] arg_cong [OF assms, of disksize]
    arg_cong [OF assms, of power] arg_cong [OF assms, of log] arg_cong [OF assms, of fsys]
    arg_cong [OF assms, of ide] arg_cong [OF assms, of cons] arg_cong [OF assms, of console_out]
    arg_cong [OF assms, of env]
  by simp_all

lemma ready_upd [simp]:
  "ready l (argp_update f_argp s) = ready l s"
  "ready l (ram_update f_ram s) = ready l s"
  "ready l (slocks_update f_slocks s) = ready l s"
  "ready l (ticks_update f_ticks s) = ready l s"
  "ready l (procs_update f_procs s) = ready l s"
  "ready l (initproc_update f_initproc s) = ready l s"
  "ready l (nextpid_update f_nextpid s) = ready l s"
  "ready l (p_hist_update f_p_hist s) = ready l s"
  "ready l (sems_update f_sems s) = ready l s"
  "ready l (use_lock_update f_use_lock s) = ready l s"
  "ready l (freelist_update f_freelist s) = ready l s"
  "ready l (pipes_update f_pipes s) = ready l s"
  "ready l (bcache_update f_bcache s) = ready l s"
  "ready l (memdisk_update f_memdisk s) = ready l s"
  "ready l (disksize_update f_disksize s) = ready l s"
  "ready l (power_update f_power s) = ready l s"
  "ready l (log_update f_log s) = ready l s"
  "ready l (fsys_update f_fsys s) = ready l s"
  "ready l (ide_update f_ide s) = ready l s"
  "ready l (cons_update f_cons s) = ready l s"
  "ready l (console_out_update f_console_out s) = ready l s"
  "ready l (env_update f_env s) = ready l s"
  by (simp_all add: ready_def cpu_wf_def free_def depth_def this_cpu_def cpu_index_def lapicid_def)

subsection \<open>The lock layer up to bookkeeping\<close>

definition curproc :: "kworld \<Rightarrow> nat option" where
  "curproc s = cpu_proc (cpus s ! this_cpu s)"

lemma core_cpu_index [simp]: "cpu_index (core s) = cpu_index s"
  using find_idx_map [of "\<lambda>c. ucast (apicid c) = lapicid s"
      "\<lambda>c. if ncli c = 0 then c\<lparr>intena := False\<rparr> else c" "take (ncpu s) (cpus s)"]
  by (auto simp: cpu_index_def core_def lapicid_def take_map intro!: find_idx_cong split: option.split)

lemma core_this_cpu [simp]: "this_cpu (core s) = this_cpu s"
  by (simp add: this_cpu_def)

lemma core_locks [simp]:
  "lk_locked (locks (core s) l) = lk_locked (locks s l)" "lk_cpu (locks (core s) l) = lk_cpu (locks s l)"
  "free l (core s) = free l s" "owns l (core s) = owns l s"
  by (simp_all add: free_def owns_def) (simp_all add: core_def)

lemma core_cpus [simp]:
  assumes "cpu_wf s"
  shows "depth (core s) = depth s" and "curproc (core s) = curproc s"
  using this_cpu_lt [OF assms] by (simp_all add: depth_def curproc_def) (simp_all add: core_def)

lemma core_cpu_wf [simp]: "cpu_wf (core s) = cpu_wf s"
proof (cases "cpu_index s")
  case (Some i)
  then have "this_cpu s < length (cpus s)" by (simp add: this_cpu_def cpu_index_lt)
  then have "depth (core s) = depth s" by (simp add: depth_def) (simp add: core_def)
  then show ?thesis by (simp add: cpu_wf_def)
qed (simp add: cpu_wf_def)

lemma core_eq_locks:
  assumes "core t = core s"
  shows "cpu_wf t = cpu_wf s" and "this_cpu t = this_cpu s" and "free l t = free l s"
    and "owns l t = owns l s" and "ready l t = ready l s"
    and "cpu_wf s \<Longrightarrow> depth t = depth s" and "cpu_wf s \<Longrightarrow> curproc t = curproc s"
proof -
  show wf: "cpu_wf t = cpu_wf s" "this_cpu t = this_cpu s" "free l t = free l s" "owns l t = owns l s"
    using core_cpu_wf [of t] core_cpu_wf [of s] core_this_cpu [of t] core_this_cpu [of s]
      core_locks(3,4) [of l t] core_locks(3,4) [of l s]
    by (simp_all only: assms)
  show "ready l t = ready l s"
    using wf core_locks(2) [of t l] core_locks(2) [of s l] by (simp add: ready_def assms)
  show "depth t = depth s" "curproc t = curproc s" if "cpu_wf s"
    using that wf(1) core_cpus [of t] core_cpus [of s] by (simp_all add: assms)
qed

lemma cpus_pushed: "cpus (pushed s) = upd (this_cpu s) (\<lambda>c. c\<lparr>intena := (if ncli c = 0 then eflags_IF s else intena c),
     ncli := ncli c + 1\<rparr>) (cpus s)"
  by (simp add: pushed_def)

lemma cpus_popped: "cpus (popped s) = upd (this_cpu s) (\<lambda>c. c\<lparr>ncli := ncli c - 1\<rparr>) (cpus s)"
  by (simp add: popped_def)

lemma cpus_core: "cpus (core s) = map (\<lambda>c. if ncli c = 0 then c\<lparr>intena := False\<rparr> else c) (cpus s)"
  by (simp add: core_def)

lemma locks_core: "locks (core s) = (\<lambda>l. (locks s l)\<lparr>lk_pcs := []\<rparr>)"
  by (simp add: core_def)

lemma core_push_pop:
  assumes "cpu_wf s"
  shows "core (popped (pushed s)) = core s"
proof -
  have lt: "this_cpu s < length (cpus s)" by (rule this_cpu_lt [OF assms])
  have "eflags_IF (popped (pushed s)) = eflags_IF s"
    using neutral_push_pop [OF assms] by (simp add: neutral_def)
  moreover have "cpus (core (popped (pushed s))) = cpus (core s)"
    using lt by (intro nth_equalityI) (auto simp: cpus_core cpus_popped cpus_pushed nth_upd)
  moreover have "locks (core (popped (pushed s))) = locks (core s)"
    by (simp add: locks_core)
  ultimately show ?thesis by (intro kworld.equality) simp_all
qed

lemma core_bracket:
  assumes "ready l s"
  shows "core (released l (acquired l s)) = core s"
proof -
  have wf: "cpu_wf s" and fr: "free l s" "lk_cpu (locks s l) = None"
    using assms by (auto simp: ready_def)
  have lt: "this_cpu s < length (cpus s)" by (rule this_cpu_lt [OF wf])
  have "eflags_IF (released l (acquired l s)) = eflags_IF s"
    using neutral_bracket [OF wf fr refl refl refl] by (simp add: neutral_def)
  moreover have "cpus (core (released l (acquired l s))) = cpus (core s)"
    using lt by (intro nth_equalityI)
      (auto simp: cpus_core cpus_released cpus_acquired nth_upd)
  moreover have "locks (core (released l (acquired l s))) = locks (core s)"
    using fr by (intro ext spinlock.equality) (auto simp: locks_core locks_released locks_acquired free_def)
  ultimately show ?thesis by (intro kworld.equality) simp_all
qed

text \<open>Taking and releasing a lock depend on the core only.\<close>

lemma cpus_core_eq:
  assumes "core t = core s" and "i < length (cpus s)"
  shows "ncli (cpus t ! i) = ncli (cpus s ! i)" and "cpu_proc (cpus t ! i) = cpu_proc (cpus s ! i)"
    and "apicid (cpus t ! i) = apicid (cpus s ! i)"
    and "ncli (cpus s ! i) \<noteq> 0 \<Longrightarrow> cpus t ! i = cpus s ! i"
    and "length (cpus t) = length (cpus s)"
proof -
  have c: "cpus (core t) = cpus (core s)" by (simp add: assms(1))
  then show len: "length (cpus t) = length (cpus s)" unfolding cpus_core by (rule map_eq_imp_length_eq)
  have "cpus (core t) ! i = cpus (core s) ! i" by (simp add: c)
  then have *: "(if ncli (cpus t ! i) = 0 then (cpus t ! i)\<lparr>intena := False\<rparr> else cpus t ! i)
      = (if ncli (cpus s ! i) = 0 then (cpus s ! i)\<lparr>intena := False\<rparr> else cpus s ! i)"
    using assms(2) len by (simp add: cpus_core)
  show n: "ncli (cpus t ! i) = ncli (cpus s ! i)"
    using arg_cong [OF *, of ncli] by (simp split: if_splits)
  show "cpu_proc (cpus t ! i) = cpu_proc (cpus s ! i)" "apicid (cpus t ! i) = apicid (cpus s ! i)"
    using arg_cong [OF *, of cpu_proc] arg_cong [OF *, of apicid] by (simp_all split: if_splits)
  show "cpus t ! i = cpus s ! i" if "ncli (cpus s ! i) \<noteq> 0" using * that n by simp
qed

lemma locks_core_eq:
  assumes "core t = core s"
  shows "(locks t k)\<lparr>lk_pcs := []\<rparr> = (locks s k)\<lparr>lk_pcs := []\<rparr>"
    and "lk_name (locks t k) = lk_name (locks s k)"
    and "lk_locked (locks t k) = lk_locked (locks s k)" and "lk_cpu (locks t k) = lk_cpu (locks s k)"
proof -
  show *: "(locks t k)\<lparr>lk_pcs := []\<rparr> = (locks s k)\<lparr>lk_pcs := []\<rparr>"
    using arg_cong [OF assms, of "\<lambda>u. locks u k"] by (simp add: locks_core)
  from arg_cong [OF *, of lk_name] arg_cong [OF *, of lk_locked] arg_cong [OF *, of lk_cpu]
  show "lk_name (locks t k) = lk_name (locks s k)" "lk_locked (locks t k) = lk_locked (locks s k)"
    "lk_cpu (locks t k) = lk_cpu (locks s k)" by simp_all
qed

lemma core_released_cong:
  assumes "core t = core s" and "cpu_wf s" and "0 < depth s"
  shows "core (released l t) = core (released l s)"
proof -
  have lt: "this_cpu s < length (cpus s)" by (rule this_cpu_lt [OF assms(2)])
  note cp = cpus_core_eq [OF assms(1)] and lk = core_eq_locks [OF assms(1)]
  have same: "cpus t ! this_cpu s = cpus s ! this_cpu s"
    using assms(3) lt by (intro cp(4)) (simp_all add: depth_def)
  have "eflags_IF (released l t) = eflags_IF (released l s)"
    using lk assms(2) same by simp
  moreover have "cpus (core (released l t)) = cpus (core (released l s))"
    using arg_cong [OF assms(1), of cpus] lk(2) same lt cp(5) [OF lt]
    by (auto simp: cpus_core cpus_released upd_def map_update list_eq_iff_nth_eq nth_list_update)
  moreover have "locks (core (released l t)) = locks (core (released l s))"
    by (intro ext spinlock.equality)
      (simp_all add: locks_core locks_released locks_core_eq [OF assms(1)])
  ultimately show ?thesis
    by (intro kworld.equality) (simp_all add: core_eq_data [OF assms(1)])
qed

lemma core_acquired_cong:
  assumes "core t = core s" and "cpu_wf s"
  shows "core (acquired l t) = core (acquired l s)"
proof -
  have lt: "this_cpu s < length (cpus s)" by (rule this_cpu_lt [OF assms(2)])
  note cp = cpus_core_eq [OF assms(1)] and lk = core_eq_locks [OF assms(1)]
  have same: "(cpus t ! this_cpu s)\<lparr>intena := b\<rparr> = (cpus s ! this_cpu s)\<lparr>intena := b\<rparr>" for b
    using cp [OF lt] by (simp add: cpu.equality)
  have pos: "ncli (cpus s ! this_cpu s) + 1 \<noteq> 0"
    using depth_nonneg [OF assms(2)] by (simp add: depth_def)
  have new: "(cpus t ! this_cpu s)\<lparr>intena := if ncli (cpus t ! this_cpu s) = 0 then eflags_IF t
        else intena (cpus t ! this_cpu s), ncli := ncli (cpus t ! this_cpu s) + 1\<rparr>
      = (cpus s ! this_cpu s)\<lparr>intena := if ncli (cpus s ! this_cpu s) = 0 then eflags_IF s
        else intena (cpus s ! this_cpu s), ncli := ncli (cpus s ! this_cpu s) + 1\<rparr>"
    using cp [OF lt] same core_eq_data(1) [OF assms(1)]
    by (cases "ncli (cpus s ! this_cpu s) = 0") (auto simp: cpu.equality)
  have "cpus (core (acquired l t)) = cpus (core (acquired l s))"
    using arg_cong [OF assms(1), of cpus] unfolding cpus_core cpus_acquired upd_def map_update lk(2) new
    by (simp only:)
  moreover have "locks (core (acquired l t)) = locks (core (acquired l s))"
    by (intro ext spinlock.equality)
      (simp_all add: locks_core locks_acquired locks_core_eq [OF assms(1)] lk(2))
  ultimately show ?thesis
    by (intro kworld.equality) (simp_all add: core_eq_data [OF assms(1)])
qed

lemma core_acquired_ram: "core (acquired l (ram_update f s)) = ram_update f (core (acquired l s))"
  by (simp add: core_def acquired_def pushed_def upd_lock_def fun_upd_def this_cpu_def cpu_index_def
      lapicid_def if_distrib cong: if_cong)

subsection \<open>Rules for programs\<close>

lemma wp_acquire_ready: "ready l s \<Longrightarrow> wp (acquire l) Q s \<longleftrightarrow> Q () (acquired l s)"
  by (simp add: ready_def wp_acquire)

lemma ready_cpu_wf: "ready l s \<Longrightarrow> cpu_wf s"
  by (simp add: ready_def)

lemma wp_acquire_core:
  assumes "core t = core s" and "ready l s" and "\<And>u. core u = core (acquired l s) \<Longrightarrow> Q () u"
  shows "wp (acquire l) Q t"
  using assms core_eq_locks(5) [OF assms(1)] core_acquired_cong [OF assms(1)]
  by (simp add: wp_acquire_ready ready_cpu_wf)

text \<open>Leaving the critical section: the core is the one of the data as changed inside.\<close>

lemma wp_release_core:
  assumes "core t = core (acquired l s)" and "ready l s" and "\<And>u. core u = core s \<Longrightarrow> Q () u"
  shows "wp (release l) Q t"
proof -
  have wf: "cpu_wf s" using assms(2) by (simp add: ready_def)
  note lk = core_eq_locks [OF assms(1)]
  have "cpu_wf t" "owns l t" "0 < depth t"
    using lk wf depth_pos [OF wf] by simp_all
  moreover have "core (released l t) = core s"
    using core_released_cong [OF assms(1)] core_bracket [OF assms(2)] wf depth_pos [OF wf] by simp
  ultimately show ?thesis using assms(3) by (simp add: wp_release)
qed

text \<open>A critical section whose body changes data: enter, run the body, leave.\<close>

lemma wp_section:
  assumes "ready l s" and "m (acquired l s) = Done r (acquired l s')" and "ready l s'"
    and "\<And>t. core t = core s' \<Longrightarrow> wp (k r) Q t"
  shows "wp (kseq (acquire l) (kbind m (\<lambda>r. kseq (release l) (k r)))) Q s"
  using assms by (auto simp: wp_acquire_ready wp_seq wp_bind wp_def [of m] intro: wp_release_core)

end
