(* ===== verification/Kalloc.thy ===== *)
theory Kalloc
  imports Critical
begin

unbundle bit_operations_syntax

section \<open>Physical page allocator (kalloc.c)\<close>

text \<open>
  Free pages form a linked list: \<open>kmem.freelist\<close> points to the first, and the first word of each
  free page (\<open>struct run\<close>) to the next.  The list lives in physical memory, so the model keeps it
  there: \<open>kfree\<close> fills the page with junk and stores a word, \<open>kalloc\<close> loads it back.  The linker
  symbol \<open>end\<close>, the first address after the kernel, is the argument \<open>kend\<close>.

  The abstract contract is the locale \<open>page_pool\<close>: the allocator owns a list of pages, freeing
  pushes one and allocating pops one.  \<open>kalloc\<close> and \<open>kfree\<close> interpret it.
\<close>

subsection \<open>Definitions\<close>

definition V2P :: "32 word \<Rightarrow> 32 word" where
  "V2P a = a - KERNBASE"

definition PGROUNDUP :: "32 word \<Rightarrow> 32 word" where
  "PGROUNDUP a = (a + PGSIZE - 1) AND NOT (PGSIZE - 1)"

definition kfree :: "32 word \<Rightarrow> 32 word \<Rightarrow> unit kern" where
  "kfree kend v =
     (if v mod PGSIZE \<noteq> 0 \<or> v < kend \<or> V2P v \<ge> PHYSTOP then kpanic ''kfree''
      else
      kseq (kmod (\<lambda>s. s\<lparr>ram := mem_set (ram s) v 1 PGSIZE\<rparr>)) (
      kbind (kget use_lock) (\<lambda>ul.
      kseq (kwhen ul (acquire KmemLock)) (
      kseq (kmod (\<lambda>s. s\<lparr>ram := store32 (ram s) v (freelist s)\<rparr>)) (
      kseq (kmod (\<lambda>s. s\<lparr>freelist := v\<rparr>)) (
      kbind (kget use_lock) (\<lambda>ul'.
      kwhen ul' (release KmemLock))))))))"

definition kalloc :: "32 word kern" where
  "kalloc =
     kbind (kget use_lock) (\<lambda>ul.
     kseq (kwhen ul (acquire KmemLock)) (
     kbind (kget freelist) (\<lambda>r.
     kseq (kwhen (r \<noteq> 0) (kmod (\<lambda>s. s\<lparr>freelist := load32 (ram s) r\<rparr>))) (
     kbind (kget use_lock) (\<lambda>ul'.
     kseq (kwhen ul' (release KmemLock)) (
     kret r))))))"

text \<open>
  The loop of \<open>freerange\<close> moves one page up per round.  The address space has \<open>2 ^ 20\<close> pages, so
  that many rounds are enough for it to leave the loop or to panic.
\<close>

fun freerange_loop :: "nat \<Rightarrow> 32 word \<Rightarrow> 32 word \<Rightarrow> 32 word \<Rightarrow> unit kern" where
  "freerange_loop 0 kend p vend = kblock"
| "freerange_loop (Suc fuel) kend p vend =
     (if p + PGSIZE \<le> vend then kseq (kfree kend p) (freerange_loop fuel kend (p + PGSIZE) vend)
      else kret ())"

definition freerange :: "32 word \<Rightarrow> 32 word \<Rightarrow> 32 word \<Rightarrow> unit kern" where
  "freerange kend vstart vend = freerange_loop (2 ^ 20 + 1) kend (PGROUNDUP vstart) vend"

definition kinit1 :: "32 word \<Rightarrow> 32 word \<Rightarrow> 32 word \<Rightarrow> unit kern" where
  "kinit1 kend vstart vend =
     kseq (initlock KmemLock ''kmem'') (
     kseq (kmod (\<lambda>s. s\<lparr>use_lock := False\<rparr>))
     (freerange kend vstart vend))"

definition kinit2 :: "32 word \<Rightarrow> 32 word \<Rightarrow> 32 word \<Rightarrow> unit kern" where
  "kinit2 kend vstart vend =
     kseq (freerange kend vstart vend)
     (kmod (\<lambda>s. s\<lparr>use_lock := True\<rparr>))"

subsection \<open>The free list in memory\<close>

definition is_page :: "32 word \<Rightarrow> 32 word \<Rightarrow> bool" where
  "is_page kend v \<longleftrightarrow> v mod PGSIZE = 0 \<and> \<not> v < kend \<and> V2P v < PHYSTOP"

fun chain :: "memory \<Rightarrow> 32 word \<Rightarrow> 32 word list \<Rightarrow> bool" where
  "chain m a [] = (a = 0)"
| "chain m a (p # ps) = (a = p \<and> p \<noteq> 0 \<and> chain m (load32 m p) ps)"

definition pool :: "32 word \<Rightarrow> 32 word list \<Rightarrow> kworld \<Rightarrow> bool" where
  "pool kend ps s \<longleftrightarrow> 0 < kend \<and> chain (ram s) (freelist s) ps \<and> distinct ps
     \<and> (\<forall>p \<in> set ps. is_page kend p)
     \<and> cpu_wf s \<and> (use_lock s \<longrightarrow> ready KmemLock s)"

text \<open>What the two operations do to the allocator's data.\<close>

definition kfreed :: "32 word \<Rightarrow> kworld \<Rightarrow> kworld" where
  "kfreed v s = s\<lparr>ram := store32 (mem_set (ram s) v 1 PGSIZE) v (freelist s), freelist := v\<rparr>"

definition kalloced :: "kworld \<Rightarrow> kworld" where
  "kalloced s = s\<lparr>freelist := (if freelist s = 0 then 0 else load32 (ram s) (freelist s))\<rparr>"

lemma page_dvd: "(a :: 32 word) mod 4096 = 0 \<longleftrightarrow> 4096 dvd unat a"
proof -
  have "a mod 4096 = 0 \<longleftrightarrow> unat (a mod 4096) = 0" by (simp add: unat_eq_0)
  then show ?thesis by (simp add: unat_mod dvd_eq_mod_eq_0)
qed

lemma page_diff:
  assumes "(a :: 32 word) mod 4096 = 0" and "b mod 4096 = 0"
  shows "(a - b) mod 4096 = 0"
proof -
  have a: "4096 dvd unat a" and b: "4096 dvd unat b"
    using assms by (simp_all add: page_dvd)
  have "4096 dvd unat a + 2 ^ 32" using a by (rule dvd_add) simp
  then have "4096 dvd unat (a - b)"
    using a b by (simp add: unat_sub_if_size word_size dvd_diff_nat)
  then show ?thesis by (simp add: page_dvd)
qed

lemma page_offset_far:
  assumes "(d :: 32 word) mod 4096 = 0" and "d \<noteq> 0" and "k < 4"
  shows "\<not> d + k < 4096"
proof -
  obtain q where q: "unat d = 4096 * q"
    using assms(1) by (auto simp: page_dvd)
  have "0 < q" using q assms(2) by (cases q) (auto simp: unat_eq_0)
  moreover have "4096 * q < 4096 * 2 ^ 20" using q unsigned_less [of d, where 'a = nat] by simp
  then have "q < 2 ^ 20" by (simp del: power_numeral)
  moreover have "unat k < 4" using assms(3) by unat_arith
  ultimately have "4096 \<le> unat d" "unat d + unat k < 2 ^ 32" using q by simp_all
  then show ?thesis
    by (simp add: word_less_nat_alt unat_word_ariths)
qed

lemma load32_other_page:
  assumes "a mod PGSIZE = 0" and "v mod PGSIZE = 0" and "a \<noteq> v"
    and "\<And>x. \<not> x - v < PGSIZE \<Longrightarrow> m' x = m x"
  shows "load32 m' a = load32 m a"
proof -
  have "m' (a + k) = m (a + k)" if "k < 4" for k
  proof -
    have "\<not> (a - v) + k < 4096"
      using assms(1-3) that by (intro page_offset_far page_diff) simp_all
    then show ?thesis using assms(4) [of "a + k"] by (simp add: algebra_simps)
  qed
  from this [of 0] this [of 1] this [of 2] this [of 3] show ?thesis
    by (simp add: load32_def)
qed

lemma chain_other_page:
  assumes "v mod PGSIZE = 0" and "\<And>x. \<not> x - v < PGSIZE \<Longrightarrow> m' x = m x"
    and "\<forall>p \<in> set ps. p mod PGSIZE = 0 \<and> p \<noteq> v"
  shows "chain m' a ps = chain m a ps"
  using assms(3) load32_other_page [OF _ assms(1) _ assms(2)]
  by (induction ps arbitrary: a) auto

text \<open>The bytes \<open>kfree\<close> writes are those of the freed page.\<close>

lemma fill_and_link_page:
  assumes "\<not> x - v < PGSIZE"
  shows "store32 (mem_set m v 1 PGSIZE) v w x = m x"
proof -
  have "x - v \<noteq> 0" "x - v \<noteq> 1" "x - v \<noteq> 2" "x - v \<noteq> 3" using assms by auto
  then show ?thesis using assms by (simp add: store32_other mem_set_def)
qed

lemma chain_push:
  assumes "chain m a ps" and "v mod PGSIZE = 0" and "v \<noteq> 0" and "v \<notin> set ps"
    and "\<forall>p \<in> set ps. p mod PGSIZE = 0"
  shows "chain (store32 (mem_set m v 1 PGSIZE) v a) v (v # ps)"
  using chain_other_page [of v "store32 (mem_set m v 1 PGSIZE) v a" m ps a] fill_and_link_page assms
  by auto

subsection \<open>Effect of the two operations\<close>

lemma freelist_same: "freelist s = v \<Longrightarrow> s\<lparr>freelist := v\<rparr> = s" for s :: kworld
  by (cases s) simp

lemma kfree_run:
  assumes "cpu_wf s" and "use_lock s \<Longrightarrow> ready KmemLock s" and "is_page kend v"
  shows "wp (kfree kend v) (\<lambda>_ t. core t = core (kfreed v s)) s"
proof -
  have v: "v mod PGSIZE = 0" "\<not> v < kend" "\<not> V2P v \<ge> PHYSTOP"
    using assms(3) by (auto simp: is_page_def not_le)
  let ?s1 = "s\<lparr>ram := mem_set (ram s) v 1 PGSIZE\<rparr>"
  let ?b = "(acquired KmemLock ?s1)
    \<lparr>ram := store32 (mem_set (ram s) v 1 PGSIZE) v (freelist s), freelist := v\<rparr>"
  show ?thesis
  proof (cases "use_lock s")
    case True
    have "core ?b = core (acquired KmemLock (kfreed v s))"
      by (simp add: core_upd core_acquired_ram acquired_upd [symmetric] kfreed_def)
    then have "wp (release KmemLock) (\<lambda>_ t. core t = core (kfreed v s)) ?b"
      using assms(2) [OF True] by (intro wp_release_core) (simp_all add: kfreed_def)
    then show ?thesis
      using v True assms(2) [OF True] by (simp add: kfree_def wp_simps wp_acquire_ready)
  qed (use v in \<open>simp add: kfree_def wp_simps kfreed_def\<close>)
qed

lemma kalloc_run:
  assumes "cpu_wf s" and "use_lock s \<Longrightarrow> ready KmemLock s"
  shows "wp kalloc (\<lambda>r t. r = freelist s \<and> core t = core (kalloced s)) s"
proof (cases "use_lock s")
  case True
  let ?b = "acquired KmemLock (kalloced s)"
  have "wp (release KmemLock) (\<lambda>_ t. core t = core (kalloced s)) ?b"
    using assms(2) [OF True] by (intro wp_release_core) (simp_all add: kalloced_def)
  moreover have "(acquired KmemLock s)\<lparr>freelist := load32 (ram s) (freelist s)\<rparr> = ?b" if "freelist s \<noteq> 0"
    using that by (simp add: crit_simps kalloced_def)
  moreover have "kalloced s = s" if "freelist s = 0"
    using that by (simp add: kalloced_def freelist_same)
  moreover have "use_lock (kalloced s) = use_lock s" by (simp add: kalloced_def)
  ultimately show ?thesis
    using True assms(2) [OF True]
    by (cases "freelist s = 0") (auto simp: kalloc_def wp_simps wp_acquire_ready)
next
  case False
  then show ?thesis by (auto simp: kalloc_def wp_simps kalloced_def freelist_same)
qed

lemma pool_core: "core t = core s \<Longrightarrow> pool kend ps t = pool kend ps s"
  by (simp add: pool_def core_eq_data [of t s] core_eq_locks [of t s])

lemma pool_kfreed:
  assumes "pool kend ps s" and "is_page kend v" and "v \<notin> set ps"
  shows "pool kend (v # ps) (kfreed v s)"
proof -
  have "v \<noteq> 0" using assms(1,2) by (auto simp: pool_def is_page_def)
  then have "chain (ram (kfreed v s)) v (v # ps)"
    using assms unfolding kfreed_def
    by simp (rule chain_push [of _ _ _ v, simplified], auto simp: pool_def is_page_def)
  then show ?thesis using assms by (simp add: pool_def kfreed_def)
qed

lemma pool_kalloced:
  assumes "pool kend ps s"
  shows "pool kend (tl ps) (kalloced s)" and "freelist s = (case ps of [] \<Rightarrow> 0 | p # _ \<Rightarrow> p)"
  using assms by (cases ps; auto simp: pool_def kalloced_def)+

lemma kfree_spec:
  assumes "pool kend ps s" and "is_page kend v" and "v \<notin> set ps"
  shows "wp (kfree kend v) (\<lambda>_ t. pool kend (v # ps) t \<and> core t = core (kfreed v s)) s"
  using kfree_run [of s kend v] pool_kfreed [OF assms] assms(1,2)
  by (auto simp: pool_def [of kend ps] elim!: wp_conseq dest: pool_core)

lemma kalloc_spec:
  assumes "pool kend ps s"
  shows "wp kalloc (\<lambda>r t. r = (case ps of [] \<Rightarrow> 0 | p # _ \<Rightarrow> p) \<and> pool kend (tl ps) t
    \<and> core t = core (kalloced s)) s"
  using kalloc_run [of s] pool_kalloced [OF assms] assms
  by (auto simp: pool_def [of kend ps] elim!: wp_conseq dest: pool_core)

text \<open>Only the free list and the memory changed.\<close>

definition kmem_only :: "kworld \<Rightarrow> kworld \<Rightarrow> bool" where
  "kmem_only s t \<longleftrightarrow> core t = core (s\<lparr>ram := ram t, freelist := freelist t\<rparr>)"

lemma kmem_only_kfreed: "core t = core (kfreed v s) \<Longrightarrow> kmem_only s t"
  using core_eq_data(5,14) [of t "kfreed v s"] by (simp add: kmem_only_def kfreed_def)

lemma kmem_only_trans:
  assumes "kmem_only s t" and "kmem_only t u"
  shows "kmem_only s u"
proof -
  have "core u = (core t)\<lparr>ram := ram u, freelist := freelist u\<rparr>"
    using assms(2) unfolding kmem_only_def core_upd .
  also have "\<dots> = (core s)\<lparr>ram := ram u, freelist := freelist u\<rparr>"
    using assms(1) unfolding kmem_only_def core_upd by (rule ssubst) simp
  finally show ?thesis unfolding kmem_only_def core_upd .
qed

lemma kmem_only_ready: "kmem_only s t \<Longrightarrow> ready l t = ready l s"
  unfolding kmem_only_def by (drule core_eq_locks(5) [where l = l]) simp

subsection \<open>Filling the pool at boot\<close>

lemma and_not_mask_word: "(x :: 32 word) AND NOT (mask n) = x - take_bit n x"
proof -
  have "x = (x AND NOT (mask n)) + take_bit n x"
    by (subst disjunctive_add) (auto simp: bit_eq_iff bit_simps)
  then show ?thesis by (simp add: algebra_simps)
qed

lemma unat_PGROUNDUP:
  assumes "unat a \<le> 2 ^ 32 - 4096"
  shows "unat (PGROUNDUP a) = (unat a + 4095) div 4096 * 4096"
proof -
  let ?x = "a + 4095"
  have x: "unat ?x = unat a + 4095" using assms by (simp add: unat_word_ariths)
  have "PGROUNDUP a = ?x AND NOT (mask 12)"
    by (simp add: PGROUNDUP_def mask_eq_exp_minus_1 algebra_simps)
  also have "\<dots> = ?x - ?x mod 4096"
    by (simp add: and_not_mask_word take_bit_eq_mod)
  finally have "unat (PGROUNDUP a) = unat ?x - unat ?x mod 4096"
    by (simp add: unat_sub_if_size unat_mod)
  then show ?thesis using x by (simp add: minus_mod_eq_div_mult)
qed
definition pages_between :: "32 word \<Rightarrow> 32 word \<Rightarrow> 32 word list" where
  "pages_between p vend =
     map (\<lambda>i. p + of_nat i * PGSIZE) [0 ..< (unat vend - unat p) div 4096]"

lemma pages_between_step:
  assumes "unat p + 4096 \<le> unat vend"
  shows "pages_between p vend = p # pages_between (p + PGSIZE) vend"
proof -
  have u: "unat (p + 4096) = unat p + 4096"
    using assms unsigned_less [of vend, where 'a = nat] by (simp add: unat_word_ariths)
  have "(unat vend - unat p) div 4096 = Suc ((unat vend - unat (p + 4096)) div 4096)"
    using assms by (simp only: u le_div_geq diff_diff_left)
  then show ?thesis
    by (simp add: pages_between_def upt_conv_Cons map_Suc_upt [symmetric] o_def algebra_simps
        del: upt_Suc)
qed

lemma pages_between_stop: "unat vend < unat p + 4096 \<Longrightarrow> pages_between p vend = []"
  by (simp add: pages_between_def)

lemma is_page_range:
  assumes "p mod PGSIZE = 0" and "kend \<le> p" and "KERNBASE \<le> kend" and "unat p < 0x8E000000"
  shows "is_page kend p"
proof -
  have k: "KERNBASE \<le> p" using assms(2,3) by (rule order_trans [rotated])
  then have "unat (p - KERNBASE) = unat p - 0x80000000"
    by (simp add: unat_sub word_le_nat_alt)
  then show ?thesis using assms k
    by (simp add: is_page_def V2P_def word_le_nat_alt word_less_nat_alt)
qed

lemma freerange_loop_spec:
  assumes "(unat vend - unat p) div 4096 < fuel" and "p mod PGSIZE = 0" and "kend \<le> p"
    and "KERNBASE \<le> kend" and "unat p \<le> 0x8E000000" and "unat vend \<le> 0x8E000000"
    and "pool kend ps s" and "\<forall>q \<in> set ps. unat q < unat p \<or> unat vend \<le> unat q"
  shows "wp (freerange_loop fuel kend p vend)
    (\<lambda>_ t. pool kend (rev (pages_between p vend) @ ps) t \<and> kmem_only s t) s"
  using assms
proof (induction fuel arbitrary: p ps s)
  case 0
  then show ?case by simp
next
  case (Suc fuel)
  have u: "unat (p + 4096) = unat p + 4096" using Suc.prems(5) by (simp add: unat_word_ariths)
  show ?case
  proof (cases "p + PGSIZE \<le> vend")
    case True
    then have le: "unat p + 4096 \<le> unat vend" by (simp add: word_le_nat_alt u)
    have page: "is_page kend p"
      using Suc.prems(2-6) le by (intro is_page_range) simp_all
    have new: "p \<notin> set ps" using Suc.prems(8) le by force
    have next_page: "(p + PGSIZE) mod PGSIZE = 0"
      using Suc.prems(2) u by (simp add: page_dvd)
    have le': "kend \<le> p + PGSIZE" using Suc.prems(3) u by (simp add: word_le_nat_alt)
    have fu: "(unat vend - unat (p + PGSIZE)) div 4096 < fuel"
      using Suc.prems(1) le_div_geq [of 4096 "unat vend - unat p"] le by (simp add: u)
    have "wp (kfree kend p) (\<lambda>_ t. pool kend (p # ps) t \<and> kmem_only s t) s"
      using kfree_spec [OF Suc.prems(7) page new] by (rule wp_conseq) (auto intro: kmem_only_kfreed)
    then obtain t where t: "kfree kend p s = Done () t" "pool kend (p # ps) t" "kmem_only s t" by (auto elim: wpE)
    have "wp (freerange_loop fuel kend (p + PGSIZE) vend)
      (\<lambda>_ t'. pool kend (rev (pages_between (p + PGSIZE) vend) @ p # ps) t'
        \<and> kmem_only t t') t"
    proof (intro Suc.IH fu next_page le' Suc.prems(4,6) t(2))
      show "unat (p + PGSIZE) \<le> 0x8E000000" using le Suc.prems(6) by (simp add: u)
      show "\<forall>q \<in> set (p # ps). unat q < unat (p + PGSIZE) \<or> unat vend \<le> unat q"
        using Suc.prems(8) by (auto simp: u)
    qed
    then show ?thesis
      using True t(1) pages_between_step [OF le] kmem_only_trans [OF t(3)]
      by (auto simp: wp_simps intro: wpI elim!: wpE)
  next
    case False
    then have "unat vend < unat p + 4096" by (simp add: word_le_nat_alt u not_le)
    then show ?thesis using False Suc.prems(7)
      by (simp add: wp_simps pages_between_stop kmem_only_def)
  qed
qed

lemma mult_page:
  fixes p v :: "32 word"
  assumes "4096 dvd unat v" and "p \<le> v" and "4096 dvd unat p"
  shows "v = p + of_nat ((unat v - unat p) div 4096) * PGSIZE"
proof -
  have "4096 dvd unat v - unat p" using assms(1,3) by (rule dvd_diff_nat)
  then obtain k where k: "unat v - unat p = 4096 * k" by (elim dvdE)
  have "unat (v - p) = 4096 * k" using assms(2) k by (simp add: unat_sub)
  then have "of_nat (unat (v - p)) = (of_nat (4096 * k) :: 32 word)" by (simp only:)
  then have "v - p = 4096 * of_nat k" by simp
  then have v: "v = p + 4096 * of_nat k" by (simp add: diff_eq_eq add.commute)
  have "(unat v - unat p) div 4096 = k" by (simp add: k)
  then show ?thesis by (simp only: v [symmetric] mult.commute [of _ PGSIZE])
qed

lemma set_pages_between:
  assumes "p mod PGSIZE = 0"
  shows "v \<in> set (pages_between p vend)
    \<longleftrightarrow> v mod PGSIZE = 0 \<and> p \<le> v \<and> unat v + 4096 \<le> unat vend"
proof
  assume "v \<in> set (pages_between p vend)"
  then obtain i where i: "v = p + of_nat i * 4096" "i < (unat vend - unat p) div 4096"
    by (auto simp: pages_between_def)
  then have le: "unat p + 4096 * i + 4096 \<le> unat vend"
    by (simp add: less_eq_div_iff_mult_less_eq Suc_le_eq [symmetric])
  then have "unat v = unat p + i * 4096"
    using i(1) unsigned_less [of vend, where 'a = nat]
    by (simp add: unat_word_ariths unat_of_nat)
  then show "v mod PGSIZE = 0 \<and> p \<le> v \<and> unat v + 4096 \<le> unat vend"
    using assms le by (simp add: page_dvd word_le_nat_alt)
next
  assume v: "v mod PGSIZE = 0 \<and> p \<le> v \<and> unat v + 4096 \<le> unat vend"
  let ?i = "(unat v - unat p) div 4096"
  have "v = p + of_nat ?i * PGSIZE" using v assms by (intro mult_page) (simp_all add: page_dvd)
  moreover have "?i < (unat vend - unat p) div 4096"
  proof -
    have "unat v - unat p + 4096 \<le> unat vend - unat p" using v by (auto simp: word_le_nat_alt)
    then have "(unat v - unat p + 4096) div 4096 \<le> (unat vend - unat p) div 4096"
      by (rule div_le_mono)
    then show ?thesis by simp
  qed
  ultimately show "v \<in> set (pages_between p vend)" by (auto simp: pages_between_def)
qed

lemma freerange_spec:
  assumes "KERNBASE \<le> kend" and "kend \<le> vstart" and "vstart \<le> vend"
    and "unat vend \<le> 0x8E000000" and "pool kend ps s"
    and "\<forall>q \<in> set ps. unat q < unat vstart"
  shows "wp (freerange kend vstart vend)
    (\<lambda>_ t. pool kend (rev (pages_between (PGROUNDUP vstart) vend) @ ps) t
      \<and> kmem_only s t) s"
proof -
  have v: "unat vstart \<le> 0x8E000000" using assms(3,4) by (simp add: word_le_nat_alt)
  have r: "unat (PGROUNDUP vstart) = (unat vstart + 4095) div 4096 * 4096"
    using v by (intro unat_PGROUNDUP) simp
  have "(unat vstart + 4095) mod 4096 \<le> 4095" by (rule less_Suc_eq_le [THEN iffD1]) simp
  then have up1: "unat vstart \<le> unat (PGROUNDUP vstart)"
    unfolding r by (simp add: minus_mod_eq_div_mult [symmetric])
  have "(unat vstart + 4095) div 4096 \<le> (0x8E000000 + 4095) div 4096"
    using v by (intro div_le_mono) simp
  then have up2: "unat (PGROUNDUP vstart) \<le> 0x8E000000" unfolding r by simp
  have "(unat vend - unat (PGROUNDUP vstart)) div 4096 \<le> unat vend div 4096"
    by (intro div_le_mono) simp
  also have "\<dots> \<le> 0x8E000000 div 4096" using assms(4) by (rule div_le_mono)
  finally have fu: "(unat vend - unat (PGROUNDUP vstart)) div 4096 < 2 ^ 20 + 1" by simp
  show ?thesis unfolding freerange_def
  proof (rule freerange_loop_spec [OF fu _ _ assms(1) up2 assms(4,5)])
    show "PGROUNDUP vstart mod PGSIZE = 0" by (simp add: page_dvd r)
    show "kend \<le> PGROUNDUP vstart" using assms(2) up1 by (simp add: word_le_nat_alt)
    show "\<forall>q \<in> set ps. unat q < unat (PGROUNDUP vstart) \<or> unat vend \<le> unat q"
      using assms(6) up1 by fastforce
  qed
qed

text \<open>Rounding up, for the addresses the kernel uses.\<close>

lemma PGROUNDUP_least:
  assumes "unat k \<le> 0x8E000000"
  shows "PGROUNDUP k mod PGSIZE = 0"
    and "v mod PGSIZE = 0 \<Longrightarrow> PGROUNDUP k \<le> v \<longleftrightarrow> k \<le> v"
proof -
  have r: "unat (PGROUNDUP k) = (unat k + 4095) div 4096 * 4096"
    using assms by (intro unat_PGROUNDUP) simp
  then show "PGROUNDUP k mod PGSIZE = 0" by (simp add: page_dvd)
  assume "v mod PGSIZE = 0"
  then obtain j where j: "unat v = 4096 * j" by (auto simp: page_dvd)
  have "(unat k + 4095) div 4096 * 4096 \<le> 4096 * j \<longleftrightarrow> (unat k + 4095) div 4096 < j + 1" by auto
  also have "\<dots> \<longleftrightarrow> unat k \<le> 4096 * j" by (subst div_less_iff_less_mult) auto
  finally show "PGROUNDUP k \<le> v \<longleftrightarrow> k \<le> v" by (simp add: word_le_nat_alt r j)
qed

text \<open>A page lies below a page boundary or above it.\<close>

lemma page_cases:
  assumes "v mod PGSIZE = 0" and "m mod PGSIZE = 0"
  shows "unat v + 4096 \<le> unat m \<or> m \<le> v"
proof -
  obtain i j where "unat v = 4096 * i" "unat m = 4096 * j"
    using assms unfolding page_dvd by (elim dvdE)
  then show ?thesis by (cases "i < j") (auto simp: word_le_nat_alt)
qed

lemma kinit1_spec:
  assumes "KERNBASE \<le> kend" and "kend \<le> m" and "unat m \<le> 0x8E000000"
    and "cpu_wf s" and "freelist s = 0"
  shows "wp (kinit1 kend kend m)
    (\<lambda>_ t. pool kend (rev (pages_between (PGROUNDUP kend) m)) t \<and> ready KmemLock t) s"
proof -
  let ?k = "\<lambda>k. k\<lparr>lk_name := ''kmem'', lk_locked := False, lk_cpu := None\<rparr>"
  let ?u = "(upd_lock KmemLock ?k s)\<lparr>use_lock := False\<rparr>"
  have "0 < kend" using assms(1) by (cases "kend = 0") (auto simp: word_neq_0_conv)
  have ready: "ready KmemLock ?u"
    using assms(4) by (simp add: ready_def free_def) (simp add: upd_lock_def)
  from \<open>0 < kend\<close> have "pool kend [] ?u"
    using assms(4,5) by (simp add: pool_def) (simp add: upd_lock_def)
  then have "wp (freerange kend kend m)
    (\<lambda>_ t. pool kend (rev (pages_between (PGROUNDUP kend) m) @ []) t
      \<and> kmem_only ?u t) ?u"
    using assms by (intro freerange_spec) simp_all
  then have "wp (freerange kend kend m)
    (\<lambda>_ t. pool kend (rev (pages_between (PGROUNDUP kend) m)) t \<and> ready KmemLock t) ?u"
    using ready by (auto elim!: wp_conseq simp: kmem_only_ready)
  then show ?thesis by (simp add: kinit1_def initlock_def wp_simps)
qed

lemma kinit2_spec:
  assumes "KERNBASE \<le> kend" and "kend \<le> m" and "m \<le> vtop" and "unat vtop \<le> 0x8E000000"
    and "pool kend ps s" and "\<forall>q \<in> set ps. unat q < unat m"
    and "ready KmemLock s"
  shows "wp (kinit2 kend m vtop)
    (\<lambda>_ t. pool kend (rev (pages_between (PGROUNDUP m) vtop) @ ps) t \<and> use_lock t) s"
proof -
  have "wp (freerange kend m vtop)
    (\<lambda>_ t. pool kend (rev (pages_between (PGROUNDUP m) vtop) @ ps) t
      \<and> kmem_only s t) s"
    using assms by (intro freerange_spec) simp_all
  then show ?thesis using assms(7)
    by (auto simp: kinit2_def wp_simps pool_def kmem_only_ready elim!: wp_conseq)
qed

subsection \<open>The contract of a page allocator\<close>

text \<open>
  A client allocates pages and frees pages it was given.  It is written against the three
  operations an allocator offers; its state is the list of pages it holds.
\<close>

datatype pool_op = PAlloc | PFree nat

fun pool_run :: "('s, 'p) prog \<Rightarrow> ('p \<Rightarrow> ('s, unit) prog) \<Rightarrow> 'p \<Rightarrow> pool_op list \<Rightarrow> 'p list
    \<Rightarrow> ('s, 'p list) prog" where
  "pool_run al fr nul [] held = kret held"
| "pool_run al fr nul (PAlloc # ops) held =
     kbind al (\<lambda>r. pool_run al fr nul ops (if r = nul then held else r # held))"
| "pool_run al fr nul (PFree i # ops) held =
     (if i < length held
      then kseq (fr (held ! i)) (pool_run al fr nul ops (take i held @ drop (Suc i) held))
      else pool_run al fr nul ops held)"

locale page_pool =
  fixes al :: "('s, 'p) prog" and fr :: "'p \<Rightarrow> ('s, unit) prog" and nul :: 'p
    and pages :: "'p list \<Rightarrow> 's \<Rightarrow> bool" and valid :: "'p \<Rightarrow> bool"
  assumes alloc_law: "pages ps s
      \<Longrightarrow> wp al (\<lambda>r t. r = (case ps of [] \<Rightarrow> nul | p # _ \<Rightarrow> p) \<and> pages (tl ps) t) s"
    and free_law: "pages ps s \<Longrightarrow> valid v \<Longrightarrow> v \<notin> set ps \<Longrightarrow> wp (fr v) (\<lambda>_ t. pages (v # ps) t) s"
    and pages_law: "pages ps s \<Longrightarrow> distinct ps \<and> (\<forall>p \<in> set ps. valid p \<and> p \<noteq> nul)"
begin

lemma run_conserves:
  assumes "pages ps s" and "distinct (held @ ps)" and "\<forall>p \<in> set held. valid p"
  shows "wp (pool_run al fr nul ops held)
    (\<lambda>held' t. \<exists>ps'. pages ps' t \<and> distinct (held' @ ps') \<and> set held' \<union> set ps' = set held \<union> set ps) s"
  using assms
proof (induction ops arbitrary: held ps s)
  case Nil
  then show ?case by (auto simp: wp_simps)
next
  case (Cons op ops)
  show ?case
  proof (cases op)
    case PAlloc
    obtain r t where r: "al s = Done r t" "r = (case ps of [] \<Rightarrow> nul | p # _ \<Rightarrow> p)" "pages (tl ps) t"
      using alloc_law [OF Cons.prems(1)] by (auto elim: wpE)
    let ?h = "if r = nul then held else r # held"
    have h: "distinct (?h @ tl ps)" "\<forall>p \<in> set ?h. valid p" "set ?h \<union> set (tl ps) = set held \<union> set ps"
      using r(2) Cons.prems pages_law [OF Cons.prems(1)] by (cases ps; auto)+
    show ?thesis using Cons.IH [OF r(3) h(1,2)] r(1) h(3) by (simp add: PAlloc wp_simps wp_def)
  next
    case (PFree i)
    show ?thesis
    proof (cases "i < length held")
      case True
      let ?h = "take i held @ drop (Suc i) held"
      have split: "held = take i held @ held ! i # drop (Suc i) held"
        using True by (rule id_take_nth_drop)
      then have m: "set held = insert (held ! i) (set ?h)" by (metis list.simps(15) set_append Un_insert_right)
      have d: "distinct (?h @ held ! i # ps)" using Cons.prems(2) by (subst (asm) split) auto
      have "valid (held ! i)" "held ! i \<notin> set ps" using Cons.prems(2,3) nth_mem [OF True] by auto
      then obtain t where t: "fr (held ! i) s = Done () t" "pages (held ! i # ps) t"
        by (rule wpE [OF free_law [OF Cons.prems(1)]]) simp
      have v: "\<forall>p \<in> set ?h. valid p" using Cons.prems(3) m by auto
      show ?thesis using Cons.IH [OF t(2) d v] True t(1) m by (simp add: PFree wp_simps wp_def)
    next
      case False
      then show ?thesis using Cons.IH [OF Cons.prems] by (simp add: PFree)
    qed
  qed
qed

end

interpretation kp: page_pool kalloc "kfree kend" 0 "pool kend" "is_page kend" for kend
proof
  fix ps s assume p: "pool kend ps s"
  show "wp kalloc (\<lambda>r t. r = (case ps of [] \<Rightarrow> 0 | p # _ \<Rightarrow> p) \<and> pool kend (tl ps) t) s"
    using kalloc_spec [OF p] by (rule wp_conseq) simp
  show "wp (kfree kend v) (\<lambda>_ t. pool kend (v # ps) t) s" if "is_page kend v" "v \<notin> set ps" for v
    using kfree_spec [OF p that] by (rule wp_conseq) simp
  show "distinct ps \<and> (\<forall>p \<in> set ps. is_page kend p \<and> p \<noteq> 0)"
    using p by (auto simp: pool_def is_page_def)
qed

subsection \<open>Properties\<close>

text \<open>
  C5. No page is handed out twice and none is lost: over any sequence of allocations and frees,
  the pages the client holds and the pages on the free list stay distinct and together are the same
  pages as at the start, and no operation panics or blocks.
\<close>

theorem kalloc_kfree_conserve:
  assumes "pool kend ps s" and "distinct (held @ ps)" and "\<forall>p \<in> set held. is_page kend p"
  shows "wp (pool_run kalloc (kfree kend) 0 ops held)
    (\<lambda>held' t. \<exists>ps'. pool kend ps' t \<and> distinct (held' @ ps') \<and> set held' \<union> set ps' = set held \<union> set ps) s"
  using assms by (rule kp.run_conserves)

theorem kalloc_kfree_conserve_witness:
  "wp (pool_run kalloc (kfree 0x80100000) 0 [PAlloc, PFree 0, PAlloc] [0x80200000])
    (\<lambda>held' t. \<exists>ps'. pool 0x80100000 ps' t \<and> distinct (held' @ ps')
      \<and> set held' \<union> set ps' = {0x80200000}) bss"
  using kalloc_kfree_conserve [of "0x80100000" "[]" bss "[0x80200000]" "[PAlloc, PFree 0, PAlloc]"]
  by (simp add: pool_def is_page_def V2P_def)

text \<open>
  C14. Boot: after \<open>kinit1\<close> and \<open>kinit2\<close> the free list holds every whole page between the end of
  the kernel and the top of memory, each exactly once, and nothing else, and the allocator locks
  from then on.  Both loops end.
\<close>

theorem kinit_frees_all_memory:
  assumes "KERNBASE \<le> kend" and "kend \<le> m" and "m \<le> vtop" and "unat vtop \<le> 0x8E000000"
    and "m mod PGSIZE = 0" and "cpu_wf s" and "freelist s = 0"
  shows "wp (kseq (kinit1 kend kend m) (kinit2 kend m vtop))
    (\<lambda>_ t. \<exists>ps. pool kend ps t \<and> use_lock t
      \<and> (\<forall>v. v \<in> set ps \<longleftrightarrow> v mod PGSIZE = 0 \<and> kend \<le> v \<and> unat v + 4096 \<le> unat vtop)) s"
proof -
  let ?p1 = "rev (pages_between (PGROUNDUP kend) m)" and ?p2 = "rev (pages_between (PGROUNDUP m) vtop)"
  have le: "unat m \<le> 0x8E000000" "unat kend \<le> unat m" using assms(2-4) by (simp_all add: word_le_nat_alt)
  have "unat kend \<le> 0x8E000000" using le by simp
  note k = PGROUNDUP_least [OF this] and m = PGROUNDUP_least [OF le(1)]
  have s1: "v \<in> set ?p1 \<longleftrightarrow> v mod PGSIZE = 0 \<and> kend \<le> v \<and> unat v + 4096 \<le> unat m" for v
    by (simp add: set_pages_between k cong: conj_cong)
  have s2: "v \<in> set ?p2 \<longleftrightarrow> v mod PGSIZE = 0 \<and> m \<le> v \<and> unat v + 4096 \<le> unat vtop" for v
    by (simp add: set_pages_between m cong: conj_cong)
  have below: "\<forall>q \<in> set ?p1. unat q < unat m" using s1 by fastforce
  obtain t where t: "kinit1 kend kend m s = Done () t" "pool kend ?p1 t" "ready KmemLock t"
    using kinit1_spec [OF assms(1,2) le(1) assms(6,7)] by (auto elim: wpE)
  have "wp (kinit2 kend m vtop) (\<lambda>_ t. pool kend (?p2 @ ?p1) t \<and> use_lock t) t"
    by (rule kinit2_spec [OF assms(1-4) t(2) below t(3)])
  then have "wp (kinit2 kend m vtop) (\<lambda>_ t. \<exists>ps. pool kend ps t \<and> use_lock t
      \<and> (\<forall>v. v \<in> set ps \<longleftrightarrow> v mod PGSIZE = 0 \<and> kend \<le> v \<and> unat v + 4096 \<le> unat vtop)) t"
  proof (rule wp_conseq)
    fix u assume u: "pool kend (?p2 @ ?p1) u \<and> use_lock u"
    have "v \<in> set (?p2 @ ?p1) \<longleftrightarrow> v mod PGSIZE = 0 \<and> kend \<le> v \<and> unat v + 4096 \<le> unat vtop" for v
      unfolding set_append Un_iff s1 s2 using page_cases [OF _ assms(5), of v] assms(2,3)
      by (cases "v mod PGSIZE = 0") (auto simp: word_le_nat_alt)
    with u show "\<exists>ps. pool kend ps u \<and> use_lock u
      \<and> (\<forall>v. v \<in> set ps \<longleftrightarrow> v mod PGSIZE = 0 \<and> kend \<le> v \<and> unat v + 4096 \<le> unat vtop)" by blast
  qed
  then show ?thesis using t(1) by (simp add: wp_simps wp_def)
qed

theorem kinit_frees_all_memory_witness:
  "wp (kseq (kinit1 0x80115000 0x80115000 0x80400000) (kinit2 0x80115000 0x80400000 0x8E000000))
    (\<lambda>_ t. \<exists>ps. pool 0x80115000 ps t \<and> use_lock t
      \<and> (\<forall>v. v \<in> set ps \<longleftrightarrow> v mod PGSIZE = 0 \<and> 0x80115000 \<le> v \<and> unat v + 4096 \<le> unat (0x8E000000 :: 32 word)))
    bss"
  by (rule kinit_frees_all_memory) simp_all

text \<open>
  A page just freed is the next one allocated, the free list is as before, and every lock and
  the interrupt flag are as the caller had them; an address that is not a page the allocator may
  own is refused with a panic, whatever the state.
\<close>

theorem kfree_kalloc_roundtrip:
  assumes "pool kend ps s" and "v \<notin> set ps"
  shows "if is_page kend v
    then wp (kseq (kfree kend v) kalloc) (\<lambda>r t. r = v \<and> pool kend ps t \<and> core t = core (s\<lparr>ram := ram t\<rparr>)) s
    else kfree kend v s = Panic ''kfree''"
proof (cases "is_page kend v")
  case True
  obtain t where t: "kfree kend v s = Done () t" "pool kend (v # ps) t" "core t = core (kfreed v s)"
    using kfree_spec [OF assms(1) True assms(2)] by (auto elim: wpE)
  have "v \<noteq> 0" using t(2) by (simp add: pool_def)
  have "core (kalloced t) = core (kalloced (kfreed v s))"
    using t(3) by (simp add: kalloced_def crit_simps core_eq_data [OF t(3)])
  also have "kalloced (kfreed v s) = s\<lparr>ram := ram (kfreed v s)\<rparr>"
    using \<open>v \<noteq> 0\<close> by (simp add: kalloced_def kfreed_def freelist_same)
  finally have "core u = core (s\<lparr>ram := ram u\<rparr>)" if "core u = core (kalloced t)" for u
    using that core_eq_data(5) [of u "s\<lparr>ram := ram (kfreed v s)\<rparr>"] by simp
  then have "wp kalloc (\<lambda>r u. r = v \<and> pool kend ps u \<and> core u = core (s\<lparr>ram := ram u\<rparr>)) t"
    using kalloc_spec [OF t(2)] by (auto elim!: wp_conseq)
  then show ?thesis using True t(1) by (simp add: wp_seq wpI)
next
  case False
  then show ?thesis by (auto simp: kfree_def is_page_def)
qed

theorem kfree_kalloc_roundtrip_witness:
  "wp (kseq (kfree 0x80100000 0x80200000) kalloc)
    (\<lambda>r t. r = 0x80200000 \<and> pool 0x80100000 [] t
      \<and> core t = core (bss\<lparr>ram := ram t\<rparr>)) bss
   \<and> kfree 0x80100000 0x80200004 bss = Panic ''kfree''"
  using kfree_kalloc_roundtrip [of "0x80100000" "[]" bss "0x80200000"]
    kfree_kalloc_roundtrip [of "0x80100000" "[]" bss "0x80200004"]
  by (simp add: pool_def is_page_def V2P_def)

end
