(* ===== verification/Waiting.thy ===== *)
theory Waiting
  imports Critical
begin

section \<open>Waiting uses up the environment\<close>

text \<open>
  A loop that sleeps or spins runs until the others change something.  Every round takes one entry
  of \<open>env\<close>, so its length bounds the number of rounds and is the measure by which such loops are
  shown to end: in a return, or blocked for ever.  \<open>env_le m\<close> says that \<open>m\<close> never gives entries
  back, \<open>env_lt m\<close> that it takes one.
\<close>

definition env_le :: "'a kern \<Rightarrow> bool" where
  "env_le m \<longleftrightarrow> (\<forall>s x t. m s = Done x t \<longrightarrow> length (env t) \<le> length (env s))"

definition env_lt :: "'a kern \<Rightarrow> bool" where
  "env_lt m \<longleftrightarrow> (\<forall>s x t. m s = Done x t \<longrightarrow> length (env t) < length (env s))"

named_theorems env_intros "operations that do not give environment entries back"

lemma env_lt_le: "env_lt m \<Longrightarrow> env_le m"
  by (auto simp: env_lt_def env_le_def intro: less_imp_le)

lemma env_ltD: "env_lt m \<Longrightarrow> m s = Done x t \<Longrightarrow> length (env t) < length (env s)"
  by (simp add: env_lt_def)

lemma env_leD: "env_le m \<Longrightarrow> m s = Done x t \<Longrightarrow> length (env t) \<le> length (env s)"
  by (simp add: env_le_def)

lemma env_le_basic [env_intros]:
  "env_le (kret x)" "env_le (kget g)" "env_le (kpanic e)" "env_le kfault" "env_le kblock"
  by (simp_all add: env_le_def)

lemma env_le_kmod [env_intros]: "(\<And>s. env (f s) = env s) \<Longrightarrow> env_le (kmod f)"
  by (simp add: env_le_def)

lemma env_le_bind [env_intros]: "env_le m \<Longrightarrow> (\<And>x. env_le (f x)) \<Longrightarrow> env_le (kbind m f)"
  unfolding env_le_def kbind_eq_Done by (metis order_trans)

lemma env_le_seq [env_intros]: "env_le m \<Longrightarrow> env_le n \<Longrightarrow> env_le (kseq m n)"
  unfolding kseq_def by (rule env_le_bind)

lemma env_lt_bind1: "env_lt m \<Longrightarrow> (\<And>x. env_le (f x)) \<Longrightarrow> env_lt (kbind m f)"
  unfolding env_le_def env_lt_def kbind_eq_Done by (metis le_less_trans)

lemma env_lt_bind2: "env_le m \<Longrightarrow> (\<And>x. env_lt (f x)) \<Longrightarrow> env_lt (kbind m f)"
  unfolding env_le_def env_lt_def kbind_eq_Done by (metis less_le_trans)

lemma env_lt_seq1: "env_lt m \<Longrightarrow> env_le n \<Longrightarrow> env_lt (kseq m n)"
  unfolding kseq_def by (rule env_lt_bind1)

lemma env_lt_seq2: "env_le m \<Longrightarrow> env_lt n \<Longrightarrow> env_lt (kseq m n)"
  unfolding kseq_def by (rule env_lt_bind2)

lemma env_le_if [env_intros]: "env_le m \<Longrightarrow> env_le n \<Longrightarrow> env_le (if b then m else n)"
  by simp

lemma env_lt_if: "env_lt m \<Longrightarrow> env_lt n \<Longrightarrow> env_lt (if b then m else n)"
  by simp

lemma env_lt_stuck: "env_lt (kpanic e)" "env_lt kfault" "env_lt kblock"
  by (simp_all add: env_lt_def)

lemma env_le_when [env_intros]: "env_le m \<Longrightarrow> env_le (kwhen b m)"
  by (simp add: kwhen_def env_le_basic)

lemma env_le_for [env_intros]: "(\<And>i. env_le (body i)) \<Longrightarrow> env_le (kfor is body)"
  by (induction "is") (auto intro: env_intros)

lemma env_le_case_option [env_intros]:
  "env_le m \<Longrightarrow> (\<And>x. env_le (f x)) \<Longrightarrow> env_le (case r of None \<Rightarrow> m | Some x \<Rightarrow> f x)"
  by (cases r) auto

lemma env_lt_others_run: "env_lt others_run"
  by (auto simp: env_lt_def others_run_def split: list.splits)

subsection \<open>The lock operations\<close>

lemma env_le_mycpu [env_intros]: "env_le mycpu"
  unfolding mycpu_def by (auto intro!: env_intros split: option.split)

lemma env_upd [simp]:
  "env (upd_lock l f s) = env s" "env (upd_slock k g s) = env s"
  by (simp_all add: upd_lock_def upd_slock_def)

lemma env_le_cli_sti [env_intros]:
  "env_le cli" "env_le sti" "env_le pushcli" "env_le popcli" "env_le (holding l)" "env_le (initlock l n)"
  unfolding cli_def sti_def pushcli_def popcli_def holding_def initlock_def
  by (auto intro!: env_intros simp: upd_cpu_def)

lemma env_le_xchg_spin [env_intros]: "env_le (xchg_spin l)"
proof -
  have "xchg_spin l s = Done x t \<Longrightarrow> length (env t) \<le> length (env s)" for s x t
  proof (induction l s rule: xchg_spin.induct)
    case (1 l s)
    then show ?case
      by (subst (asm) (2) xchg_spin.simps) (fastforce split: if_splits list.splits)
  qed
  then show ?thesis by (simp add: env_le_def)
qed

lemma env_le_acquire [env_intros]: "env_le (acquire l)"
  unfolding acquire_def by (auto intro!: env_intros)

lemma env_le_release [env_intros]: "env_le (release l)"
  unfolding release_def by (auto intro!: env_intros)

end
