(* ===== verification/Proc.thy ===== *)
theory Proc
  imports Kalloc Waiting
begin

section \<open>Processes: the process table, sleeping and waking (proc.c)\<close>

text \<open>
  Process \<open>&ptable.proc[i]\<close> is the index \<open>i\<close>.  The loops of proc.c that search the table for the
  first entry with some property are \<open>find_idx\<close>; the loops that visit every entry are \<open>kfor\<close>.
  \<open>swtch\<close> gives the processor to the scheduler and returns when some scheduler resumes this
  process, perhaps on another processor; what happens in between is up to the others, so it is
  \<open>others_run\<close>.  The kernel's symbols that other files define are the record \<open>ksyms\<close>.
\<close>

record ksyms =
  k_end :: "32 word"
  k_trapret :: "32 word"
  k_forkret :: "32 word"
  k_tfsize :: "32 word"

subsection \<open>Definitions\<close>

definition pinit :: "unit kern" where
  "pinit = initlock PtableLock ''ptable''"

definition myproc :: "nat option kern" where
  "myproc =
     kseq pushcli (
     kbind mycpu (\<lambda>c.
     kbind (kget (\<lambda>s. cpu_proc (cpus s ! c))) (\<lambda>p.
     kseq popcli (
     kret p))))"

text \<open>Using a process pointer; a null one faults.\<close>

definition deref :: "'p option \<Rightarrow> ('p \<Rightarrow> 'a kern) \<Rightarrow> 'a kern" where
  "deref p f = (case p of None \<Rightarrow> kfault | Some i \<Rightarrow> f i)"

definition wakeup1 :: "chan option \<Rightarrow> unit kern" where
  "wakeup1 ch = kfor [0 ..< NPROC] (\<lambda>i. kmod (\<lambda>s.
     if pstate (procs s ! i) = SLEEPING \<and> pchan (procs s ! i) = ch
     then upd_proc i (\<lambda>p. p\<lparr>pstate := RUNNABLE\<rparr>) s else s))"

definition wakeup :: "chan option \<Rightarrow> unit kern" where
  "wakeup ch = kseq (acquire PtableLock) (kseq (wakeup1 ch) (release PtableLock))"

definition wakeupproc :: "nat option \<Rightarrow> unit kern" where
  "wakeupproc p =
     kseq (acquire PtableLock) (
     kseq (deref p (\<lambda>i. kmod (upd_proc i (\<lambda>q. q\<lparr>pstate := RUNNABLE\<rparr>)))) (
     release PtableLock))"

definition swtch :: "unit kern" where
  "swtch = others_run"

definition sched :: "unit kern" where
  "sched =
     kbind myproc (\<lambda>p.
     kbind (holding PtableLock) (\<lambda>h.
     if \<not> h then kpanic ''sched ptable.lock''
     else kbind mycpu (\<lambda>c. kbind (kget (\<lambda>s. ncli (cpus s ! c))) (\<lambda>n.
     if n \<noteq> 1 then kpanic ''sched locks''
     else deref p (\<lambda>i. kbind (kget (\<lambda>s. pstate (procs s ! i))) (\<lambda>st.
     if st = RUNNING then kpanic ''sched running''
     else kbind (kget eflags_IF) (\<lambda>fl.
     if fl then kpanic ''sched interruptible''
     else kbind mycpu (\<lambda>c. kbind (kget (\<lambda>s. intena (cpus s ! c))) (\<lambda>ie.
     kseq swtch (
     kbind mycpu (\<lambda>c'. kmod (upd_cpu c' (\<lambda>k. k\<lparr>intena := ie\<rparr>)))))))))))))"

definition yield :: "unit kern" where
  "yield =
     kseq (acquire PtableLock) (
     kseq (kbind myproc (\<lambda>p. deref p (\<lambda>i. kmod (upd_proc i (\<lambda>q. q\<lparr>pstate := RUNNABLE\<rparr>))))) (
     kseq sched (
     release PtableLock)))"

definition sleep :: "chan option \<Rightarrow> lockid option \<Rightarrow> unit kern" where
  "sleep ch lk =
     kbind myproc (\<lambda>p.
     case p of None \<Rightarrow> kpanic ''sleep'' | Some i \<Rightarrow>
     case lk of None \<Rightarrow> kpanic ''sleep without lk'' | Some l \<Rightarrow>
     kseq (kwhen (l \<noteq> PtableLock) (kseq (acquire PtableLock) (release l))) (
     kseq (kmod (upd_proc i (\<lambda>q. q\<lparr>pchan := ch\<rparr>))) (
     kseq (kmod (upd_proc i (\<lambda>q. q\<lparr>pstate := SLEEPING\<rparr>))) (
     kseq sched (
     kseq (kmod (upd_proc i (\<lambda>q. q\<lparr>pchan := None\<rparr>)))
     (kwhen (l \<noteq> PtableLock) (kseq (release PtableLock) (acquire l))))))))"

definition find_pid :: "int \<Rightarrow> nat option kern" where
  "find_pid n = kget (\<lambda>s. find_idx (\<lambda>p. pid p = n) (procs s))"

definition kill :: "int \<Rightarrow> int kern" where
  "kill n =
     kseq (acquire PtableLock) (
     kbind (find_pid n) (\<lambda>r.
     case r of
       Some i \<Rightarrow>
         kseq (kmod (upd_proc i (\<lambda>p. p\<lparr>killed := True\<rparr>))) (
         kseq (kmod (\<lambda>s. if pstate (procs s ! i) = SLEEPING
                          then upd_proc i (\<lambda>p. p\<lparr>pstate := RUNNABLE\<rparr>) s else s)) (
         kseq (release PtableLock) (
         kret 0)))
     | None \<Rightarrow> kseq (release PtableLock) (kret (- 1))))"

definition change_queue :: "int \<Rightarrow> int \<Rightarrow> int kern" where
  "change_queue n new =
     (if new = UNSET \<and> n < 1 then kret (- 1)
      else
      let q = (if new = UNSET then (if n = 1 then ROUND_ROBIN else LCFS) else new) in
      kseq (acquire PtableLock) (
      kbind (find_pid n) (\<lambda>r.
      kbind (case r of
          None \<Rightarrow> kret (- 1)
        | Some i \<Rightarrow>
            kbind (kget (\<lambda>s. queue_id (schedule_status (procs s ! i)))) (\<lambda>old.
            kseq (kmod (upd_proc i (upd_sched (\<lambda>c. c\<lparr>queue_id := q\<rparr>)))) (kret old)))
        (\<lambda>old.
      kseq (release PtableLock) (
      kret old)))))"

definition set_bjf_params :: "f32 \<Rightarrow> f32 \<Rightarrow> f32 \<Rightarrow> proc \<Rightarrow> proc" where
  "set_bjf_params pr ar er = upd_sched (\<lambda>c. c\<lparr>priority_ratio := pr, arrival_time_ratio := ar,
     executed_cycle_ratio := er\<rparr>)"

definition set_bjf_params_process :: "int \<Rightarrow> f32 \<Rightarrow> f32 \<Rightarrow> f32 \<Rightarrow> int kern" where
  "set_bjf_params_process n pr ar er =
     kseq (acquire PtableLock) (
     kbind (find_pid n) (\<lambda>r.
     case r of
       Some i \<Rightarrow> kseq (kmod (upd_proc i (set_bjf_params pr ar er))) (
                 kseq (release PtableLock) (kret 0))
     | None \<Rightarrow> kseq (release PtableLock) (kret (- 1))))"

definition set_bjf_params_system :: "f32 \<Rightarrow> f32 \<Rightarrow> f32 \<Rightarrow> unit kern" where
  "set_bjf_params_system pr ar er =
     kseq (acquire PtableLock) (
     kseq (kfor [0 ..< NPROC] (\<lambda>i. kmod (upd_proc i (set_bjf_params pr ar er)))) (
     release PtableLock))"

definition set_bjf_priority :: "int \<Rightarrow> int \<Rightarrow> int kern" where
  "set_bjf_priority n prio =
     kseq (acquire PtableLock) (
     kbind (find_pid n) (\<lambda>r.
     case r of
       Some i \<Rightarrow> kseq (kmod (upd_proc i (upd_sched (\<lambda>c. c\<lparr>priority := prio\<rparr>)))) (
                 kseq (release PtableLock) (kret 0))
     | None \<Rightarrow> kseq (release PtableLock) (kret (- 1))))"

definition ageprocs :: "int \<Rightarrow> unit kern" where
  "ageprocs osTicks =
     kseq (acquire PtableLock) (
     kseq (kfor [0 ..< NPROC] (\<lambda>i.
       kbind (kget (\<lambda>s. procs s ! i)) (\<lambda>p.
       kwhen (pstate p = RUNNABLE \<and> queue_id (schedule_status p) \<noteq> ROUND_ROBIN
              \<and> osTicks - last_run (schedule_status p) > AGING_THRESHOLD) (
         kseq (release PtableLock) (
         kseq (kbind (kget (\<lambda>s. pid (procs s ! i))) (\<lambda>n. change_queue n ROUND_ROBIN)) (
         acquire PtableLock)))))) (
     release PtableLock))"

text \<open>\<open>1.0f\<close>\<close>

definition f32_one :: f32 where
  "f32_one = 0x3F800000"

text \<open>The second half of \<open>allocproc\<close>, once the entry is claimed: its kernel stack.\<close>

definition allocproc_stack :: "ksyms \<Rightarrow> nat \<Rightarrow> 32 word \<Rightarrow> nat option kern" where
  "allocproc_stack ks i k =
     kseq (kmod (upd_proc i (\<lambda>p. p\<lparr>kstack := k\<rparr>))) (
     if k = 0 then
       kseq (kmod (upd_proc i (\<lambda>p. p\<lparr>pstate := UNUSED\<rparr>))) (
       kret None)
     else
       let sp = k + KSTACKSIZE - k_tfsize ks; cx = sp - 4 - 20 in
       kseq (kmod (upd_proc i (\<lambda>p. p\<lparr>tf := sp\<rparr>))) (
       kseq (kmod (\<lambda>s. s\<lparr>ram := store32 (ram s) (sp - 4) (k_trapret ks)\<rparr>)) (
       kseq (kmod (upd_proc i (\<lambda>p. p\<lparr>context_ptr := cx\<rparr>))) (
       kseq (kmod (\<lambda>s. s\<lparr>ram := mem_set (ram s) cx 0 20\<rparr>)) (
       kseq (kmod (\<lambda>s. s\<lparr>ram := store32 (ram s) (cx + 16) (k_forkret ks)\<rparr>)) (
       kseq (kmod (upd_proc i (upd_sched (\<lambda>c. zero_sched\<lparr>queue_id := UNSET,
         priority := BJF_PRIORITY_DEF, priority_ratio := f32_one, arrival_time_ratio := f32_one,
         executed_cycle_ratio := f32_one\<rparr>)))) (
       kret (Some i))))))))"

definition allocproc :: "ksyms \<Rightarrow> nat option kern" where
  "allocproc ks =
     kseq (acquire PtableLock) (
     kbind (kget (\<lambda>s. find_idx (\<lambda>p. pstate p = UNUSED) (procs s))) (\<lambda>r.
     case r of
       None \<Rightarrow> kseq (release PtableLock) (kret None)
     | Some i \<Rightarrow>
       kseq (kmod (upd_proc i (\<lambda>p. p\<lparr>pstate := EMBRYO\<rparr>))) (
       kseq (kmod (\<lambda>s. upd_proc i (\<lambda>p. p\<lparr>pid := nextpid s\<rparr>) (s\<lparr>nextpid := nextpid s + 1\<rparr>))) (
       kseq (release PtableLock) (
       kbind kalloc (allocproc_stack ks i))))))"

subsection \<open>The process table up to locks\<close>

lemma upd_proc_acquired [crit_simps]: "upd_proc i f (acquired l s) = acquired l (upd_proc i f s)"
  by (simp add: upd_proc_def acquired_upd)

lemma upd_proc_core [crit_simps]: "core (upd_proc i f s) = upd_proc i f (core s)"
  by (simp add: upd_proc_def core_upd)

lemma upd_proc_upd: "upd_proc i f (upd_proc i g s) = upd_proc i (\<lambda>p. f (g p)) s"
  by (simp add: upd_proc_def)

lemma ready_upd_proc [simp]: "ready l (upd_proc i f s) = ready l s"
  by (simp add: upd_proc_def)

lemma upd_proc_commute:
  "upd_proc i f (argp_update f_argp s) = argp_update f_argp (upd_proc i f s)"
  "upd_proc i f (ram_update f_ram s) = ram_update f_ram (upd_proc i f s)"
  "upd_proc i f (slocks_update f_slocks s) = slocks_update f_slocks (upd_proc i f s)"
  "upd_proc i f (ticks_update f_ticks s) = ticks_update f_ticks (upd_proc i f s)"
  "upd_proc i f (initproc_update f_initproc s) = initproc_update f_initproc (upd_proc i f s)"
  "upd_proc i f (nextpid_update f_nextpid s) = nextpid_update f_nextpid (upd_proc i f s)"
  "upd_proc i f (p_hist_update f_p_hist s) = p_hist_update f_p_hist (upd_proc i f s)"
  "upd_proc i f (sems_update f_sems s) = sems_update f_sems (upd_proc i f s)"
  "upd_proc i f (use_lock_update f_use_lock s) = use_lock_update f_use_lock (upd_proc i f s)"
  "upd_proc i f (freelist_update f_freelist s) = freelist_update f_freelist (upd_proc i f s)"
  "upd_proc i f (pipes_update f_pipes s) = pipes_update f_pipes (upd_proc i f s)"
  "upd_proc i f (bcache_update f_bcache s) = bcache_update f_bcache (upd_proc i f s)"
  "upd_proc i f (memdisk_update f_memdisk s) = memdisk_update f_memdisk (upd_proc i f s)"
  "upd_proc i f (disksize_update f_disksize s) = disksize_update f_disksize (upd_proc i f s)"
  "upd_proc i f (power_update f_power s) = power_update f_power (upd_proc i f s)"
  "upd_proc i f (log_update f_log s) = log_update f_log (upd_proc i f s)"
  "upd_proc i f (fsys_update f_fsys s) = fsys_update f_fsys (upd_proc i f s)"
  "upd_proc i f (ide_update f_ide s) = ide_update f_ide (upd_proc i f s)"
  "upd_proc i f (cons_update f_cons s) = cons_update f_cons (upd_proc i f s)"
  "upd_proc i f (console_out_update f_console_out s) = console_out_update f_console_out (upd_proc i f s)"
  "upd_proc i f (env_update f_env s) = env_update f_env (upd_proc i f s)"
  by (rule kworld.equality; simp add: upd_proc_def)+

lemma myproc_run: "cpu_wf s \<Longrightarrow> myproc s = Done (curproc s) (popped (pushed s))"
proof -
  assume wf: "cpu_wf s"
  have "mycpu (pushed s) = Done (this_cpu s) (pushed s)" using mycpu_run [of "pushed s"] wf by simp
  moreover have "cpu_proc (cpus (pushed s) ! this_cpu s) = curproc s"
    using this_cpu_lt [OF wf] by (simp add: cpus_pushed curproc_def)
  moreover have "popcli (pushed s) = Done () (popped (pushed s))"
    using wf depth_nonneg [OF wf] by (intro popcli_run) simp_all
  ultimately show ?thesis by (simp add: myproc_def pushcli_run [OF wf] run_app)
qed

lemma wp_myproc:
  assumes "cpu_wf s" and "\<And>t. core t = core s \<Longrightarrow> Q (curproc s) t"
  shows "wp myproc Q s"
  using assms by (auto intro!: wpI [OF myproc_run] core_push_pop)

lemma wp_section_unit:
  assumes "ready l s" and "m (acquired l s) = Done r (acquired l s')" and "ready l s'"
    and "\<And>t. core t = core s' \<Longrightarrow> Q () t"
  shows "wp (kseq (acquire l) (kseq m (release l))) Q s"
  using assms by (auto simp: wp_acquire_ready wp_seq wp_def [of m] intro: wp_release_core)

lemma upd_prefix:
  assumes "n < length xs"
  shows "upd n g (map g (take n xs) @ drop n xs) = map g (take (Suc n) xs) @ drop (Suc n) xs"
proof -
  have "upd n g (map g (take n xs) @ xs ! n # drop (Suc n) xs)
      = (map g (take n xs) @ [g (xs ! n)]) @ drop (Suc n) xs"
    using assms by (simp add: upd_def list_update_append nth_append)
  then show ?thesis using assms by (simp add: Cons_nth_drop_Suc take_Suc_conv_app_nth)
qed

lemma kfor_table:
  assumes "n \<le> length (procs s)"
  shows "kfor [0 ..< n] (\<lambda>i. kmod (upd_proc i g)) s
    = Done () (s\<lparr>procs := map g (take n (procs s)) @ drop n (procs s)\<rparr>)"
  using assms
proof (induction n)
  case 0
  then show ?case by simp
next
  case (Suc n)
  have n: "n < length (procs s)" using Suc.prems by simp
  then show ?case using Suc by (simp add: kfor_append upd_proc_def upd_prefix)
qed

definition woken :: "chan option \<Rightarrow> proc \<Rightarrow> proc" where
  "woken ch p = (if pstate p = SLEEPING \<and> pchan p = ch then p\<lparr>pstate := RUNNABLE\<rparr> else p)"

lemma upd_proc_if:
  "(if c (procs s ! i) then upd_proc i f s else s) = upd_proc i (\<lambda>p. if c p then f p else p) s"
  by (cases "i < length (procs s)") (auto simp: upd_proc_def upd_def list_update_beyond)

lemma wakeup1_run:
  assumes "length (procs s) = NPROC"
  shows "wakeup1 ch s = Done () (s\<lparr>procs := map (woken ch) (procs s)\<rparr>)"
proof -
  have "wakeup1 ch = kfor [0 ..< NPROC] (\<lambda>i. kmod (upd_proc i (woken ch)))"
    unfolding wakeup1_def woken_def
    by (simp only: upd_proc_if [where c = "\<lambda>p. pstate p = SLEEPING \<and> pchan p = ch"])
  then show ?thesis using assms by (simp add: kfor_table)
qed

lemma wakeup_run:
  assumes "ready PtableLock s" and "length (procs s) = NPROC"
  shows "wp (wakeup ch) (\<lambda>_ t. core t = core (s\<lparr>procs := map (woken ch) (procs s)\<rparr>)) s"
  unfolding wakeup_def
  by (rule wp_section_unit [OF assms(1), where s' = "s\<lparr>procs := map (woken ch) (procs s)\<rparr>"])
     (use assms in \<open>simp_all add: wakeup1_run crit_simps\<close>)

subsection \<open>Operations on the process with a given pid\<close>

declare find_idx_None [simp del]

abbreviation pid_slot :: "int \<Rightarrow> kworld \<Rightarrow> nat option" where
  "pid_slot n s \<equiv> find_idx (\<lambda>p. pid p = n) (procs s)"

lemma find_pid_run [simp]: "find_pid n s = Done (pid_slot n s) s"
  by (simp add: find_pid_def)

lemma wp_find_pid [wp_simps]: "wp (find_pid n) Q s \<longleftrightarrow> Q (pid_slot n s) s"
  by (simp add: wp_def)

lemma wp_pid_op:
  assumes "ready PtableLock s"
  shows "wp (kseq (acquire PtableLock) (kbind (find_pid n) (\<lambda>r. case r of
      Some i \<Rightarrow> kseq (kmod (upd_proc i f)) (kseq (release PtableLock) (kret a))
    | None \<Rightarrow> kseq (release PtableLock) (kret b))))
    (\<lambda>r t. case pid_slot n s of
       None \<Rightarrow> r = b \<and> core t = core s
     | Some i \<Rightarrow> r = a \<and> core t = core (upd_proc i f s)) s"
  using assms
  by (cases "pid_slot n s") (auto simp: wp_simps wp_acquire_ready crit_simps intro!: wp_release_core)

definition set_killed :: "proc \<Rightarrow> proc" where
  "set_killed p = p\<lparr>killed := True, pstate := (if pstate p = SLEEPING then RUNNABLE else pstate p)\<rparr>"

lemma kill_run:
  assumes "ready PtableLock s"
  shows "wp (kill n) (\<lambda>r t. case pid_slot n s of
       None \<Rightarrow> r = - 1 \<and> core t = core s
     | Some i \<Rightarrow> r = 0 \<and> core t = core (upd_proc i set_killed s)) s"
proof -
  have "(\<lambda>p. if pstate p = SLEEPING then p\<lparr>pstate := RUNNABLE\<rparr> else p) (p\<lparr>killed := True\<rparr>)
      = set_killed p" for p
    by (simp add: set_killed_def)
  then have two: "upd_proc i (\<lambda>p. if pstate p = SLEEPING then p\<lparr>pstate := RUNNABLE\<rparr> else p)
      (upd_proc i (\<lambda>p. p\<lparr>killed := True\<rparr>) u) = upd_proc i set_killed u" for i u
    by (simp add: upd_proc_upd)
  show ?thesis
    using assms unfolding kill_def upd_proc_if [where c = "\<lambda>p. pstate p = SLEEPING"]
    by (cases "pid_slot n s")
       (auto simp: wp_simps wp_acquire_ready two crit_simps intro!: wp_release_core)
qed

lemma change_queue_run:
  assumes "ready PtableLock s" and "new = UNSET \<Longrightarrow> 1 \<le> n"
  shows "wp (change_queue n new) (\<lambda>r t. case pid_slot n s of
       None \<Rightarrow> r = - 1 \<and> core t = core s
     | Some i \<Rightarrow> r = queue_id (schedule_status (procs s ! i))
         \<and> core t = core (upd_proc i (upd_sched (\<lambda>c. c\<lparr>queue_id :=
             (if new = UNSET then if n = 1 then ROUND_ROBIN else LCFS else new)\<rparr>)) s)) s"
  using assms
  by (cases "pid_slot n s")
     (auto simp: change_queue_def Let_def wp_simps wp_acquire_ready crit_simps intro!: wp_release_core)

lemma set_bjf_params_system_run:
  assumes "ready PtableLock s" and "length (procs s) = NPROC"
  shows "wp (set_bjf_params_system pr ar er)
    (\<lambda>_ t. core t = core (s\<lparr>procs := map (set_bjf_params pr ar er) (procs s)\<rparr>)) s"
  unfolding set_bjf_params_system_def
  by (rule wp_section_unit [OF assms(1), where s' = "s\<lparr>procs := map (set_bjf_params pr ar er) (procs s)\<rparr>"])
     (use assms in \<open>simp_all add: kfor_table crit_simps\<close>)

subsection \<open>The process table's invariant\<close>

text \<open>
  Process numbers in use are unique.  A free entry keeps its last number until \<open>wait\<close> clears it, so
  the statement is about every entry, the free ones included.
\<close>

definition ptable_ok :: "kworld \<Rightarrow> bool" where
  "ptable_ok s \<longleftrightarrow> length (procs s) = NPROC \<and> 0 < nextpid s
     \<and> (\<forall>p \<in> set (procs s). 0 \<le> pid p \<and> pid p < nextpid s \<and> (pstate p \<noteq> UNUSED \<longrightarrow> pid p \<noteq> 0))
     \<and> (\<forall>i < NPROC. \<forall>j < NPROC. pid (procs s ! i) = pid (procs s ! j) \<and> pid (procs s ! i) \<noteq> 0 \<longrightarrow> i = j)"

lemma ptable_ok_core: "core t = core s \<Longrightarrow> ptable_ok t = ptable_ok s"
  by (simp add: ptable_ok_def core_eq_data [of t s])

lemma ptable_ok_length: "ptable_ok s \<Longrightarrow> length (procs s) = NPROC"
  by (simp add: ptable_ok_def)

lemma ptable_okD:
  assumes "ptable_ok s" and "i < NPROC"
  shows "0 \<le> pid (procs s ! i)" and "pid (procs s ! i) < nextpid s"
    and "pstate (procs s ! i) \<noteq> UNUSED \<Longrightarrow> pid (procs s ! i) \<noteq> 0"
    and "j < NPROC \<Longrightarrow> pid (procs s ! i) = pid (procs s ! j) \<Longrightarrow> pid (procs s ! i) \<noteq> 0 \<Longrightarrow> i = j"
proof -
  have "procs s ! i \<in> set (procs s)" using assms by (simp add: ptable_ok_def)
  then show "0 \<le> pid (procs s ! i)" "pid (procs s ! i) < nextpid s"
    "pstate (procs s ! i) \<noteq> UNUSED \<Longrightarrow> pid (procs s ! i) \<noteq> 0"
    using assms(1) by (simp_all add: ptable_ok_def)
  show "j < NPROC \<Longrightarrow> pid (procs s ! i) = pid (procs s ! j) \<Longrightarrow> pid (procs s ! i) \<noteq> 0 \<Longrightarrow> i = j"
    using assms unfolding ptable_ok_def by blast
qed

lemma ptable_okI:
  assumes "length (procs s) = NPROC" and "0 < nextpid s"
    and "\<And>i. i < NPROC \<Longrightarrow> 0 \<le> pid (procs s ! i) \<and> pid (procs s ! i) < nextpid s
      \<and> (pstate (procs s ! i) \<noteq> UNUSED \<longrightarrow> pid (procs s ! i) \<noteq> 0)"
    and "\<And>i j. i < NPROC \<Longrightarrow> j < NPROC \<Longrightarrow> pid (procs s ! i) = pid (procs s ! j)
      \<Longrightarrow> pid (procs s ! i) \<noteq> 0 \<Longrightarrow> i = j"
  shows "ptable_ok s"
proof -
  have "0 \<le> pid p \<and> pid p < nextpid s \<and> (pstate p \<noteq> UNUSED \<longrightarrow> pid p \<noteq> 0)" if "p \<in> set (procs s)" for p
    using that assms(1,3) by (metis in_set_conv_nth)
  then show ?thesis using assms(1,2,4) by (simp add: ptable_ok_def)
qed

lemma pid_slot_own:
  assumes "ptable_ok s" and "i < NPROC" and "pid (procs s ! i) \<noteq> 0"
  shows "pid_slot (pid (procs s ! i)) s = Some i"
proof -
  have "pid (procs s ! j) \<noteq> pid (procs s ! i)" if "j < i" for j
    using that ptable_okD(4) [OF assms(1,2), of j] assms(2,3) by auto
  then show ?thesis using assms by (simp add: find_idx_Some ptable_ok_def)
qed

text \<open>Changing entries without touching numbers, and never taking a free entry into use.\<close>

lemma ptable_ok_procs:
  assumes "ptable_ok s" and "length ps = NPROC"
    and "\<And>j. j < NPROC \<Longrightarrow> pid (ps ! j) = pid (procs s ! j)"
    and "\<And>j. j < NPROC \<Longrightarrow> pstate (procs s ! j) = UNUSED \<Longrightarrow> pstate (ps ! j) = UNUSED"
  shows "ptable_ok (s\<lparr>procs := ps\<rparr>)"
proof (rule ptable_okI)
  fix i assume i: "i < NPROC"
  show "0 \<le> pid (procs (s\<lparr>procs := ps\<rparr>) ! i) \<and> pid (procs (s\<lparr>procs := ps\<rparr>) ! i) < nextpid (s\<lparr>procs := ps\<rparr>)
      \<and> (pstate (procs (s\<lparr>procs := ps\<rparr>) ! i) \<noteq> UNUSED \<longrightarrow> pid (procs (s\<lparr>procs := ps\<rparr>) ! i) \<noteq> 0)"
    using ptable_okD(1-3) [OF assms(1) i] assms(3,4) [OF i] by auto
  fix j assume "j < NPROC" and "pid (procs (s\<lparr>procs := ps\<rparr>) ! i) = pid (procs (s\<lparr>procs := ps\<rparr>) ! j)"
    and "pid (procs (s\<lparr>procs := ps\<rparr>) ! i) \<noteq> 0"
  then show "i = j" using ptable_okD(4) [OF assms(1) i, of j] assms(3) i by simp
qed (use assms(1,2) in \<open>simp_all add: ptable_ok_def\<close>)

lemma ptable_ok_upd:
  assumes "ptable_ok s" and "\<And>p. pid (f p) = pid p" and "\<And>p. pstate p = UNUSED \<Longrightarrow> pstate (f p) = UNUSED"
  shows "ptable_ok (upd_proc i f s)" and "ptable_ok (s\<lparr>procs := map f (procs s)\<rparr>)"
  using assms ptable_ok_length [OF assms(1)]
  by (auto simp: upd_proc_def nth_upd intro!: ptable_ok_procs)

subsection \<open>Aging\<close>

definition aged :: "int \<Rightarrow> proc \<Rightarrow> proc" where
  "aged osTicks p =
     (if pstate p = RUNNABLE \<and> queue_id (schedule_status p) \<noteq> ROUND_ROBIN
         \<and> osTicks - last_run (schedule_status p) > AGING_THRESHOLD
      then upd_sched (\<lambda>c. c\<lparr>queue_id := ROUND_ROBIN\<rparr>) p else p)"

definition aged_to :: "int \<Rightarrow> nat \<Rightarrow> kworld \<Rightarrow> kworld" where
  "aged_to osTicks k s = s\<lparr>procs := map (aged osTicks) (take k (procs s)) @ drop k (procs s)\<rparr>"

lemma aged_to_Suc: "k < length (procs s) \<Longrightarrow> aged_to o' (Suc k) s = upd_proc k (aged o') (aged_to o' k s)"
  by (simp add: aged_to_def upd_proc_def upd_prefix)

lemma aged_to_nth: "k < length (procs s) \<Longrightarrow> procs (aged_to o' k s) ! k = procs s ! k"
  by (simp add: aged_to_def nth_append)

lemma ready_aged_to [simp]: "ready l (aged_to o' k s) = ready l s"
  by (simp add: aged_to_def)

lemma ptable_ok_aged_to: "ptable_ok s \<Longrightarrow> ptable_ok (aged_to o' k s)"
  unfolding aged_to_def
  by (rule ptable_ok_procs)
     (auto simp: ptable_ok_length nth_append aged_def dest: ptable_ok_length)

lemma upd_proc_cong:
  assumes "f (procs s ! i) = g (procs s ! i)"
  shows "upd_proc i f s = upd_proc i g s"
  using assms by (simp add: upd_proc_def upd_def)

lemma upd_proc_id: "f (procs s ! i) = procs s ! i \<Longrightarrow> upd_proc i f s = s"
  by (simp add: upd_proc_def upd_def)

lemma ageprocs_step:
  assumes "ready PtableLock s" and "ptable_ok s" and "k < NPROC"
    and "core t = core (acquired PtableLock (aged_to osTicks k s))"
  shows "wp (kbind (kget (\<lambda>s. procs s ! k)) (\<lambda>p.
       kwhen (pstate p = RUNNABLE \<and> queue_id (schedule_status p) \<noteq> ROUND_ROBIN
              \<and> osTicks - last_run (schedule_status p) > AGING_THRESHOLD) (
         kseq (release PtableLock) (
         kseq (kbind (kget (\<lambda>s. pid (procs s ! k))) (\<lambda>n. change_queue n ROUND_ROBIN)) (
         acquire PtableLock)))))
    (\<lambda>_ t'. core t' = core (acquired PtableLock (aged_to osTicks (Suc k) s))) t"
proof -
  let ?a = "aged_to osTicks k s" and ?p = "procs s ! k"
  let ?f = "upd_sched (\<lambda>c. c\<lparr>queue_id := ROUND_ROBIN\<rparr>)"
  have len: "k < length (procs s)" using assms(2,3) by (simp add: ptable_ok_length)
  have p: "procs ?a ! k = ?p" "procs t ! k = ?p"
    using core_eq_data(8) [OF assms(4)] len by (simp_all add: aged_to_nth)
  note suc = aged_to_Suc [OF len, of osTicks]
  show ?thesis
  proof (cases "pstate ?p = RUNNABLE
      \<and> queue_id (schedule_status ?p) \<noteq> ROUND_ROBIN \<and> osTicks - last_run (schedule_status ?p) > AGING_THRESHOLD")
    case True
    have cq: "wp (change_queue (pid ?p) ROUND_ROBIN) (\<lambda>_. wp (acquire PtableLock)
        (\<lambda>_ t'. core t' = core (acquired PtableLock (aged_to osTicks (Suc k) s)))) u"
      if u: "core u = core ?a" for u
    proof -
      have rd: "ready PtableLock u" using core_eq_locks(5) [OF u] assms(1) by simp
      have "pid_slot (pid ?p) ?a = Some k"
        using pid_slot_own [OF ptable_ok_aged_to [OF assms(2), of osTicks k] assms(3)]
          ptable_okD(3) [OF assms(2,3)] True p(1) by simp
      then have "pid_slot (pid ?p) u = Some k" using core_eq_data(8) [OF u] by simp
      then have "wp (change_queue (pid ?p) ROUND_ROBIN) (\<lambda>_ t'. core t' = core (upd_proc k ?f u)) u"
        using change_queue_run [OF rd, of ROUND_ROBIN "pid ?p"] by (auto elim!: wp_conseq)
      then show ?thesis
      proof (rule wp_conseq)
        fix x t' assume t': "core t' = core (upd_proc k ?f u)"
        have "core t' = upd_proc k ?f (core ?a)" using t' u by (simp only: upd_proc_core)
        also have "\<dots> = upd_proc k (aged osTicks) (core ?a)"
          using True p(1) by (intro upd_proc_cong) (simp add: aged_def)
        finally have c: "core t' = core (aged_to osTicks (Suc k) s)" by (simp only: suc upd_proc_core)
        show "wp (acquire PtableLock)
            (\<lambda>_ t'. core t' = core (acquired PtableLock (aged_to osTicks (Suc k) s))) t'"
          using assms(1) by (intro wp_acquire_core [OF c]) simp_all
      qed
    qed
    have "wp (release PtableLock) (\<lambda>_. wp (kbind (kget (\<lambda>s. pid (procs s ! k)))
        (\<lambda>n. change_queue n ROUND_ROBIN)) (\<lambda>_. wp (acquire PtableLock)
          (\<lambda>_ t'. core t' = core (acquired PtableLock (aged_to osTicks (Suc k) s))))) t"
    proof (rule wp_release_core [OF assms(4)])
      show "ready PtableLock ?a" using assms(1) by simp
      fix u assume u: "core u = core ?a"
      then have "procs u ! k = ?p" using core_eq_data(8) [OF u] p(1) by simp
      then show "wp (kbind (kget (\<lambda>s. pid (procs s ! k))) (\<lambda>n. change_queue n ROUND_ROBIN))
          (\<lambda>_. wp (acquire PtableLock)
            (\<lambda>_ t'. core t' = core (acquired PtableLock (aged_to osTicks (Suc k) s)))) u"
        using cq [OF u] by (simp add: wp_bind wp_get)
    qed
    then show ?thesis using True p(2) by (simp only: wp_bind wp_get wp_when wp_seq) simp
  next
    case False
    then have "aged osTicks ?p = ?p" unfolding aged_def by (simp only: if_False)
    then have "aged_to osTicks (Suc k) s = ?a" using p(1) by (simp add: suc upd_proc_id)
    then show ?thesis using False p(2) assms(4) by (simp only: wp_bind wp_get wp_when) simp
  qed
qed

lemma ageprocs_run:
  assumes "ready PtableLock s" and "ptable_ok s"
  shows "wp (ageprocs osTicks) (\<lambda>_ t. core t = core (s\<lparr>procs := map (aged osTicks) (procs s)\<rparr>)) s"
proof -
  have "wp (kfor [0 ..< NPROC] (\<lambda>k. kbind (kget (\<lambda>s. procs s ! k)) (\<lambda>p.
       kwhen (pstate p = RUNNABLE \<and> queue_id (schedule_status p) \<noteq> ROUND_ROBIN
              \<and> osTicks - last_run (schedule_status p) > AGING_THRESHOLD) (
         kseq (release PtableLock) (
         kseq (kbind (kget (\<lambda>s. pid (procs s ! k))) (\<lambda>n. change_queue n ROUND_ROBIN)) (
         acquire PtableLock))))))
     (\<lambda>_ t. core t = core (acquired PtableLock (aged_to osTicks NPROC s))) (acquired PtableLock s)"
    using ageprocs_step [OF assms]
    by (intro wp_for_upt [where I = "\<lambda>k t. core t = core (acquired PtableLock (aged_to osTicks k s))"])
       (simp_all add: aged_to_def)
  moreover have fin: "aged_to osTicks NPROC s = s\<lparr>procs := map (aged osTicks) (procs s)\<rparr>"
    using assms(2) by (simp add: aged_to_def ptable_ok_length)
  ultimately show ?thesis
    using assms(1) unfolding ageprocs_def wp_seq wp_acquire_ready [OF assms(1)] fin
    by (elim wp_conseq) (rule wp_release_core, simp_all)
qed

end
