(* ===== verification/Proc_Life.thy ===== *)
theory Proc_Life
  imports Proc
begin

section \<open>The life of a process: allocation, sleeping, yielding\<close>

text \<open>
  What the operations of Proc do to the process table, and the operations that use them: \<open>wait\<close> collects
  an exited child, the system calls on queues and ranks change one entry, \<open>ageprocs\<close> moves the processes
  that have waited too long.
\<close>

subsection \<open>Allocating a process\<close>

definition new_sched :: schedStat where
  "new_sched = zero_sched\<lparr>queue_id := UNSET, priority := BJF_PRIORITY_DEF, priority_ratio := f32_one,
     arrival_time_ratio := f32_one, executed_cycle_ratio := f32_one\<rparr>"

definition embryo :: "ksyms \<Rightarrow> int \<Rightarrow> 32 word \<Rightarrow> proc \<Rightarrow> proc" where
  "embryo ks n k p = p\<lparr>pstate := EMBRYO, pid := n, kstack := k, tf := k + KSTACKSIZE - k_tfsize ks,
     context_ptr := k + KSTACKSIZE - k_tfsize ks - 24, schedule_status := new_sched\<rparr>"

definition init_stack :: "ksyms \<Rightarrow> 32 word \<Rightarrow> memory \<Rightarrow> memory" where
  "init_stack ks k m =
     (let sp = k + KSTACKSIZE - k_tfsize ks in
      store32 (mem_set (store32 m (sp - 4) (k_trapret ks)) (sp - 24) 0 20) (sp - 8) (k_forkret ks))"

lemma kalloced_cong:
  assumes "core t = core s"
  shows "core (kalloced t) = core (kalloced s)"
  using core_eq_data [OF assms] assms by (simp add: kalloced_def core_upd)

lemma allocproc_stack_run:
  "allocproc_stack ks i k s =
    (if k = 0 then Done None (upd_proc i (\<lambda>p. p\<lparr>kstack := 0, pstate := UNUSED\<rparr>) s)
     else Done (Some i) (upd_proc i (\<lambda>p. p\<lparr>kstack := k, tf := k + KSTACKSIZE - k_tfsize ks,
       context_ptr := k + KSTACKSIZE - k_tfsize ks - 24, schedule_status := new_sched\<rparr>)
       (s\<lparr>ram := init_stack ks k (ram s)\<rparr>)))"
  by (simp add: allocproc_stack_def Let_def upd_proc_def init_stack_def upd_sched_def new_sched_def)

lemma claim_slot:
  "upd_proc i (\<lambda>p. p\<lparr>pid := n\<rparr>) ((upd_proc i (\<lambda>p. p\<lparr>pstate := EMBRYO\<rparr>) (acquired l s))\<lparr>nextpid := n + 1\<rparr>)
    = acquired l (upd_proc i (\<lambda>p. p\<lparr>pstate := EMBRYO, pid := n\<rparr>) (s\<lparr>nextpid := n + 1\<rparr>))"
  by (simp add: upd_proc_def acquired_upd)

text \<open>The entry with its new number, before and after the stack is allocated.\<close>

definition claimed :: "nat \<Rightarrow> kworld \<Rightarrow> kworld" where
  "claimed i s = upd_proc i (\<lambda>p. p\<lparr>pstate := EMBRYO, pid := nextpid s\<rparr>) (s\<lparr>nextpid := nextpid s + 1\<rparr>)"

lemma claimed_fields [simp]:
  "freelist (claimed i s) = freelist s" "use_lock (claimed i s) = use_lock s"
  "ready l (claimed i s) = ready l s" "ram (claimed i s) = ram s"
  by (simp_all add: claimed_def)

lemma allocproc_stack_failed:
  assumes "core t = core (kalloced (claimed i s))" and "freelist s = 0" and "pstate (procs s ! i) = UNUSED"
  shows "core (upd_proc i (\<lambda>p. p\<lparr>kstack := 0, pstate := UNUSED\<rparr>) t)
    = core (upd_proc i (\<lambda>p. p\<lparr>pid := nextpid s, kstack := 0\<rparr>) (s\<lparr>nextpid := nextpid s + 1\<rparr>))"
proof -
  let ?s' = "s\<lparr>nextpid := nextpid s + 1\<rparr>"
  have "core (upd_proc i (\<lambda>p. p\<lparr>kstack := 0, pstate := UNUSED\<rparr>) t)
      = core (upd_proc i (\<lambda>p. p\<lparr>kstack := 0, pstate := UNUSED\<rparr>) (kalloced (claimed i s)))"
    using assms(1) by (simp only: upd_proc_core)
  also have "kalloced (claimed i s) = claimed i s"
    using assms(2) by (simp add: kalloced_def freelist_same)
  also have "upd_proc i (\<lambda>p. p\<lparr>kstack := 0, pstate := UNUSED\<rparr>) (claimed i s)
      = upd_proc i (\<lambda>p. p\<lparr>pid := nextpid s, kstack := 0, pstate := UNUSED\<rparr>) ?s'"
    by (simp add: claimed_def upd_proc_upd)
  also have "\<dots> = upd_proc i (\<lambda>p. p\<lparr>pid := nextpid s, kstack := 0\<rparr>) ?s'"
    using assms(3) by (intro upd_proc_cong proc.equality) simp_all
  finally show ?thesis .
qed

lemma allocproc_stack_done:
  assumes "core t = core (kalloced (claimed i s))"
  shows "core (upd_proc i (\<lambda>p. p\<lparr>kstack := k, tf := k + KSTACKSIZE - k_tfsize ks,
       context_ptr := k + KSTACKSIZE - k_tfsize ks - 24, schedule_status := new_sched\<rparr>)
       (t\<lparr>ram := init_stack ks k (ram t)\<rparr>))
    = core (upd_proc i (embryo ks (nextpid s) k)
       (kalloced s\<lparr>nextpid := nextpid s + 1, ram := init_stack ks k (ram s)\<rparr>))"
proof -
  have r: "ram t = ram s" using core_eq_data(5) [OF assms] by (simp add: kalloced_def)
  have "core (upd_proc i f (t\<lparr>ram := m\<rparr>)) = core (upd_proc i f (kalloced (claimed i s)\<lparr>ram := m\<rparr>))" for f m
    using assms by (simp only: upd_proc_core core_upd)
  moreover have "upd_proc i (\<lambda>p. p\<lparr>kstack := k, tf := k + KSTACKSIZE - k_tfsize ks,
       context_ptr := k + KSTACKSIZE - k_tfsize ks - 24, schedule_status := new_sched\<rparr>)
       (kalloced (claimed i s)\<lparr>ram := m\<rparr>)
    = upd_proc i (embryo ks (nextpid s) k) (kalloced s\<lparr>nextpid := nextpid s + 1, ram := m\<rparr>)" for m
    by (rule kworld.equality) (simp_all add: claimed_def kalloced_def embryo_def [abs_def])
  ultimately show ?thesis by (simp only: r)
qed

lemma kalloc_claimed:
  assumes "core u = core (claimed i s)" and "ready PtableLock s" and "use_lock s \<Longrightarrow> ready KmemLock s"
  shows "wp kalloc (\<lambda>k t. k = freelist s \<and> core t = core (kalloced (claimed i s))) u"
proof -
  have "cpu_wf u" "use_lock u \<Longrightarrow> ready KmemLock u" "freelist u = freelist s"
    using assms(2,3) core_eq_data(13,14) [OF assms(1)] core_eq_locks(5) [OF assms(1)]
    by (auto dest: ready_cpu_wf [of PtableLock u])
  then show ?thesis using kalloc_run [of u] kalloced_cong [OF assms(1)] by (auto elim!: wp_conseq)
qed

text \<open>The outcome of \<open>allocproc\<close> on its three branches: no free entry, no memory, success.\<close>

definition allocproc_post :: "ksyms \<Rightarrow> kworld \<Rightarrow> nat option \<Rightarrow> kworld \<Rightarrow> bool" where
  "allocproc_post ks s r t \<longleftrightarrow> (case find_idx (\<lambda>p. pstate p = UNUSED) (procs s) of
       None \<Rightarrow> r = None \<and> core t = core s
     | Some i \<Rightarrow>
         if freelist s = 0
         then r = None \<and> core t = core (upd_proc i (\<lambda>p. p\<lparr>pid := nextpid s, kstack := 0\<rparr>)
                (s\<lparr>nextpid := nextpid s + 1\<rparr>))
         else r = Some i \<and> core t = core (upd_proc i (embryo ks (nextpid s) (freelist s))
                (kalloced s\<lparr>nextpid := nextpid s + 1,
                  ram := init_stack ks (freelist s) (ram s)\<rparr>)))"

lemma allocproc_run:
  assumes "ready PtableLock s" and "use_lock s \<Longrightarrow> ready KmemLock s"
  shows "wp (allocproc ks) (allocproc_post ks s) s" (is "wp _ ?Q s")
proof (cases "find_idx (\<lambda>p. pstate p = UNUSED) (procs s)")
  case None
  then show ?thesis using assms(1)
    by (simp add: allocproc_def wp_simps wp_acquire_ready allocproc_post_def)
       (auto intro!: wp_release_core)
next
  case (Some i)
  have i: "pstate (procs s ! i) = UNUSED" using find_idx_SomeD(2) [OF Some] .
  have stack: "wp (allocproc_stack ks i (freelist s)) ?Q t" if "core t = core (kalloced (claimed i s))" for t
    using Some allocproc_stack_failed [OF that _ i] allocproc_stack_done [OF that, of "freelist s" ks]
    unfolding wp_def allocproc_stack_run allocproc_post_def by simp
  have "wp kalloc (\<lambda>k. wp (allocproc_stack ks i k) ?Q) u" if "core u = core (claimed i s)" for u
    using stack by (blast intro: wp_conseq [OF kalloc_claimed [OF that assms]])
  then have "wp (release PtableLock) (\<lambda>_. wp kalloc (\<lambda>k. wp (allocproc_stack ks i k) ?Q))
      (acquired PtableLock (claimed i s))"
    using assms(1) by (intro wp_release_core [OF refl]) simp_all
  then show ?thesis using Some assms(1)
    by (simp add: allocproc_def wp_simps wp_acquire_ready claim_slot claimed_def)
qed

text \<open>A fresh number keeps the numbers unique.\<close>

lemma ptable_ok_fresh:
  assumes "ptable_ok s" and "i < NPROC" and "\<And>p. pid (f p) = nextpid s"
    and "procs t = upd i f (procs s)" and "nextpid t = nextpid s + 1"
  shows "ptable_ok t"
proof (rule ptable_okI)
  have len: "length (procs s) = NPROC" by (rule ptable_ok_length [OF assms(1)])
  then show "length (procs t) = NPROC" by (simp add: assms(4))
  have pos: "0 < nextpid s" using assms(1) by (simp add: ptable_ok_def)
  then show "0 < nextpid t" by (simp add: assms(5))
  have nth: "procs t ! j = (if i = j then f (procs s ! j) else procs s ! j)" if "j < NPROC" for j
    using that len by (simp add: assms(4) nth_upd)
  fix j assume j: "j < NPROC"
  show "0 \<le> pid (procs t ! j) \<and> pid (procs t ! j) < nextpid t
      \<and> (pstate (procs t ! j) \<noteq> UNUSED \<longrightarrow> pid (procs t ! j) \<noteq> 0)"
    using ptable_okD(1-3) [OF assms(1) j] pos assms(3) by (auto simp: nth [OF j] assms(5))
  fix k assume k: "k < NPROC" and "pid (procs t ! j) = pid (procs t ! k)" and "pid (procs t ! j) \<noteq> 0"
  then show "j = k"
    using ptable_okD(2) [OF assms(1) j] ptable_okD(2) [OF assms(1) k] ptable_okD(4) [OF assms(1) j k] assms(3)
    by (auto simp: nth [OF j] nth [OF k] split: if_splits)
qed

lemma allocproc_ptable_ok:
  assumes "ready PtableLock s" and "use_lock s \<Longrightarrow> ready KmemLock s" and "ptable_ok s"
  shows "wp (allocproc ks) (\<lambda>_. ptable_ok) s"
proof (rule wp_conseq [OF allocproc_run [OF assms(1,2)]])
  fix r t assume 1: "allocproc_post ks s r t"
  show "ptable_ok t"
  proof (cases "find_idx (\<lambda>p. pstate p = UNUSED) (procs s)")
    case None
    then show ?thesis using 1 assms(3) ptable_ok_core [of t s] by (simp add: allocproc_post_def)
  next
    case (Some i)
    have i: "i < NPROC" using find_idx_SomeD(1) [OF Some] by (simp add: ptable_ok_length [OF assms(3)])
    let ?f = "if freelist s = 0 then \<lambda>p. p\<lparr>pid := nextpid s, kstack := 0\<rparr>
      else embryo ks (nextpid s) (freelist s)"
    have "procs t = upd i ?f (procs s)" "nextpid t = nextpid s + 1"
      using 1 Some by (auto simp: allocproc_post_def kalloced_def dest: core_eq_data(8,10) split: if_splits)
    then show ?thesis by (intro ptable_ok_fresh [OF assms(3) i]) (auto simp: embryo_def)
  qed
qed

subsection \<open>Giving up the processor\<close>

text \<open>
  With \<open>ptable.lock\<close> the only lock held and the state already changed, none of the checks of
  \<open>sched\<close> fires and it switches to the scheduler from this very state; on resumption it puts the
  saved \<open>intena\<close> into the processor it now runs on.
\<close>

definition restore_intena :: "bool \<Rightarrow> unit kern" where
  "restore_intena ie = kbind mycpu (\<lambda>c. kmod (upd_cpu c (\<lambda>k. k\<lparr>intena := ie\<rparr>)))"

lemma sched_run:
  assumes "cpu_wf s" and "owns PtableLock s" and "depth s = 1" and "curproc s = Some i"
    and "pstate (procs s ! i) \<noteq> RUNNING"
  shows "sched s = kseq swtch (restore_intena (intena (cpus s ! this_cpu s))) s"
proof -
  have "\<not> eflags_IF s" using assms(1,3) by (simp add: cpu_wf_def)
  moreover have "popped (pushed s) = s" using assms(1,3) by (intro popped_pushed) simp_all
  moreover have "ncli (cpus s ! this_cpu s) = 1" using assms(3) by (simp add: depth_def)
  moreover have "mycpu s = Done (this_cpu s) s" using assms(1) \<open>\<not> eflags_IF s\<close> by (rule mycpu_run)
  ultimately show ?thesis
    using assms
    by (simp add: sched_def run_app myproc_run holding_run_nested deref_def restore_intena_def)
qed

lemma sched_checks:
  assumes "cpu_wf s"
  shows "\<not> owns PtableLock s \<Longrightarrow> sched s = Panic ''sched ptable.lock''"
    and "owns PtableLock s \<Longrightarrow> 0 < depth s \<Longrightarrow> depth s \<noteq> 1 \<Longrightarrow> sched s = Panic ''sched locks''"
    and "owns PtableLock s \<Longrightarrow> depth s = 1 \<Longrightarrow> curproc s = Some i \<Longrightarrow> pstate (procs s ! i) = RUNNING
      \<Longrightarrow> sched s = Panic ''sched running''"
proof -
  have "cpu_wf (popped (pushed s))" using assms by (simp add: depth_nonneg le_imp_less_Suc)
  moreover have "owns PtableLock (popped (pushed s)) = owns PtableLock s" by simp
  ultimately show "\<not> owns PtableLock s \<Longrightarrow> sched s = Panic ''sched ptable.lock''"
    using assms by (simp add: sched_def run_app myproc_run holding_run)
  assume o: "owns PtableLock s"
  have n: "ncli (cpus s ! this_cpu s) = depth s" by (simp add: depth_def)
  show "sched s = Panic ''sched locks''" if "0 < depth s" "depth s \<noteq> 1"
  proof -
    have "\<not> eflags_IF s" using assms that by (simp add: cpu_wf_def)
    then show ?thesis using o that assms n
      by (simp add: sched_def run_app myproc_run holding_run_nested popped_pushed mycpu_run)
  qed
  show "sched s = Panic ''sched running''"
    if "depth s = 1" "curproc s = Some i" "pstate (procs s ! i) = RUNNING"
  proof -
    have "\<not> eflags_IF s" using assms that by (simp add: cpu_wf_def)
    then show ?thesis using o that assms n
      by (simp add: sched_def run_app myproc_run holding_run_nested popped_pushed mycpu_run deref_def)
  qed
qed

lemma curproc_locks [simp]:
  assumes "cpu_wf s"
  shows "curproc (acquired l s) = curproc s" and "curproc (released l s) = curproc s"
  using this_cpu_lt [OF assms] by (simp_all add: curproc_def cpus_acquired cpus_released)

lemma curproc_upd_proc [simp]: "curproc (upd_proc i f s) = curproc s"
  by (simp add: curproc_def)

lemma kseq_assoc: "kseq (kseq m n) k = kseq m (kseq n k)"
  by (simp add: kseq_def kbind_assoc)

text \<open>
  The state in which \<open>sleep(ch, lk)\<close> switches away: the process is marked asleep on \<open>ch\<close>, the
  caller's lock is released and \<open>ptable.lock\<close> is held, so a \<open>wakeup\<close> that comes after the release
  of \<open>lk\<close> finds the process asleep.
\<close>

definition asleep :: "nat \<Rightarrow> chan option \<Rightarrow> lockid \<Rightarrow> kworld \<Rightarrow> kworld" where
  "asleep i ch l s = upd_proc i (\<lambda>p. p\<lparr>pchan := ch, pstate := SLEEPING\<rparr>)
     (if l = PtableLock then s else released l (acquired PtableLock s))"

definition sleep_resume :: "nat \<Rightarrow> lockid \<Rightarrow> bool \<Rightarrow> unit kern" where
  "sleep_resume i l ie =
     kseq (restore_intena ie) (
     kseq (kmod (upd_proc i (\<lambda>q. q\<lparr>pchan := None\<rparr>)))
     (kwhen (l \<noteq> PtableLock) (kseq (release PtableLock) (acquire l))))"

text \<open>A process in a critical section of \<open>l\<close>, and nothing else held.\<close>

definition in_section :: "nat \<Rightarrow> lockid \<Rightarrow> kworld \<Rightarrow> bool" where
  "in_section i l s \<longleftrightarrow> cpu_wf s \<and> curproc s = Some i \<and> i < length (procs s) \<and> owns l s \<and> depth s = 1
     \<and> (l \<noteq> PtableLock \<longrightarrow> ready PtableLock s)"

lemma asleep_facts:
  assumes "in_section i l s"
  shows "cpu_wf (asleep i ch l s)" and "owns PtableLock (asleep i ch l s)"
    and "depth (asleep i ch l s) = 1" and "curproc (asleep i ch l s) = Some i"
    and "procs (asleep i ch l s) = upd i (\<lambda>p. p\<lparr>pchan := ch, pstate := SLEEPING\<rparr>) (procs s)"
    and "env (asleep i ch l s) = env s" and "l \<noteq> PtableLock \<Longrightarrow> free l (asleep i ch l s)"
  using assms by (auto simp: in_section_def asleep_def)

lemma sleep_run:
  assumes "in_section i l s"
  shows "sleep ch (Some l) s
    = kseq swtch (sleep_resume i l (intena (cpus (asleep i ch l s) ! this_cpu (asleep i ch l s)))) (asleep i ch l s)"
proof -
  let ?s1 = "if l = PtableLock then s else released l (acquired PtableLock s)"
  let ?k = "kseq (kmod (upd_proc i (\<lambda>q. q\<lparr>pchan := None\<rparr>)))
     (kwhen (l \<noteq> PtableLock) (kseq (release PtableLock) (acquire l)))"
  have s: "cpu_wf s" "curproc s = Some i" "owns l s" "depth s = 1" "i < length (procs s)"
    using assms by (simp_all add: in_section_def)
  have "popped (pushed s) = s" using s by (intro popped_pushed) simp_all
  moreover have "kwhen (l \<noteq> PtableLock) (kseq (acquire PtableLock) (release l)) s = Done () ?s1"
    using assms by (simp add: in_section_def ready_def acquire_run release_run)
  moreover have "upd_proc i (\<lambda>q. q\<lparr>pstate := SLEEPING\<rparr>) (upd_proc i (\<lambda>q. q\<lparr>pchan := ch\<rparr>) ?s1) = asleep i ch l s"
    by (simp add: asleep_def upd_proc_upd)
  ultimately have "sleep ch (Some l) s = kseq sched ?k (asleep i ch l s)"
    using s by (simp add: sleep_def run_app myproc_run)
  also have "\<dots> = kseq (kseq swtch (restore_intena (intena (cpus (asleep i ch l s) ! this_cpu (asleep i ch l s))))) ?k
      (asleep i ch l s)"
    using asleep_facts [OF assms, of ch] s(5) by (intro kseq_cong sched_run) auto
  finally show ?thesis by (simp add: kseq_assoc sleep_resume_def)
qed

subsection \<open>Sleeping and being resumed\<close>

lemma upd_cpu_fields [simp]:
  "procs (upd_cpu c f s) = procs s" "locks (upd_cpu c f s) = locks s" "env (upd_cpu c f s) = env s"
  "length (cpus (upd_cpu c f s)) = length (cpus s)" "sems (upd_cpu c f s) = sems s"
  "slocks (upd_cpu c f s) = slocks s" "pipes (upd_cpu c f s) = pipes s" "bcache (upd_cpu c f s) = bcache s"
  "log (upd_cpu c f s) = log s" "ram (upd_cpu c f s) = ram s" "memdisk (upd_cpu c f s) = memdisk s"
  by (simp_all add: upd_cpu_def)

lemma intena_facts [simp]:
  "depth (upd_cpu c (\<lambda>k. k\<lparr>intena := b\<rparr>) s) = depth s"
  "cpu_wf (upd_cpu c (\<lambda>k. k\<lparr>intena := b\<rparr>) s) = cpu_wf s"
  "owns l (upd_cpu c (\<lambda>k. k\<lparr>intena := b\<rparr>) s) = owns l s"
  "free l (upd_cpu c (\<lambda>k. k\<lparr>intena := b\<rparr>) s) = free l s"
  "curproc (upd_cpu c (\<lambda>k. k\<lparr>intena := b\<rparr>) s) = curproc s"
proof -
  have same: "ncli (cpus (upd_cpu c (\<lambda>k. k\<lparr>intena := b\<rparr>) s) ! j) = ncli (cpus s ! j)
      \<and> cpu_proc (cpus (upd_cpu c (\<lambda>k. k\<lparr>intena := b\<rparr>) s) ! j) = cpu_proc (cpus s ! j)" for j
    by (cases "j = c"; cases "c < length (cpus s)") (simp_all add: upd_cpu_def upd_def list_update_beyond)
  then show "depth (upd_cpu c (\<lambda>k. k\<lparr>intena := b\<rparr>) s) = depth s"
    "curproc (upd_cpu c (\<lambda>k. k\<lparr>intena := b\<rparr>) s) = curproc s"
    by (simp_all add: depth_def curproc_def)
  then show "cpu_wf (upd_cpu c (\<lambda>k. k\<lparr>intena := b\<rparr>) s) = cpu_wf s"
    by (simp add: cpu_wf_def)
  show "owns l (upd_cpu c (\<lambda>k. k\<lparr>intena := b\<rparr>) s) = owns l s"
    "free l (upd_cpu c (\<lambda>k. k\<lparr>intena := b\<rparr>) s) = free l s"
    by (simp_all add: owns_def free_def)
qed

text \<open>
  What the scheduler guarantees to a process it resumes: \<open>ptable.lock\<close> is held by the processor
  that now runs it, nothing else is.
\<close>

definition resumed :: "nat \<Rightarrow> kworld \<Rightarrow> bool" where
  "resumed i t \<longleftrightarrow> cpu_wf t \<and> owns PtableLock t \<and> depth t = 1 \<and> curproc t = Some i \<and> i < length (procs t)"

definition woke :: "nat \<Rightarrow> bool \<Rightarrow> kworld \<Rightarrow> kworld" where
  "woke i ie u = upd_proc i (\<lambda>q. q\<lparr>pchan := None\<rparr>) (upd_cpu (this_cpu u) (\<lambda>k. k\<lparr>intena := ie\<rparr>) u)"

definition after_sleep :: "nat \<Rightarrow> lockid \<Rightarrow> bool \<Rightarrow> kworld \<Rightarrow> kworld" where
  "after_sleep i l ie u =
     (if l = PtableLock then woke i ie u else acquired l (released PtableLock (woke i ie u)))"

lemma woke_facts [simp]:
  "cpu_wf (woke i ie u) = cpu_wf u" "owns l (woke i ie u) = owns l u" "free l (woke i ie u) = free l u"
  "depth (woke i ie u) = depth u" "curproc (woke i ie u) = curproc u"
  "procs (woke i ie u) = upd i (\<lambda>q. q\<lparr>pchan := None\<rparr>) (procs u)"
  "locks (woke i ie u) = locks u" "env (woke i ie u) = env u" "sems (woke i ie u) = sems u"
  "slocks (woke i ie u) = slocks u" "pipes (woke i ie u) = pipes u" "bcache (woke i ie u) = bcache u"
  "log (woke i ie u) = log u" "ram (woke i ie u) = ram u" "memdisk (woke i ie u) = memdisk u"
  by (simp_all add: woke_def)

lemma sleep_resume_run:
  assumes "resumed i u" and "l \<noteq> PtableLock \<Longrightarrow> free l u"
  shows "sleep_resume i l ie u = Done () (after_sleep i l ie u)"
proof -
  have u: "cpu_wf u" "owns PtableLock u" "depth u = 1" using assms(1) by (simp_all add: resumed_def)
  have "mycpu u = Done (this_cpu u) u" using u by (intro mycpu_run) (simp_all add: cpu_wf_def)
  moreover have "release PtableLock (woke i ie u) = Done () (released PtableLock (woke i ie u))"
    using u by (intro release_run) simp_all
  moreover have "acquire l (released PtableLock (woke i ie u)) = Done () (acquired l (released PtableLock (woke i ie u)))"
    if "l \<noteq> PtableLock" using u assms(2) [OF that] by (intro acquire_run) simp_all
  ultimately show ?thesis
    by (simp add: sleep_resume_def restore_intena_def run_app after_sleep_def woke_def)
qed

lemma sleep_returns:
  assumes "in_section i l s" and "env s = e # es"
    and "resumed i (env_apply e (asleep i ch l s\<lparr>env := es\<rparr>))"
    and "l \<noteq> PtableLock \<Longrightarrow> free l (env_apply e (asleep i ch l s\<lparr>env := es\<rparr>))"
  shows "sleep ch (Some l) s = Done () (after_sleep i l
    (intena (cpus (asleep i ch l s) ! this_cpu (asleep i ch l s))) (env_apply e (asleep i ch l s\<lparr>env := es\<rparr>)))"
  using sleep_run [OF assms(1), of ch] sleep_resume_run [OF assms(3,4)] assms(2) asleep_facts(6) [OF assms(1), of ch]
  by (simp add: swtch_def)

lemma after_sleep_section:
  assumes "resumed i u" and "l \<noteq> PtableLock \<Longrightarrow> free l u"
  shows "in_section i l (after_sleep i l ie u)"
proof -
  have u: "cpu_wf u" "owns PtableLock u" "depth u = 1" "curproc u = Some i" "i < length (procs u)"
    using assms(1) by (simp_all add: resumed_def)
  then show ?thesis
    by (auto simp: in_section_def after_sleep_def ready_def locks_released locks_acquired)
qed

lemma sleep_blocks: "in_section i l s \<Longrightarrow> env s = [] \<Longrightarrow> sleep ch (Some l) s = Blocked"
  using asleep_facts(6) [of i l s ch] by (simp add: sleep_run swtch_def kseq_app)

subsection \<open>Waiting loops end\<close>

lemma env_le_deref [env_intros]: "(\<And>x. env_le (f x)) \<Longrightarrow> env_le (deref p f)"
  by (simp add: deref_def env_le_basic split: option.split)

lemma env_lt_deref: "(\<And>x. env_lt (f x)) \<Longrightarrow> env_lt (deref p f)"
  by (simp add: deref_def env_lt_stuck split: option.split)

lemma env_le_myproc [env_intros]: "env_le myproc"
  unfolding myproc_def by (intro env_intros)

lemma env_lt_sched: "env_lt sched"
  unfolding sched_def swtch_def
  by (intro env_lt_bind2 env_lt_if env_lt_stuck env_lt_deref env_lt_seq1 env_lt_others_run env_intros) simp

lemma env_lt_sleep: "env_lt (sleep ch lk)"
  unfolding sleep_def
  by (auto intro!: env_lt_bind2 env_lt_seq2 env_lt_stuck env_intros env_lt_seq1 [OF env_lt_sched]
      split: option.split)

subsection \<open>Waiting for a child\<close>

text \<open>
  The page-table operations of vm.c are parameters.  What the process code relies on is that they
  change memory and the page allocator only.
\<close>

record vmops =
  copyuvm :: "32 word \<Rightarrow> 32 word \<Rightarrow> 32 word kern"
  freevm :: "32 word \<Rightarrow> unit kern"
  setupkvm :: "32 word kern"
  inituvm :: "32 word \<Rightarrow> unit kern"
  allocuvm :: "32 word \<Rightarrow> 32 word \<Rightarrow> 32 word \<Rightarrow> 32 word kern"
  deallocuvm :: "32 word \<Rightarrow> 32 word \<Rightarrow> 32 word \<Rightarrow> 32 word kern"
  switchuvm :: "nat \<Rightarrow> unit kern"
  switchkvm :: "unit kern"

text \<open>Collecting the zombie \<open>i\<close>: the body of the inner \<open>if\<close> of \<open>wait\<close>.\<close>

definition wait_reap :: "ksyms \<Rightarrow> vmops \<Rightarrow> nat \<Rightarrow> int kern" where
  "wait_reap ks vm i =
     kbind (kget (\<lambda>s. procs s ! i)) (\<lambda>p.
     kseq (kfree (k_end ks) (kstack p)) (
     kseq (kmod (upd_proc i (\<lambda>p. p\<lparr>kstack := 0\<rparr>))) (
     kseq (kbind (kget (\<lambda>s. pgdir (procs s ! i))) (freevm vm)) (
     kseq (kmod (upd_proc i (\<lambda>p. p\<lparr>pid := 0\<rparr>))) (
     kseq (kmod (upd_proc i (\<lambda>p. p\<lparr>parent := None\<rparr>))) (
     kseq (kmod (upd_proc i (\<lambda>p. p\<lparr>pname := ''''\<rparr>))) (
     kseq (kmod (upd_proc i (\<lambda>p. p\<lparr>killed := False\<rparr>))) (
     kseq (kmod (upd_proc i (\<lambda>p. p\<lparr>pstate := UNUSED\<rparr>))) (
     kseq (release PtableLock) (
     kret (pid p)))))))))))"

function wait_loop :: "ksyms \<Rightarrow> vmops \<Rightarrow> nat option \<Rightarrow> int kern" where
  "wait_loop ks vm me s =
     (case find_idx (\<lambda>p. parent p = me \<and> pstate p = ZOMBIE) (procs s) of
        Some i \<Rightarrow> wait_reap ks vm i s
      | None \<Rightarrow>
          if \<not> (\<exists>p \<in> set (procs s). parent p = me) then kseq (release PtableLock) (kret (- 1)) s
          else case me of None \<Rightarrow> Fault | Some i \<Rightarrow>
          if killed (procs s ! i) then kseq (release PtableLock) (kret (- 1)) s
          else kseq (sleep (Some (ChProc i)) (Some PtableLock)) (wait_loop ks vm me) s)"
  by pat_completeness auto
termination
  by (relation "measure (\<lambda>(ks, vm, me, s). length (env s))") (auto dest: env_ltD [OF env_lt_sleep])

declare wait_loop.simps [simp del]

definition wait :: "ksyms \<Rightarrow> vmops \<Rightarrow> int kern" where
  "wait ks vm = kbind myproc (\<lambda>me. kseq (acquire PtableLock) (wait_loop ks vm me))"

definition reaped :: "proc \<Rightarrow> proc" where
  "reaped p = p\<lparr>kstack := 0, pid := 0, parent := None, pname := '''', killed := False, pstate := UNUSED\<rparr>"

text \<open>The laws of the page-table operations the process code relies on.\<close>

definition vm_frame :: "vmops \<Rightarrow> bool" where
  "vm_frame vm \<longleftrightarrow> (\<forall>pg s. cpu_wf s \<and> (use_lock s \<longrightarrow> ready KmemLock s) \<longrightarrow> wp (freevm vm pg) (\<lambda>_. kmem_only s) s)"

lemma kmem_only_acquired:
  assumes "kmem_only (acquired l s) t"
  shows "core t = core (acquired l (s\<lparr>ram := ram t, freelist := freelist t\<rparr>))"
  using assms unfolding kmem_only_def
  by (simp add: core_upd core_acquired_ram acquired_upd [symmetric])

lemma kmem_only_upd_proc: "kmem_only s t \<Longrightarrow> kmem_only (upd_proc i f s) (upd_proc i f t)"
proof -
  assume "kmem_only s t"
  then have "core (upd_proc i f t) = upd_proc i f (core (s\<lparr>ram := ram t, freelist := freelist t\<rparr>))"
    by (simp only: upd_proc_core kmem_only_def)
  then show ?thesis unfolding kmem_only_def
    by (simp add: upd_proc_core [symmetric] upd_proc_commute)
qed

lemma kmem_only_data:
  assumes "kmem_only s t"
  shows "procs t = procs s" and "use_lock t = use_lock s" and "cpu_wf t = cpu_wf s"
  using assms core_eq_data(8,13) [of t "s\<lparr>ram := ram t, freelist := freelist t\<rparr>"]
    core_eq_locks(1) [of t "s\<lparr>ram := ram t, freelist := freelist t\<rparr>"]
  by (simp_all add: kmem_only_def)

lemma ready_acquired: "k \<noteq> l \<Longrightarrow> cpu_wf s \<Longrightarrow> ready k (acquired l s) = ready k s"
  by (simp add: ready_def locks_acquired)

lemma wait_reap_run:
  assumes "ready PtableLock s" and "use_lock s \<Longrightarrow> ready KmemLock s" and "vm_frame vm"
    and "i < length (procs s)" and "is_page (k_end ks) (kstack (procs s ! i))"
  shows "wp (wait_reap ks vm i)
    (\<lambda>r t. r = pid (procs s ! i) \<and> (\<exists>m f. core t = core (upd_proc i reaped (s\<lparr>ram := m, freelist := f\<rparr>))))
    (acquired PtableLock s)"
proof -
  let ?a = "acquired PtableLock s" and ?pre = "upd_proc i (\<lambda>p. p\<lparr>kstack := 0\<rparr>)"
  let ?post = "upd_proc i (\<lambda>p. p\<lparr>pid := 0, parent := None, pname := '''', killed := False, pstate := UNUSED\<rparr>)"
  have wf: "cpu_wf s" using assms(1) by (rule ready_cpu_wf)
  have leave: "wp (release PtableLock) (\<lambda>_ t. \<exists>m f. core t = core (upd_proc i reaped (s\<lparr>ram := m, freelist := f\<rparr>))) (?post v)"
    if "kmem_only (?pre ?a) v" for v
  proof -
    let ?s2 = "s\<lparr>ram := ram v, freelist := freelist v\<rparr>"
    have "core v = core (acquired PtableLock (?pre ?s2))"
      using that kmem_only_acquired [of PtableLock "?pre s" v]
      by (simp add: upd_proc_acquired upd_proc_commute)
    then have "core (?post v) = core (acquired PtableLock (?post (?pre ?s2)))"
      by (simp only: upd_proc_core upd_proc_acquired [symmetric])
    also have "?post (?pre ?s2) = upd_proc i reaped ?s2"
      by (simp add: upd_proc_upd reaped_def [abs_def])
    finally have c: "core (?post v) = core (acquired PtableLock (upd_proc i reaped ?s2))" .
    show ?thesis by (rule wp_release_core [OF c]) (use assms(1) in auto)
  qed
  have vm: "wp (freevm vm pg) (\<lambda>_ v. kmem_only (?pre ?a) v) (?pre u)" if "kmem_only ?a u" for u pg
  proof -
    have "cpu_wf (?pre u)" "use_lock (?pre u) \<longrightarrow> ready KmemLock (?pre u)"
      using kmem_only_data [OF that] kmem_only_ready [OF that, of KmemLock] wf assms(2)
      by (auto simp: ready_acquired)
    then have "wp (freevm vm pg) (\<lambda>_. kmem_only (?pre u)) (?pre u)"
      using assms(3) by (simp add: vm_frame_def)
    then show ?thesis by (rule wp_conseq) (rule kmem_only_trans [OF kmem_only_upd_proc [OF that]])
  qed
  have kf: "wp (kfree (k_end ks) (kstack (procs s ! i))) (\<lambda>_. kmem_only ?a) ?a"
    using wf assms(2,5) by (intro wp_conseq [OF kfree_run]) (auto simp: ready_acquired intro: kmem_only_kfreed)
  have "wp (freevm vm (pgdir (procs (?pre u) ! i))) (\<lambda>_ v. wp (release PtableLock)
      (\<lambda>_ t. \<exists>m f. core t = core (upd_proc i reaped (s\<lparr>ram := m, freelist := f\<rparr>))) (?post v)) (?pre u)"
    if "kmem_only ?a u" for u
    using leave by (blast intro: wp_conseq [OF vm [OF that]])
  then have "wp (kfree (k_end ks) (kstack (procs s ! i))) (\<lambda>_ u. wp (freevm vm (pgdir (procs (?pre u) ! i)))
      (\<lambda>_ v. wp (release PtableLock)
      (\<lambda>_ t. \<exists>m f. core t = core (upd_proc i reaped (s\<lparr>ram := m, freelist := f\<rparr>))) (?post v)) (?pre u)) ?a"
    by (blast intro: wp_conseq [OF kf])
  then show ?thesis by (simp add: wait_reap_def wp_simps upd_proc_upd)
qed

text \<open>\<open>wait\<close> from a process outside every critical section.\<close>

lemma wait_enter:
  assumes "ready PtableLock s" and "\<And>t. core t = core s \<Longrightarrow> wp (wait_loop ks vm (curproc s)) Q (acquired PtableLock t)"
  shows "wp (wait ks vm) Q s"
proof -
  have "wp (acquire PtableLock) (\<lambda>_. wp (wait_loop ks vm (curproc s)) Q) t" if "core t = core s" for t
    using assms core_eq_locks(5) [OF that] that by (simp add: wp_acquire_ready)
  then show ?thesis
    using assms(1) unfolding wait_def wp_bind by (intro wp_myproc) (simp_all add: ready_cpu_wf wp_seq)
qed

lemma wp_wait_loop:
  "wp (wait_loop ks vm me) Q s \<longleftrightarrow>
     (case find_idx (\<lambda>p. parent p = me \<and> pstate p = ZOMBIE) (procs s) of
        Some i \<Rightarrow> wp (wait_reap ks vm i) Q s
      | None \<Rightarrow>
          if \<not> (\<exists>p \<in> set (procs s). parent p = me) then wp (release PtableLock) (\<lambda>_. Q (- 1)) s
          else case me of None \<Rightarrow> False | Some i \<Rightarrow>
          if killed (procs s ! i) then wp (release PtableLock) (\<lambda>_. Q (- 1)) s
          else wp (sleep (Some (ChProc i)) (Some PtableLock)) (\<lambda>_. wp (wait_loop ks vm me) Q) s)"
  by (subst wp_def, subst wait_loop.simps)
     (auto simp: wp_def kseq_eq_Done split: option.splits)

lemma wait_no_child:
  assumes "ready PtableLock s" and "\<not> (\<exists>p \<in> set (procs s). parent p = curproc s)"
  shows "wp (wait ks vm) (\<lambda>r t. r = - 1 \<and> core t = core s) s"
proof (rule wait_enter [OF assms(1)])
  fix t assume t: "core t = core s"
  have n: "find_idx (\<lambda>p. parent p = curproc s \<and> pstate p = ZOMBIE) (procs t) = None"
    "\<not> (\<exists>p \<in> set (procs t). parent p = curproc s)"
    using assms(2) core_eq_data(8) [OF t] by (auto simp: find_idx_None)
  have "ready PtableLock t" using core_eq_locks(5) [OF t] assms(1) by simp
  then have "wp (release PtableLock) (\<lambda>_ t. core t = core s) (acquired PtableLock t)"
    using t by (intro wp_release_core [OF refl]) simp_all
  then show "wp (wait_loop ks vm (curproc s)) (\<lambda>r t. r = - 1 \<and> core t = core s) (acquired PtableLock t)"
    using n by (simp add: wp_wait_loop)
qed

lemma wait_zombie:
  assumes "ready PtableLock s" and "use_lock s \<Longrightarrow> ready KmemLock s" and "vm_frame vm"
    and "find_idx (\<lambda>p. parent p = curproc s \<and> pstate p = ZOMBIE) (procs s) = Some i"
    and "is_page (k_end ks) (kstack (procs s ! i))"
  shows "wp (wait ks vm) (\<lambda>r t. r = pid (procs s ! i)
    \<and> (\<exists>m f. core t = core (upd_proc i reaped (s\<lparr>ram := m, freelist := f\<rparr>)))) s"
proof (rule wait_enter [OF assms(1)])
  fix t assume t: "core t = core s"
  have p: "procs t = procs s" "use_lock t = use_lock s" using core_eq_data(8,13) [OF t] by auto
  have "core (upd_proc i reaped (t\<lparr>ram := m, freelist := f\<rparr>))
      = core (upd_proc i reaped (s\<lparr>ram := m, freelist := f\<rparr>))" for m f
    using t by (simp only: upd_proc_core core_upd)
  moreover have "wp (wait_reap ks vm i) (\<lambda>r u. r = pid (procs t ! i)
      \<and> (\<exists>m f. core u = core (upd_proc i reaped (t\<lparr>ram := m, freelist := f\<rparr>)))) (acquired PtableLock t)"
    using assms core_eq_locks(5) [OF t] find_idx_SomeD(1) [OF assms(4)]
    by (intro wait_reap_run) (auto simp: p)
  ultimately show "wp (wait_loop ks vm (curproc s)) (\<lambda>r t. r = pid (procs s ! i)
    \<and> (\<exists>m f. core t = core (upd_proc i reaped (s\<lparr>ram := m, freelist := f\<rparr>)))) (acquired PtableLock t)"
    using assms(4) by (simp add: wp_wait_loop p)
qed

subsection \<open>A state to exercise the theorems\<close>

text \<open>Process 0 runs on processor 0, outside every critical section; process 1 is its zombie child.\<close>

definition demo :: kworld where
  "demo = (upd_cpu 0 (\<lambda>c. c\<lparr>cpu_proc := Some 0\<rparr>) bss)\<lparr>
     procs := [zero_proc\<lparr>pstate := RUNNING, pid := 1\<rparr>,
       zero_proc\<lparr>pstate := ZOMBIE, pid := 2, parent := Some 0, kstack := 0x80200000\<rparr>,
       zero_proc, zero_proc, zero_proc, zero_proc, zero_proc, zero_proc, zero_proc, zero_proc],
     nextpid := 3\<rparr>"

definition demo_syms :: ksyms where
  "demo_syms = \<lparr>k_end = 0x80100000, k_trapret = 0x80105000, k_forkret = 0x80103000, k_tfsize = 76\<rparr>"

definition demo_vm :: vmops where
  "demo_vm = \<lparr>copyuvm = (\<lambda>_ _. kret 0), freevm = (\<lambda>_. kret ()), setupkvm = kret 0, inituvm = (\<lambda>_. kret ()),
     allocuvm = (\<lambda>_ _ n. kret n), deallocuvm = (\<lambda>_ _ n. kret n), switchuvm = (\<lambda>_. kret ()), switchkvm = kret ()\<rparr>"

lemma demo_cpu [simp]:
  "cpu_index demo = Some 0" "this_cpu demo = 0" "depth demo = 0" "cpu_wf demo" "curproc demo = Some 0"
proof -
  have "cpu_index (upd_cpu 0 (\<lambda>c. c\<lparr>cpu_proc := Some 0\<rparr>) bss) = cpu_index bss"
    unfolding upd_cpu_def by (rule cpu_index_cpus) simp
  then show i: "cpu_index demo = Some 0" by (simp add: demo_def)
  then show t: "this_cpu demo = 0" by (simp add: this_cpu_def)
  show d: "depth demo = 0" by (simp add: depth_def t) (simp add: demo_def upd_cpu_def zero_cpu_def)
  show "cpu_wf demo" by (simp add: cpu_wf_def i d)
  show "curproc demo = Some 0" by (simp add: curproc_def t) (simp add: demo_def upd_cpu_def)
qed

lemma demo_ready [simp]: "ready l demo" "free l demo"
  by (simp_all add: ready_def free_def) (simp_all add: demo_def)

lemma demo_data [simp]:
  "procs demo = [zero_proc\<lparr>pstate := RUNNING, pid := 1\<rparr>,
       zero_proc\<lparr>pstate := ZOMBIE, pid := 2, parent := Some 0, kstack := 0x80200000\<rparr>,
       zero_proc, zero_proc, zero_proc, zero_proc, zero_proc, zero_proc, zero_proc, zero_proc]"
  "env demo = []" "use_lock demo = False" "freelist demo = 0" "nextpid demo = 3"
  by (simp_all add: demo_def upd_cpu_def)

lemma demo_table:
  "find_idx (\<lambda>p. parent p = Some 0 \<and> pstate p = ZOMBIE) (procs demo) = Some 1" "ptable_ok demo"
  by (simp_all add: ptable_ok_def zero_proc_def) (simp add: eval_nat_numeral All_less_Suc)

lemma demo_vm_frame: "vm_frame demo_vm"
  by (simp add: vm_frame_def demo_vm_def wp_simps kmem_only_def)

subsection \<open>Properties\<close>



text \<open>
  C15. \<open>wakeup\<close> makes runnable exactly the processes asleep on the channel, and changes nothing else.
\<close>

theorem wakeup_exact:
  assumes "ready PtableLock s" and "length (procs s) = NPROC"
  shows "wp (wakeup ch) (\<lambda>_ t. core t = core (s\<lparr>procs :=
    map (\<lambda>p. if pstate p = SLEEPING \<and> pchan p = ch then p\<lparr>pstate := RUNNABLE\<rparr> else p) (procs s)\<rparr>)) s"
  using wakeup_run [OF assms] by (simp add: woken_def [abs_def])

theorem wakeup_exact_witness:
  "wp (wakeup None) (\<lambda>_ t. core t = core (demo\<lparr>procs :=
    map (\<lambda>p. if pstate p = SLEEPING \<and> pchan p = None then p\<lparr>pstate := RUNNABLE\<rparr> else p) (procs demo)\<rparr>)) demo"
  by (rule wakeup_exact) simp_all





text \<open>
  C18. \<open>kill\<close> marks the first entry with the number and wakes it if it sleeps, or returns -1 and
  changes nothing when no entry has the number.
\<close>

theorem kill_spec:
  assumes "ready PtableLock s"
  shows "wp (kill n) (\<lambda>r t. case find_idx (\<lambda>p. pid p = n) (procs s) of
       None \<Rightarrow> r = - 1 \<and> core t = core s
     | Some i \<Rightarrow> r = 0 \<and> core t = core (upd_proc i (\<lambda>p. p\<lparr>killed := True,
         pstate := (if pstate p = SLEEPING then RUNNABLE else pstate p)\<rparr>) s)) s"
  using kill_run [OF assms, of n] unfolding set_killed_def [abs_def] .

theorem kill_spec_witness: "wp (kill 9) (\<lambda>r t. r = - 1 \<and> core t = core demo) demo"
  using kill_spec [of demo 9] by (simp add: zero_proc_def)

text \<open>
  C19. Number 0 is the number of every cleared entry, so \<open>kill(0)\<close> succeeds on a free entry, and the
  process that gets this entry next is born killed: \<open>allocproc\<close> does not clear the mark.
\<close>

theorem kill_zero_born_killed:
  assumes "ready PtableLock s" and "use_lock s \<longrightarrow> ready KmemLock s" and "freelist s \<noteq> 0"
    and "find_idx (\<lambda>p. pid p = 0) (procs s) = Some i" and "find_idx (\<lambda>p. pstate p = UNUSED) (procs s) = Some i"
  shows "wp (kseq (kill 0) (allocproc ks)) (\<lambda>r t. r = Some i \<and> pstate (procs t ! i) = EMBRYO \<and> killed (procs t ! i)) s"
proof -
  have i: "i < length (procs s)" "pstate (procs s ! i) = UNUSED" using find_idx_SomeD [OF assms(5)] by auto
  have "wp (allocproc ks) (\<lambda>r t. r = Some i \<and> pstate (procs t ! i) = EMBRYO \<and> killed (procs t ! i)) t"
    if t: "core t = core (upd_proc i set_killed s)" for t
  proof -
    have p: "procs t = upd i set_killed (procs s)" "freelist t = freelist s" "use_lock t = use_lock s"
      using core_eq_data(8,13,14) [OF t] by auto
    have ix: "find_idx (\<lambda>p. pstate p = UNUSED) (procs t) = Some i"
      using assms(5) i unfolding p find_idx_Some by (auto simp: set_killed_def nth_upd)
    have "wp (allocproc ks) (allocproc_post ks t) t"
      using assms(1,2) core_eq_locks(5) [OF t] p(3) by (intro allocproc_run) auto
    then show ?thesis
    proof (rule wp_conseq)
      fix r u assume "allocproc_post ks t r u"
      then have r: "r = Some i" and u: "core u = core (upd_proc i (embryo ks (nextpid t) (freelist t))
          (kalloced t\<lparr>nextpid := nextpid t + 1, ram := init_stack ks (freelist t) (ram t)\<rparr>))"
        using assms(3) ix p(2) by (simp_all add: allocproc_post_def)
      show "r = Some i \<and> pstate (procs u ! i) = EMBRYO \<and> killed (procs u ! i)"
        using r core_eq_data(8) [OF u] i by (simp add: p(1) embryo_def kalloced_def set_killed_def)
    qed
  qed
  moreover have "wp (kill 0) (\<lambda>_ t. core t = core (upd_proc i set_killed s)) s"
    using kill_run [OF assms(1), of 0] assms(4) by (auto elim!: wp_conseq)
  ultimately show ?thesis unfolding wp_seq by (blast intro: wp_conseq)
qed

theorem kill_zero_born_killed_witness:
  "wp (kseq (kill 0) (allocproc demo_syms))
     (\<lambda>r t. r = Some 2 \<and> pstate (procs t ! 2) = EMBRYO \<and> killed (procs t ! 2)) (demo\<lparr>freelist := 0x80300000\<rparr>)"
  by (rule kill_zero_born_killed) (simp_all add: zero_proc_def)

text \<open>
  C20. \<open>ageprocs\<close> moves to the round-robin queue exactly the runnable processes of the other queues
  that have not run for more than 8000 ticks, each by its own number although the lock is dropped
  around every move.
\<close>

theorem ageprocs_exact:
  assumes "ready PtableLock s" and "ptable_ok s"
  shows "wp (ageprocs osTicks) (\<lambda>_ t. core t = core (s\<lparr>procs := map (\<lambda>p.
     if pstate p = RUNNABLE \<and> queue_id (schedule_status p) \<noteq> ROUND_ROBIN
        \<and> osTicks - last_run (schedule_status p) > AGING_THRESHOLD
     then upd_sched (\<lambda>c. c\<lparr>queue_id := ROUND_ROBIN\<rparr>) p else p) (procs s)\<rparr>)) s"
  using ageprocs_run [OF assms] by (simp add: aged_def [abs_def])

theorem ageprocs_exact_witness:
  "wp (ageprocs 9000) (\<lambda>_ t. core t = core (demo\<lparr>procs := map (\<lambda>p.
     if pstate p = RUNNABLE \<and> queue_id (schedule_status p) \<noteq> ROUND_ROBIN
        \<and> 9000 - last_run (schedule_status p) > AGING_THRESHOLD
     then upd_sched (\<lambda>c. c\<lparr>queue_id := ROUND_ROBIN\<rparr>) p else p) (procs demo)\<rparr>)) demo"
  using demo_table(2) by (intro ageprocs_exact) simp_all

text \<open>
  \<open>change_queue\<close> returns the old queue of the process and moves it, or -1 when there is no such
  process; the queue UNSET stands for round robin for the first process and for last come first
  served for the others, and with UNSET a number below 1 is refused without taking the lock.
\<close>

theorem change_queue_spec:
  assumes "ready PtableLock s"
  shows "if new = UNSET \<and> n < 1 then change_queue n new s = Done (- 1) s
    else wp (change_queue n new) (\<lambda>r t. case find_idx (\<lambda>p. pid p = n) (procs s) of
       None \<Rightarrow> r = - 1 \<and> core t = core s
     | Some i \<Rightarrow> r = queue_id (schedule_status (procs s ! i))
         \<and> core t = core (upd_proc i (upd_sched (\<lambda>c. c\<lparr>queue_id :=
             (if new = UNSET then if n = 1 then ROUND_ROBIN else LCFS else new)\<rparr>)) s)) s"
proof (cases "new = UNSET \<and> n < 1")
  case True
  then show ?thesis by (simp add: change_queue_def)
next
  case False
  then have "new = UNSET \<Longrightarrow> 1 \<le> n" by simp
  from change_queue_run [OF assms this] show ?thesis by (simp only: False if_False)
qed

theorem change_queue_spec_witness:
  "change_queue 0 UNSET demo = Done (- 1) demo
   \<and> wp (change_queue 2 LCFS) (\<lambda>r t. r = 0
        \<and> core t = core (upd_proc 1 (upd_sched (\<lambda>c. c\<lparr>queue_id := LCFS\<rparr>)) demo)) demo"
  using change_queue_spec [of demo 0 0] change_queue_spec [of demo 2 2]
  by (simp add: zero_proc_def zero_sched_def)

end
