(* ===== verification/Scheduler.thy ===== *)
theory Scheduler
  imports Proc_Life
begin

section \<open>The scheduler: three queues (proc.c)\<close>

text \<open>
  Runnable processes wait in one of three queues: round robin, last come first served, best job
  first.  \<open>scheduler\<close> takes the next one of the first queue in round-robin order, else the one of
  the second that arrived last, else the one of the third with the smallest rank.

  \<open>roundrobin\<close> loops until it has come round; as a \<open>partial_function\<close> it is \<open>None\<close> where the C
  loop never ends.  Ranks and arrival times are compared as \<open>float\<close>: the comparison is the one of
  IEEE 754 single precision on bit patterns, while the arithmetic of the floating-point unit, whose
  intermediate precision the compiler chooses, is the parameter \<open>fpu\<close>.
\<close>

record fpu =
  f_of_int :: "int \<Rightarrow> f32"
  f_add :: "f32 \<Rightarrow> f32 \<Rightarrow> f32"
  f_mul :: "f32 \<Rightarrow> f32 \<Rightarrow> f32"
  f_tenth :: f32

unbundle bit_operations_syntax

definition f32_nan :: "f32 \<Rightarrow> bool" where
  "f32_nan a \<longleftrightarrow> 0x7F800000 < a AND 0x7FFFFFFF"

definition f32_key :: "f32 \<Rightarrow> int" where
  "f32_key a = (if a AND 0x80000000 = 0 then uint (a AND 0x7FFFFFFF) else - uint (a AND 0x7FFFFFFF))"

definition f32_lt :: "f32 \<Rightarrow> f32 \<Rightarrow> bool" where
  "f32_lt a b \<longleftrightarrow> \<not> f32_nan a \<and> \<not> f32_nan b \<and> f32_key a < f32_key b"

subsection \<open>Definitions\<close>

definition in_queue :: "int \<Rightarrow> proc \<Rightarrow> bool" where
  "in_queue q p \<longleftrightarrow> pstate p = RUNNABLE \<and> queue_id (schedule_status p) = q"

partial_function (option) roundrobin_loop :: "proc list \<Rightarrow> int \<Rightarrow> int \<Rightarrow> int option" where
  "roundrobin_loop ps lastScheduledIdx i =
     (let j = (if i + 1 \<ge> int NPROC then 0 else i + 1) in
      if in_queue ROUND_ROBIN (ps ! nat j) then Some j
      else if j = lastScheduledIdx then Some (- 1)
      else roundrobin_loop ps lastScheduledIdx j)"

definition roundrobin :: "proc list \<Rightarrow> int \<Rightarrow> int option" where
  "roundrobin ps lastScheduledIdx = roundrobin_loop ps lastScheduledIdx lastScheduledIdx"

definition bjfrank :: "fpu \<Rightarrow> proc \<Rightarrow> f32" where
  "bjfrank fp p =
     (let c = schedule_status p in
      f_add fp (f_add fp (f_mul fp (f_of_int fp (priority c)) (priority_ratio c))
        (f_mul fp (f_of_int fp (arrival_time c)) (arrival_time_ratio c)))
        (f_mul fp (executed_cycle c) (executed_cycle_ratio c)))"

text \<open>
  The two scans share their shape: visit the table in order, keep the index and the key of the best
  entry so far.  \<open>result\<close> is \<open>None\<close> at first, when \<open>minrank\<close> is uninitialised and not read.
\<close>

fun bestjobfirst_loop :: "fpu \<Rightarrow> proc list \<Rightarrow> nat list \<Rightarrow> (nat \<times> f32) option \<Rightarrow> (nat \<times> f32) option" where
  "bestjobfirst_loop fp ps [] result = result"
| "bestjobfirst_loop fp ps (i # is) result =
     (if \<not> in_queue BJF (ps ! i) then bestjobfirst_loop fp ps is result
      else
        let rank = bjfrank fp (ps ! i) in
        bestjobfirst_loop fp ps is
          (case result of
             None \<Rightarrow> Some (i, rank)
           | Some (r, minrank) \<Rightarrow> if f32_lt rank minrank then Some (i, rank) else result))"

definition bestjobfirst :: "fpu \<Rightarrow> proc list \<Rightarrow> nat option" where
  "bestjobfirst fp ps = map_option fst (bestjobfirst_loop fp ps [0 ..< NPROC] None)"

fun lcfs_loop :: "fpu \<Rightarrow> proc list \<Rightarrow> nat list \<Rightarrow> nat option \<Rightarrow> f32 \<Rightarrow> nat option" where
  "lcfs_loop fp ps [] resultt max_arrival_time = resultt"
| "lcfs_loop fp ps (i # is) resultt max_arrival_time =
     (if \<not> in_queue LCFS (ps ! i) then lcfs_loop fp ps is resultt max_arrival_time
      else
        let at = f_of_int fp (arrival_time (schedule_status (ps ! i))) in
        if resultt = None \<or> f32_lt max_arrival_time at
        then lcfs_loop fp ps is (Some i) at
        else lcfs_loop fp ps is resultt max_arrival_time)"

definition lcfs :: "fpu \<Rightarrow> proc list \<Rightarrow> nat option" where
  "lcfs fp ps = lcfs_loop fp ps [0 ..< NPROC] None 0"

text \<open>The choice at the head of the scheduler's loop: the process, if any, and the new cursor.\<close>

definition scheduler_pick :: "fpu \<Rightarrow> proc list \<Rightarrow> int \<Rightarrow> (nat option \<times> int) option" where
  "scheduler_pick fp ps lastScheduledIdx =
     (case roundrobin ps lastScheduledIdx of
        None \<Rightarrow> None
      | Some idx \<Rightarrow>
          if idx = - 1 then
            Some (case lcfs fp ps of
                    Some p \<Rightarrow> (Some p, lastScheduledIdx)
                  | None \<Rightarrow> (bestjobfirst fp ps, lastScheduledIdx))
          else Some (Some (nat idx), idx))"

text \<open>
  One round of the scheduler's endless loop on the processor with index \<open>c\<close>; the result is the
  cursor for the next round.  \<open>swtch\<close> runs the chosen process until it gives the processor back.
\<close>

definition scheduler_round :: "fpu \<Rightarrow> vmops \<Rightarrow> nat \<Rightarrow> int \<Rightarrow> int kern" where
  "scheduler_round fp vm c lastScheduledIdx =
     kseq sti (
     kseq (acquire PtableLock) (
     kbind (kget procs) (\<lambda>ps.
     case scheduler_pick fp ps lastScheduledIdx of
       None \<Rightarrow> kblock
     | Some (None, last') \<Rightarrow> kseq (release PtableLock) (kret last')
     | Some (Some p, last') \<Rightarrow>
         kseq (kmod (upd_cpu c (\<lambda>k. k\<lparr>cpu_proc := Some p\<rparr>))) (
         kseq (switchuvm vm p) (
         kseq (kmod (upd_proc p (\<lambda>q. q\<lparr>pstate := RUNNING\<rparr>))) (
         kseq (kmod (\<lambda>s. upd_proc p (upd_sched (\<lambda>q. q\<lparr>last_run := sint (ticks s)\<rparr>)) s)) (
         kseq (kmod (upd_proc p (upd_sched (\<lambda>q. q\<lparr>executed_cycle := f_add fp (executed_cycle q) (f_tenth fp)\<rparr>)))) (
         kseq swtch (
         kseq (switchkvm vm) (
         kseq (kmod (upd_cpu c (\<lambda>k. k\<lparr>cpu_proc := None\<rparr>))) (
         kseq (release PtableLock) (
         kret last'))))))))))))"

subsection \<open>Round robin\<close>

text \<open>The reference: the first entry of the table rotated to start after the cursor.\<close>

definition next_in_rotation :: "proc list \<Rightarrow> nat \<Rightarrow> int" where
  "next_in_rotation ps L = (case find_idx (in_queue ROUND_ROBIN) (rotate (Suc L) ps) of
     None \<Rightarrow> - 1 | Some d \<Rightarrow> int ((Suc L + d) mod NPROC))"

lemma rr_advance: "(if int ((L + k) mod NPROC) + 1 \<ge> int NPROC then 0 else int ((L + k) mod NPROC) + 1)
    = int ((Suc L + k) mod NPROC)"
  using mod_less_divisor [of NPROC "L + k"] by (simp add: mod_Suc) linarith

lemma rr_back: "L < NPROC \<Longrightarrow> k < NPROC \<Longrightarrow> (Suc L + k) mod NPROC = L \<longleftrightarrow> k = NPROC - 1"
  by (cases "Suc L + k < NPROC") (auto simp: mod_if)

lemma roundrobin_loop_rotation:
  assumes "length ps = NPROC" and "L < NPROC" and "k < NPROC"
  shows "roundrobin_loop ps (int L) (int ((L + k) mod NPROC)) =
    Some (case find_idx (in_queue ROUND_ROBIN) (drop k (rotate (Suc L) ps)) of
      None \<Rightarrow> - 1 | Some d \<Rightarrow> int ((Suc L + k + d) mod NPROC))"
  using assms(3)
proof (induction "NPROC - k" arbitrary: k rule: less_induct)
  case less
  let ?R = "rotate (Suc L) ps" and ?j = "(Suc L + k) mod NPROC"
  have R: "drop k ?R = ps ! ?j # drop (Suc k) ?R"
    using less.prems assms(1) by (simp add: Cons_nth_drop_Suc [symmetric] nth_rotate del: rotate_Suc)
  have step: "roundrobin_loop ps (int L) (int ((L + k) mod NPROC)) =
      (if in_queue ROUND_ROBIN (ps ! ?j) then Some (int ?j)
       else if k = NPROC - 1 then Some (- 1) else roundrobin_loop ps (int L) (int ?j))"
    by (subst roundrobin_loop.simps) (simp only: rr_advance Let_def nat_int of_nat_eq_iff rr_back [OF assms(2) less.prems])
  show ?case
  proof (cases "in_queue ROUND_ROBIN (ps ! ?j)")
    case False
    show ?thesis
    proof (cases "k = NPROC - 1")
      case True
      then show ?thesis using False R assms(1) unfolding step by simp
    next
      case more: False
      then have "roundrobin_loop ps (int L) (int ((L + Suc k) mod NPROC)) =
          Some (case find_idx (in_queue ROUND_ROBIN) (drop (Suc k) ?R) of
            None \<Rightarrow> - 1 | Some d \<Rightarrow> int ((Suc L + Suc k + d) mod NPROC))"
        using less.prems by (intro less.hyps) simp_all
      then show ?thesis using False more unfolding step R by (simp split: option.split)
    qed
  qed (unfold step R, simp)
qed

lemma roundrobin_rotation:
  assumes "length ps = NPROC" and "L < NPROC"
  shows "roundrobin ps (int L) = Some (next_in_rotation ps L)"
  using roundrobin_loop_rotation [OF assms, of 0] assms(2)
  by (simp add: roundrobin_def next_in_rotation_def split: option.split del: rotate_Suc)

lemma next_in_rotation_cases:
  assumes "length ps = NPROC"
  obtains (none) "next_in_rotation ps L = - 1" and "\<forall>p \<in> set ps. \<not> in_queue ROUND_ROBIN p"
  | (some) d where "d < NPROC" and "next_in_rotation ps L = int ((Suc L + d) mod NPROC)"
      and "in_queue ROUND_ROBIN (ps ! ((Suc L + d) mod NPROC))"
      and "\<And>d'. d' < d \<Longrightarrow> \<not> in_queue ROUND_ROBIN (ps ! ((Suc L + d') mod NPROC))"
proof (cases "find_idx (in_queue ROUND_ROBIN) (rotate (Suc L) ps)")
  case None
  then have "\<forall>p \<in> set ps. \<not> in_queue ROUND_ROBIN p" by (simp add: find_idx_None del: rotate_Suc)
  then show ?thesis using None none by (simp add: next_in_rotation_def del: rotate_Suc)
next
  case (Some d)
  have d: "d < NPROC" using find_idx_SomeD(1) [OF Some] assms by simp
  have nth: "rotate (Suc L) ps ! e = ps ! ((Suc L + e) mod NPROC)" if "e < NPROC" for e
    using that assms by (simp add: nth_rotate del: rotate_Suc)
  show ?thesis
    using find_idx_SomeD(2,3) [OF Some] d nth
    by (intro some [of d]) (auto simp: next_in_rotation_def Some simp del: rotate_Suc)
qed

text \<open>How many entries the cursor passes before it reaches entry \<open>j\<close>.\<close>

definition rr_distance :: "nat \<Rightarrow> nat \<Rightarrow> nat" where
  "rr_distance L j = (j + NPROC - Suc L) mod NPROC"

lemma rr_distance_reaches:
  assumes "L < NPROC" and "j < NPROC"
  shows "(Suc L + rr_distance L j) mod NPROC = j" and "rr_distance L j < NPROC"
proof -
  have "(Suc L + (j + NPROC - Suc L) mod NPROC) mod NPROC = (Suc L + (j + NPROC - Suc L)) mod NPROC"
    by (rule mod_add_right_eq)
  then show "(Suc L + rr_distance L j) mod NPROC = j" using assms by (simp add: rr_distance_def)
qed (simp add: rr_distance_def)

lemma rr_distance_if:
  "L < NPROC \<Longrightarrow> j < NPROC \<Longrightarrow> rr_distance L j = (if L < j then j - Suc L else j + NPROC - Suc L)"
  by (auto simp: rr_distance_def mod_if)

lemma rr_distance_step:
  assumes "L < NPROC" and "j < NPROC" and "d < rr_distance L j"
  shows "rr_distance ((Suc L + d) mod NPROC) j < rr_distance L j"
proof -
  have m: "(Suc L + d) mod NPROC = (if Suc L + d < NPROC then Suc L + d else Suc L + d - NPROC)"
    using assms(1) rr_distance_reaches(2) [OF assms(1,2)] assms(3) by (simp add: mod_if)
  have "(Suc L + d) mod NPROC < NPROC" by simp
  from rr_distance_if [OF this assms(2)] rr_distance_if [OF assms(1,2)] assms show ?thesis
    unfolding m by (simp split: if_splits)
qed

lemma rr_reaches:
  assumes "\<And>k. length (T k) = NPROC \<and> in_queue ROUND_ROBIN (T k ! j)" and "j < NPROC"
    and "\<And>k. L k < NPROC" and "\<And>k. roundrobin (T k) (int (L k)) = Some (int (L (Suc k)))"
  shows "\<exists>m. 1 \<le> m \<and> m \<le> Suc (rr_distance (L k) j) \<and> L (k + m) = j"
proof (induction "rr_distance (L k) j" arbitrary: k rule: less_induct)
  case less
  have nx: "next_in_rotation (T k) (L k) = int (L (Suc k))"
    using assms(4) [of k] roundrobin_rotation [of "T k" "L k"] assms(1,3) by simp
  have mine: "in_queue ROUND_ROBIN (T k ! j)" "j < length (T k)" using assms(1) [of k] assms(2) by auto
  have len: "length (T k) = NPROC" using assms(1) [of k] by simp
  show ?case
  proof (cases rule: next_in_rotation_cases [OF len, of "L k", case_names none some])
    case none
    then show ?thesis using nx by simp
  next
    case (some d)
    then have next_eq: "L (Suc k) = (Suc (L k) + d) mod NPROC" using nx by simp
    have "\<not> rr_distance (L k) j < d"
      using some(4) [of "rr_distance (L k) j"] rr_distance_reaches(1) [OF assms(3,2)] mine(1) by auto
    then consider "d = rr_distance (L k) j" | "d < rr_distance (L k) j" by linarith
    then show ?thesis
    proof cases
      case 1
      then have "L (k + 1) = j" using next_eq rr_distance_reaches(1) [OF assms(3,2)] by simp
      then show ?thesis by (intro exI [of _ 1]) simp
    next
      case 2
      then have lt: "rr_distance (L (Suc k)) j < rr_distance (L k) j"
        using rr_distance_step [OF assms(3,2)] next_eq by simp
      then obtain m where "1 \<le> m" "m \<le> Suc (rr_distance (L (Suc k)) j)" "L (Suc k + m) = j"
        using less [of "Suc k"] by blast
      then show ?thesis using lt by (intro exI [of _ "Suc m"]) simp
    qed
  qed
qed

subsection \<open>Scanning for the best entry\<close>

text \<open>
  What the two scans rely on is an order on keys.  \<open>float\<close> keys are totally preordered by \<open><\<close> as long
  as none of them is a NaN, so the laws are stated for keys that satisfy \<open>ok\<close>.  The scan keeps the
  first of the best entries.
\<close>

definition scan_step :: "('k \<Rightarrow> 'k \<Rightarrow> bool) \<Rightarrow> (nat \<Rightarrow> 'k option) \<Rightarrow> nat \<Rightarrow> (nat \<times> 'k) option \<Rightarrow> (nat \<times> 'k) option" where
  "scan_step lt key i acc = (case key i of
     None \<Rightarrow> acc
   | Some k \<Rightarrow> (case acc of None \<Rightarrow> Some (i, k) | Some (r, m) \<Rightarrow> if lt k m then Some (i, k) else acc))"

definition is_first_best :: "('k \<Rightarrow> 'k \<Rightarrow> bool) \<Rightarrow> (nat \<Rightarrow> 'k option) \<Rightarrow> nat \<Rightarrow> nat \<Rightarrow> 'k \<Rightarrow> bool" where
  "is_first_best lt key n r k \<longleftrightarrow> r < n \<and> key r = Some k
     \<and> (\<forall>i < n. \<forall>k'. key i = Some k' \<longrightarrow> \<not> lt k' k) \<and> (\<forall>i < r. \<forall>k'. key i = Some k' \<longrightarrow> lt k k')"

locale selection_order =
  fixes lt :: "'k \<Rightarrow> 'k \<Rightarrow> bool" and ok :: "'k \<Rightarrow> bool"
  assumes irrefl: "\<not> lt a a"
    and trans: "lt a b \<Longrightarrow> lt b c \<Longrightarrow> lt a c"
    and incomparable: "ok a \<Longrightarrow> ok b \<Longrightarrow> ok c \<Longrightarrow> \<not> lt a b \<Longrightarrow> \<not> lt b c \<Longrightarrow> \<not> lt a c"
begin

lemma step_first_best:
  assumes "is_first_best lt key n r k" and "\<forall>i < Suc n. \<forall>k. key i = Some k \<longrightarrow> ok k"
  shows "case scan_step lt key n (Some (r, k)) of None \<Rightarrow> False | Some (r', k') \<Rightarrow> is_first_best lt key (Suc n) r' k'"
proof (cases "key n")
  case None
  then show ?thesis using assms(1) by (auto simp: scan_step_def is_first_best_def less_Suc_eq)
next
  case (Some k0)
  note old = assms(1) [unfolded is_first_best_def]
  show ?thesis
  proof (cases "lt k0 k")
    case True
    have "\<not> lt k' k0 \<and> lt k0 k'" if "i < n" "key i = Some k'" for i k'
    proof -
      have "\<not> lt k' k" using old that by blast
      moreover have "ok k'" "ok k0" "ok k" using assms(2) Some that old by (auto simp: less_Suc_eq)
      ultimately show ?thesis using True trans [of k' k0 k] incomparable [of k0 k' k] by blast
    qed
    then have "is_first_best lt key (Suc n) n k0"
      using Some irrefl by (auto simp: is_first_best_def less_Suc_eq)
    then show ?thesis using True Some by (simp add: scan_step_def)
  next
    case False
    then have "is_first_best lt key (Suc n) r k"
      using old Some by (auto simp: is_first_best_def less_Suc_eq)
    then show ?thesis using False Some by (simp add: scan_step_def)
  qed
qed

lemma scan_first_best:
  assumes "\<forall>i < n. \<forall>k. key i = Some k \<longrightarrow> ok k"
  shows "case fold (scan_step lt key) [0 ..< n] None of
      None \<Rightarrow> \<forall>i < n. key i = None
    | Some (r, k) \<Rightarrow> is_first_best lt key n r k"
  using assms
proof (induction n)
  case (Suc n)
  have ok: "\<forall>i < n. \<forall>k. key i = Some k \<longrightarrow> ok k" using Suc.prems less_SucI by blast
  show ?case
  proof (cases "fold (scan_step lt key) [0 ..< n] None")
    case None
    then have "\<forall>i < n. key i = None" using Suc.IH [OF ok] by simp
    then show ?thesis using None irrefl
      by (cases "key n") (auto simp: scan_step_def [of lt key n] is_first_best_def less_Suc_eq)
  next
    case (Some rk)
    then show ?thesis using Suc.IH [OF ok]
        step_first_best [where key = key and n = n and r = "fst rk" and k = "snd rk", OF _ Suc.prems]
      by (cases rk) (auto split: option.splits)
  qed
qed simp

end

interpretation f32_up: selection_order f32_lt "\<lambda>a. \<not> f32_nan a"
  by unfold_locales (auto simp: f32_lt_def)

interpretation f32_down: selection_order "\<lambda>a b. f32_lt b a" "\<lambda>a. \<not> f32_nan a"
  by unfold_locales (auto simp: f32_lt_def)

definition bjf_key :: "fpu \<Rightarrow> proc list \<Rightarrow> nat \<Rightarrow> f32 option" where
  "bjf_key fp ps i = (if in_queue BJF (ps ! i) then Some (bjfrank fp (ps ! i)) else None)"

definition lcfs_key :: "fpu \<Rightarrow> proc list \<Rightarrow> nat \<Rightarrow> f32 option" where
  "lcfs_key fp ps i = (if in_queue LCFS (ps ! i)
     then Some (f_of_int fp (arrival_time (schedule_status (ps ! i)))) else None)"

lemma bestjobfirst_scan:
  "bestjobfirst_loop fp ps is acc = fold (scan_step f32_lt (bjf_key fp ps)) is acc"
  by (induction fp ps "is" acc rule: bestjobfirst_loop.induct)
     (auto simp: scan_step_def bjf_key_def Let_def split: option.splits)

lemma lcfs_scan:
  "lcfs_loop fp ps is (map_option fst acc) m
    = map_option fst (fold (scan_step (\<lambda>a b. f32_lt b a) (lcfs_key fp ps)) is acc)"
  if "\<And>r k. acc = Some (r, k) \<Longrightarrow> m = k"
  using that
proof (induction "is" arbitrary: acc m)
  case (Cons i "is")
  let ?at = "f_of_int fp (arrival_time (schedule_status (ps ! i)))"
  have IH: "lcfs_loop fp ps is (Some i) ?at
      = map_option fst (fold (scan_step (\<lambda>a b. f32_lt b a) (lcfs_key fp ps)) is (Some (i, ?at)))"
    using Cons.IH [of "Some (i, ?at)" ?at] by simp
  show ?case
    using IH Cons.IH [of acc m] Cons.prems
    by (cases acc) (auto simp: scan_step_def [of _ _ i] lcfs_key_def [of fp ps i] Let_def)
qed simp

lemma bestjobfirst_spec:
  assumes "\<And>i. i < NPROC \<Longrightarrow> \<not> f32_nan (bjfrank fp (ps ! i))"
  shows "case bestjobfirst fp ps of
      None \<Rightarrow> \<forall>i < NPROC. \<not> in_queue BJF (ps ! i)
    | Some r \<Rightarrow> is_first_best f32_lt (bjf_key fp ps) NPROC r (bjfrank fp (ps ! r))"
proof -
  have "\<forall>i < NPROC. \<forall>k. bjf_key fp ps i = Some k \<longrightarrow> \<not> f32_nan k"
    using assms by (auto simp: bjf_key_def split: if_splits)
  from f32_up.scan_first_best [where key = "bjf_key fp ps" and n = NPROC, OF this] show ?thesis
    by (auto simp: bestjobfirst_def bestjobfirst_scan bjf_key_def [of fp ps] is_first_best_def
        split: option.splits if_splits)
qed

lemma lcfs_spec:
  assumes "\<And>x. \<not> f32_nan (f_of_int fp x)"
  shows "case lcfs fp ps of
      None \<Rightarrow> \<forall>i < NPROC. \<not> in_queue LCFS (ps ! i)
    | Some r \<Rightarrow> is_first_best (\<lambda>a b. f32_lt b a) (lcfs_key fp ps) NPROC r
        (f_of_int fp (arrival_time (schedule_status (ps ! r))))"
proof -
  have "\<forall>i < NPROC. \<forall>k. lcfs_key fp ps i = Some k \<longrightarrow> \<not> f32_nan k"
    using assms by (auto simp: lcfs_key_def split: if_splits)
  from f32_down.scan_first_best [where key = "lcfs_key fp ps" and n = NPROC, OF this] show ?thesis
    using lcfs_scan [where acc = None and fp = fp and ps = ps and m = 0, of "[0 ..< NPROC]"]
    by (auto simp: lcfs_def lcfs_key_def [of fp ps] is_first_best_def split: option.splits if_splits)
qed

subsection \<open>Properties\<close>

text \<open>
  C21. \<open>roundrobin\<close> ends, and returns the first runnable round-robin process of the table read from
  just after the cursor and round to the cursor itself, or -1 when there is none.
\<close>

theorem roundrobin_is_rotation:
  assumes "length ps = NPROC" and "L < NPROC"
  shows "roundrobin ps (int L) = Some (case find_idx (in_queue ROUND_ROBIN) (rotate (Suc L) ps) of
     None \<Rightarrow> - 1 | Some d \<Rightarrow> int ((Suc L + d) mod NPROC))"
  using roundrobin_rotation [OF assms] by (simp only: next_in_rotation_def)

definition rr_demo :: "proc list" where
  "rr_demo = map (\<lambda>q. zero_proc\<lparr>pstate := RUNNABLE, schedule_status := zero_sched\<lparr>queue_id := q, arrival_time := q\<rparr>\<rparr>)
     [1, 0, 2, 3, 1, 0, 0, 0, 2, 3]"

theorem roundrobin_is_rotation_witness: "roundrobin rr_demo 4 = Some 0 \<and> roundrobin rr_demo 9 = Some 0"
  using roundrobin_is_rotation [of rr_demo 4] roundrobin_is_rotation [of rr_demo 9]
  by (simp add: rr_demo_def in_queue_def rotate_drop_take del: rotate_Suc)

text \<open>
  C22. No starvation within the round-robin queue: a process that stays runnable in it is chosen
  within \<open>NPROC\<close> choices, whatever the other processes do meanwhile.
\<close>

theorem roundrobin_no_starvation:
  assumes "\<forall>k. length (T k) = NPROC \<and> in_queue ROUND_ROBIN (T k ! j)" and "j < NPROC"
    and "\<forall>k. L k < NPROC" and "\<forall>k. roundrobin (T k) (int (L k)) = Some (int (L (Suc k)))"
  shows "\<exists>m. 1 \<le> m \<and> m \<le> NPROC \<and> L m = j"
proof -
  obtain m where "1 \<le> m" "m \<le> Suc (rr_distance (L 0) j)" "L (0 + m) = j"
    using rr_reaches [of T j L 0] assms by blast
  then show ?thesis using rr_distance_reaches(2) [of "L 0" j] assms(2,3) by fastforce
qed

theorem roundrobin_no_starvation_witness:
  "\<exists>m. 1 \<le> m \<and> m \<le> NPROC \<and> (\<lambda>k. if even k then 0 else 4) m = (4 :: nat)"
proof (rule roundrobin_no_starvation [of "\<lambda>_. rr_demo"])
  have "roundrobin rr_demo 0 = Some 4" "roundrobin rr_demo 4 = Some 0"
    using roundrobin_rotation [of rr_demo 0] roundrobin_rotation [of rr_demo 4]
    by (simp_all add: rr_demo_def in_queue_def rotate_drop_take next_in_rotation_def del: rotate_Suc)
  then show "\<forall>k. roundrobin rr_demo (int (if even k then 0 else 4)) = Some (int (if even (Suc k) then 0 else 4))"
    by simp
qed (simp_all add: rr_demo_def in_queue_def)

text \<open>
  C23. The choice of the scheduler is total, keeps strict priority between the queues and is work
  conserving: a round-robin process if there is one, else the last arrived of the second queue, else
  the best ranked of the third, and nothing only when all three queues are empty.
\<close>

theorem scheduler_pick_spec:
  assumes "length ps = NPROC" and "L < NPROC" and "\<forall>x. \<not> f32_nan (f_of_int fp x)"
    and "\<forall>p \<in> set ps. \<not> f32_nan (bjfrank fp p)"
  shows "\<exists>r L'. scheduler_pick fp ps (int L) = Some (r, int L') \<and> L' < NPROC
    \<and> (if \<exists>i < NPROC. in_queue ROUND_ROBIN (ps ! i)
       then r = Some L' \<and> in_queue ROUND_ROBIN (ps ! L')
       else L' = L \<and>
         (if \<exists>i < NPROC. in_queue LCFS (ps ! i)
          then \<exists>p. r = Some p \<and> is_first_best (\<lambda>a b. f32_lt b a) (lcfs_key fp ps) NPROC p
                 (f_of_int fp (arrival_time (schedule_status (ps ! p))))
          else if \<exists>i < NPROC. in_queue BJF (ps ! i)
          then \<exists>p. r = Some p \<and> is_first_best f32_lt (bjf_key fp ps) NPROC p (bjfrank fp (ps ! p))
          else r = None))"
proof (cases rule: next_in_rotation_cases [OF assms(1), of L, case_names none some])
  case none
  then have n: "\<not> (\<exists>i < NPROC. in_queue ROUND_ROBIN (ps ! i))" using assms(1) by auto
  have rr: "roundrobin ps (int L) = Some (- 1)" using roundrobin_rotation [OF assms(1,2)] none by simp
  have l: "case lcfs fp ps of None \<Rightarrow> \<forall>i < NPROC. \<not> in_queue LCFS (ps ! i)
      | Some r \<Rightarrow> is_first_best (\<lambda>a b. f32_lt b a) (lcfs_key fp ps) NPROC r
        (f_of_int fp (arrival_time (schedule_status (ps ! r))))"
    using assms(3) by (intro lcfs_spec) simp
  have b: "case bestjobfirst fp ps of None \<Rightarrow> \<forall>i < NPROC. \<not> in_queue BJF (ps ! i)
      | Some r \<Rightarrow> is_first_best f32_lt (bjf_key fp ps) NPROC r (bjfrank fp (ps ! r))"
    using assms(1,4) by (intro bestjobfirst_spec) simp
  have lq: "is_first_best lt (lcfs_key fp ps) NPROC r k \<Longrightarrow> \<exists>i < NPROC. in_queue LCFS (ps ! i)" for lt r k
    by (auto simp: is_first_best_def lcfs_key_def split: if_splits)
  have bq: "is_first_best lt (bjf_key fp ps) NPROC r k \<Longrightarrow> \<exists>i < NPROC. in_queue BJF (ps ! i)" for lt r k
    by (auto simp: is_first_best_def bjf_key_def split: if_splits)
  show ?thesis
  proof (cases "lcfs fp ps")
    case None
    then show ?thesis using l b bq rr n assms(2)
      by (cases "bestjobfirst fp ps") (auto simp: scheduler_pick_def)
  next
    case (Some p)
    then show ?thesis using l lq rr n assms(2) by (auto simp: scheduler_pick_def)
  qed
next
  case (some d)
  let ?j = "(Suc L + d) mod NPROC"
  have "roundrobin ps (int L) = Some (int ?j)" using roundrobin_rotation [OF assms(1,2)] some(2) by simp
  then have "scheduler_pick fp ps (int L) = Some (Some ?j, int ?j)"
    by (simp add: scheduler_pick_def)
  moreover have "\<exists>i < NPROC. in_queue ROUND_ROBIN (ps ! i)"
    using some(3) by (intro exI [of _ ?j]) simp
  ultimately show ?thesis using some(3) by auto
qed

definition demo_fpu :: fpu where
  "demo_fpu = \<lparr>f_of_int = (\<lambda>x. if x \<le> 0 then 0 else if x = 1 then 0x3F800000 else if x = 2 then 0x40000000 else 0x40400000),
     f_add = (\<lambda>a b. a), f_mul = (\<lambda>a b. a), f_tenth = 0x3DCCCCCD\<rparr>"

theorem scheduler_pick_spec_witness:
  "\<exists>r L'. scheduler_pick demo_fpu rr_demo 4 = Some (r, int L') \<and> r = Some L' \<and> in_queue ROUND_ROBIN (rr_demo ! L')"
proof -
  have "\<exists>i < NPROC. in_queue ROUND_ROBIN (rr_demo ! i)"
    by (intro exI [of _ 0]) (simp add: rr_demo_def in_queue_def)
  moreover have "\<forall>x. \<not> f32_nan (f_of_int demo_fpu x)" by (simp add: demo_fpu_def f32_nan_def)
  moreover have "\<forall>p \<in> set rr_demo. \<not> f32_nan (bjfrank demo_fpu p)"
    by (simp add: demo_fpu_def bjfrank_def f32_nan_def Let_def)
  moreover have "length rr_demo = NPROC" by (simp add: rr_demo_def)
  ultimately show ?thesis using scheduler_pick_spec [of rr_demo 4 demo_fpu] by auto
qed

end
