(* ===== verification/Sleeplock.thy ===== *)
theory Sleeplock
  imports Proc_Life
begin

section \<open>Sleeping locks (sleeplock.c)\<close>

text \<open>
  A sleeping lock is a flag and the number of the owner, protected by a spin lock.  \<open>acquiresleep\<close>
  sleeps on the lock's address until the flag is clear; its loop takes an entry of \<open>env\<close> each time
  round.  \<open>releasesleep\<close> by a process that is not the owner is ignored.
\<close>

subsection \<open>Inside a critical section\<close>

lemma myproc_nested: "cpu_wf s \<Longrightarrow> 0 < depth s \<Longrightarrow> myproc s = Done (curproc s) s"
  by (simp add: myproc_run popped_pushed)

lemma upd_slock_sect [crit_simps]:
  "core (upd_slock k f s) = upd_slock k f (core s)" "upd_slock k f (acquired l s) = acquired l (upd_slock k f s)"
  by (simp_all add: upd_slock_def core_upd acquired_upd)

lemmas sect_simps = core_upd acquired_upd [symmetric] upd_slock_sect(1) upd_slock_sect(2) [symmetric]
  upd_proc_core upd_proc_acquired [symmetric]

lemma upd_slock_fields [simp]:
  "slocks (upd_slock k f s) = (slocks s)(k := f (slocks s k))" "procs (upd_slock k f s) = procs s"
  "cpus (upd_slock k f s) = cpus s" "locks (upd_slock k f s) = locks s" "ready l (upd_slock k f s) = ready l s"
  "bcache (upd_slock k f s) = bcache s" "fsys (upd_slock k f s) = fsys s" "log (upd_slock k f s) = log s"
  "memdisk (upd_slock k f s) = memdisk s" "eflags_IF (upd_slock k f s) = eflags_IF s"
  "curproc (upd_slock k f s) = curproc s" "cpu_wf (upd_slock k f s) = cpu_wf s" "depth (upd_slock k f s) = depth s"
  by (simp_all add: upd_slock_def curproc_def cpu_wf_def depth_def this_cpu_def cpu_index_def lapicid_def)

text \<open>Seen from inside the section of \<open>l\<close>, up to bookkeeping.\<close>

lemma inside:
  assumes "core t = core (acquired l s)" and "ready l s"
  shows "cpu_wf t" and "0 < depth t" and "curproc t = curproc s" and "procs t = procs s" and "slocks t = slocks s"
    and "owns l t" and "k \<noteq> l \<Longrightarrow> ready k s \<Longrightarrow> ready k t"
proof -
  have wf: "cpu_wf s" using assms(2) by (rule ready_cpu_wf)
  note lk = core_eq_locks [OF assms(1)] and d = core_eq_data [OF assms(1)]
  show "cpu_wf t" "owns l t" using lk(1,4) wf by simp_all
  show "0 < depth t" "curproc t = curproc s" using lk(6,7) wf depth_pos [OF wf] by simp_all
  show "procs t = procs s" "slocks t = slocks s" using d(8,6) by simp_all
  show "ready k t" if "k \<noteq> l" "ready k s" using lk(5) ready_acquired [OF that(1) wf] that(2) by simp
qed

lemma wp_myproc_inside:
  assumes "core t = core (acquired l s)" and "ready l s" and "Q (curproc s) t"
  shows "wp myproc Q t"
  using inside [OF assms(1,2)] assms(3) by (simp add: wp_def myproc_nested)

lemma wp_wakeup_inside:
  assumes "core t = core (acquired l s)" and "ready l s" and "l \<noteq> PtableLock" and "ready PtableLock s"
    and "length (procs s) = NPROC"
    and "\<And>u. core u = core (acquired l (s\<lparr>procs := map (woken ch) (procs s)\<rparr>)) \<Longrightarrow> Q () u"
  shows "wp (wakeup ch) Q t"
proof (rule wp_conseq [OF wakeup_run])
  show "ready PtableLock t" using inside(7) [OF assms(1,2)] assms(3,4) by simp
  show "length (procs t) = NPROC" using inside(4) [OF assms(1,2)] assms(5) by simp
  fix x u
  assume "core u = core (t\<lparr>procs := map (woken ch) (procs t)\<rparr>)"
  then show "Q x u" using assms(1,6) inside(4) [OF assms(1,2)] by (simp add: sect_simps)
qed

lemma wp_leave:
  assumes "core t = core (acquired l s)" and "ready l s"
  shows "wp (release l) (\<lambda>_ u. core u = core s) t"
  using assms by (rule wp_release_core)

subsection \<open>Definitions\<close>

definition initsleeplock :: "slockid \<Rightarrow> string \<Rightarrow> unit kern" where
  "initsleeplock k name =
     kseq (initlock (SleepLk k) ''sleep lock'') (
     kseq (kmod (upd_slock k (\<lambda>l. l\<lparr>sl_name := name\<rparr>))) (
     kseq (kmod (upd_slock k (\<lambda>l. l\<lparr>sl_locked := False\<rparr>)))
     (kmod (upd_slock k (\<lambda>l. l\<lparr>sl_pid := 0\<rparr>)))))"

function acquiresleep_wait :: "slockid \<Rightarrow> unit kern" where
  "acquiresleep_wait k s =
     (if sl_locked (slocks s k)
      then kseq (sleep (Some (ChSleepLk k)) (Some (SleepLk k))) (acquiresleep_wait k) s
      else Done () s)"
  by pat_completeness auto
termination
  by (relation "measure (\<lambda>(k, s). length (env s))") (auto dest: env_ltD [OF env_lt_sleep])

declare acquiresleep_wait.simps [simp del]

definition acquiresleep :: "slockid \<Rightarrow> unit kern" where
  "acquiresleep k =
     kseq (acquire (SleepLk k)) (
     kseq (acquiresleep_wait k) (
     kseq (kmod (upd_slock k (\<lambda>l. l\<lparr>sl_locked := True\<rparr>))) (
     kseq (kbind myproc (\<lambda>p. deref p (\<lambda>i. kmod (\<lambda>s. upd_slock k (\<lambda>l. l\<lparr>sl_pid := pid (procs s ! i)\<rparr>) s)))) (
     release (SleepLk k)))))"

definition releasesleep :: "slockid \<Rightarrow> unit kern" where
  "releasesleep k =
     kseq (acquire (SleepLk k)) (
     kbind myproc (\<lambda>p. deref p (\<lambda>i.
     kbind (kget (\<lambda>s. (sl_pid (slocks s k), pid (procs s ! i)))) (\<lambda>(owner, me).
     if owner \<noteq> me then release (SleepLk k)
     else
       kseq (kmod (upd_slock k (\<lambda>l. l\<lparr>sl_locked := False\<rparr>))) (
       kseq (kmod (upd_slock k (\<lambda>l. l\<lparr>sl_pid := 0\<rparr>))) (
       kseq (wakeup (Some (ChSleepLk k))) (
       release (SleepLk k))))))))"

definition holdingsleep :: "slockid \<Rightarrow> bool kern" where
  "holdingsleep k =
     kseq (acquire (SleepLk k)) (
     kbind (kbind (kget (\<lambda>s. sl_locked (slocks s k))) (\<lambda>l.
       if \<not> l then kret False
       else kbind myproc (\<lambda>p. deref p (\<lambda>i. kget (\<lambda>s. sl_pid (slocks s k) = pid (procs s ! i)))))) (\<lambda>r.
     kseq (release (SleepLk k)) (
     kret r)))"

subsection \<open>Uncontended use\<close>

definition taken :: "slockid \<Rightarrow> int \<Rightarrow> kworld \<Rightarrow> kworld" where
  "taken k n = upd_slock k (\<lambda>l. l\<lparr>sl_locked := True, sl_pid := n\<rparr>)"

definition given_back :: "slockid \<Rightarrow> kworld \<Rightarrow> kworld" where
  "given_back k s = (upd_slock k (\<lambda>l. l\<lparr>sl_locked := False, sl_pid := 0\<rparr>) s)
     \<lparr>procs := map (woken (Some (ChSleepLk k))) (procs s)\<rparr>"

lemma upd_slock_upd: "upd_slock k f (upd_slock k g s) = upd_slock k (\<lambda>l. f (g l)) s"
  by (simp add: upd_slock_def)

lemma acquiresleep_run:
  assumes "ready (SleepLk k) s" and "curproc s = Some i" and "\<not> sl_locked (slocks s k)"
  shows "wp (acquiresleep k) (\<lambda>_ t. core t = core (taken k (pid (procs s ! i)) s)) s"
proof -
  let ?t = "acquired (SleepLk k) s" and ?s' = "taken k (pid (procs s ! i)) s"
  have "acquiresleep_wait k ?t = Done () ?t" using assms(3) by (simp add: acquiresleep_wait.simps)
  moreover have "myproc (upd_slock k (\<lambda>l. l\<lparr>sl_locked := True\<rparr>) ?t)
      = Done (Some i) (upd_slock k (\<lambda>l. l\<lparr>sl_locked := True\<rparr>) ?t)"
    using myproc_nested [of "upd_slock k (\<lambda>l. l\<lparr>sl_locked := True\<rparr>) ?t"] inside(1-3) [OF refl assms(1)] assms(2) by simp
  ultimately have "kseq (acquiresleep_wait k) (
     kseq (kmod (upd_slock k (\<lambda>l. l\<lparr>sl_locked := True\<rparr>)))
     (kbind myproc (\<lambda>p. deref p (\<lambda>i. kmod (\<lambda>s. upd_slock k (\<lambda>l. l\<lparr>sl_pid := pid (procs s ! i)\<rparr>) s))))) ?t
      = Done () (acquired (SleepLk k) ?s')"
    by (simp add: run_app deref_def upd_slock_upd taken_def upd_slock_sect)
  then have "wp (kseq (acquire (SleepLk k)) (kseq (kseq (acquiresleep_wait k) (
     kseq (kmod (upd_slock k (\<lambda>l. l\<lparr>sl_locked := True\<rparr>)))
     (kbind myproc (\<lambda>p. deref p (\<lambda>i. kmod (\<lambda>s. upd_slock k (\<lambda>l. l\<lparr>sl_pid := pid (procs s ! i)\<rparr>) s))))))
     (release (SleepLk k)))) (\<lambda>_ t. core t = core ?s') s"
    using assms(1) by (intro wp_section_unit) (simp_all add: taken_def)
  then show ?thesis by (simp add: acquiresleep_def kseq_assoc)
qed

lemma releasesleep_run:
  assumes "ready (SleepLk k) s" and "ready PtableLock s" and "curproc s = Some i" and "length (procs s) = NPROC"
  shows "wp (releasesleep k) (\<lambda>_ t. core t = core
    (if sl_pid (slocks s k) = pid (procs s ! i) then given_back k s else s)) s"
proof -
  let ?t = "acquired (SleepLk k) s" and ?f = "\<lambda>l. l\<lparr>sl_locked := False, sl_pid := 0\<rparr>"
  have "wp (wakeup (Some (ChSleepLk k))) (\<lambda>_. wp (release (SleepLk k)) (\<lambda>_ t. core t = core (given_back k s)))
      (upd_slock k ?f ?t)"
  proof (rule wp_wakeup_inside [where l = "SleepLk k" and s = "upd_slock k ?f s"])
    fix u
    assume "core u = core (acquired (SleepLk k) ((upd_slock k ?f s)\<lparr>procs := map (woken (Some (ChSleepLk k))) (procs (upd_slock k ?f s))\<rparr>))"
    then show "wp (release (SleepLk k)) (\<lambda>_ t. core t = core (given_back k s)) u"
      using assms(1) by (intro wp_leave [THEN wp_conseq]) (auto simp: given_back_def)
  qed (use assms in \<open>simp_all add: sect_simps\<close>)
  then show ?thesis
    using assms(1,3) inside [OF refl assms(1)] wp_leave [OF refl assms(1)]
    by (simp add: releasesleep_def wp_simps wp_acquire_ready wp_def [of myproc] myproc_nested deref_def upd_slock_upd)
qed

lemma holdingsleep_run:
  assumes "ready (SleepLk k) s" and "curproc s = Some i"
  shows "wp (holdingsleep k) (\<lambda>r t. r = (sl_locked (slocks s k) \<and> sl_pid (slocks s k) = pid (procs s ! i)) \<and> core t = core s) s"
  unfolding holdingsleep_def
  by (rule wp_section [OF assms(1), where r = "sl_locked (slocks s k) \<and> sl_pid (slocks s k) = pid (procs s ! i)"])
     (use assms inside [OF refl assms(1)] in \<open>simp_all add: run_app myproc_nested deref_def wp_simps\<close>)

subsection \<open>Contended use\<close>

text \<open>Whatever the others do, the loop ends only when the flag is clear.\<close>

lemma acquiresleep_wait_free: "acquiresleep_wait k s = Done x t \<Longrightarrow> \<not> sl_locked (slocks t k)"
proof (induction k s rule: acquiresleep_wait.induct)
  case (1 k s)
  then show ?case
    by (subst (asm) (2) acquiresleep_wait.simps) (auto simp: kseq_eq_Done split: if_splits)
qed

lemma slocks_frame:
  "myproc s = Done p t \<Longrightarrow> slocks t = slocks s \<and> procs t = procs s"
  "release l s = Done u t \<Longrightarrow> slocks t = slocks s \<and> procs t = procs s"
  by (auto simp: myproc_def release_def holding_def pushcli_def popcli_def mycpu_def cli_def sti_def kbind_eq_Done
      kseq_eq_Done upd_lock_def upd_cpu_def split: option.splits if_splits)

lemma after_sleep_slocks [simp]: "slocks (after_sleep i l ie u) = slocks u"
  "procs (after_sleep i l ie u) = upd i (\<lambda>q. q\<lparr>pchan := None\<rparr>) (procs u)"
  by (simp_all add: after_sleep_def)

lemma asleep_slocks [simp]: "slocks (asleep i ch l s) = slocks s"
  by (simp add: asleep_def)

text \<open>The rest of \<open>acquiresleep\<close>, from inside the section with the flag clear.\<close>

lemma take_inside:
  assumes "in_section i (SleepLk k) v"
  shows "wp (kseq (kmod (upd_slock k (\<lambda>l. l\<lparr>sl_locked := True\<rparr>))) (
     kseq (kbind myproc (\<lambda>p. deref p (\<lambda>i. kmod (\<lambda>s. upd_slock k (\<lambda>l. l\<lparr>sl_pid := pid (procs s ! i)\<rparr>) s)))) (
     release (SleepLk k)))) (\<lambda>_ t. slocks t = (slocks v)(k := (slocks v k)\<lparr>sl_locked := True, sl_pid := pid (procs v ! i)\<rparr>)) v"
proof -
  have v: "cpu_wf v" "curproc v = Some i" "owns (SleepLk k) v" "depth v = 1" using assms by (simp_all add: in_section_def)
  have o: "owns l (upd_slock k f v) = owns l v" for l f by (simp add: owns_def upd_slock_def this_cpu_def cpu_index_def lapicid_def)
  show ?thesis using v by (simp add: wp_simps wp_def [of myproc] myproc_nested deref_def o upd_slock_upd)
qed

subsection \<open>Properties\<close>

text \<open>
  C27. Uncontended sleeping locks: \<open>acquiresleep\<close> on a free lock makes the caller its owner and
  \<open>holdingsleep\<close> then tells so; \<open>releasesleep\<close> by the owner frees the lock and wakes exactly the
  processes asleep on it; by anyone else it changes nothing.
\<close>

theorem sleeplock_spec:
  assumes "ready (SleepLk k) s" and "ready PtableLock s" and "curproc s = Some i" and "length (procs s) = NPROC"
  shows "(\<not> sl_locked (slocks s k) \<longrightarrow> wp (acquiresleep k) (\<lambda>_ t. core t = core
      (upd_slock k (\<lambda>l. l\<lparr>sl_locked := True, sl_pid := pid (procs s ! i)\<rparr>) s)) s)
    \<and> wp (releasesleep k) (\<lambda>_ t. core t = core
      (if sl_pid (slocks s k) = pid (procs s ! i) then
         (upd_slock k (\<lambda>l. l\<lparr>sl_locked := False, sl_pid := 0\<rparr>) s)
           \<lparr>procs := map (woken (Some (ChSleepLk k))) (procs s)\<rparr> else s)) s
    \<and> wp (holdingsleep k) (\<lambda>r t. core t = core s
      \<and> r = (sl_locked (slocks s k) \<and> sl_pid (slocks s k) = pid (procs s ! i))) s"
  using acquiresleep_run [OF assms(1,3)] releasesleep_run [OF assms] holdingsleep_run [OF assms(1,3)]
  unfolding taken_def given_back_def by (simp add: conj_commute)

theorem sleeplock_spec_witness:
  "wp (acquiresleep (BufSleep 3)) (\<lambda>_ t. core t = core
      (upd_slock (BufSleep 3) (\<lambda>l. l\<lparr>sl_locked := True, sl_pid := 1\<rparr>) demo)) demo"
proof -
  have "\<not> sl_locked (slocks demo (BufSleep 3))" by (simp add: demo_def upd_cpu_def bss_def)
  then show ?thesis using sleeplock_spec [of "BufSleep 3" demo 0] by simp
qed


text \<open>
  A process that finds the lock held goes to sleep, and if it is resumed with the lock free it
  returns as the owner.
\<close>

theorem acquiresleep_handover:
  assumes "ready (SleepLk k) s" and "ready PtableLock s" and "curproc s = Some i" and "i < length (procs s)"
    and "depth s = 0" and "sl_locked (slocks s k)" and "env s = [e]"
    and "resumed i (env_apply e (asleep i (Some (ChSleepLk k)) (SleepLk k) (acquired (SleepLk k) s)\<lparr>env := []\<rparr>))"
    and "free (SleepLk k) (env_apply e (asleep i (Some (ChSleepLk k)) (SleepLk k) (acquired (SleepLk k) s)\<lparr>env := []\<rparr>))"
    and "\<not> sl_locked (slocks (env_apply e (asleep i (Some (ChSleepLk k)) (SleepLk k) (acquired (SleepLk k) s)\<lparr>env := []\<rparr>)) k)"
  shows "wp (acquiresleep k) (\<lambda>_ t. sl_locked (slocks t k) \<and> sl_pid (slocks t k) = pid (procs
    (env_apply e (asleep i (Some (ChSleepLk k)) (SleepLk k) (acquired (SleepLk k) s)\<lparr>env := []\<rparr>)) ! i)) s"
proof -
  let ?l = "SleepLk k" and ?c = "Some (ChSleepLk k)"
  let ?u = "env_apply e (asleep i ?c ?l (acquired ?l s)\<lparr>env := []\<rparr>)"
  let ?ie = "intena (cpus (asleep i ?c ?l (acquired ?l s)) ! this_cpu (asleep i ?c ?l (acquired ?l s)))"
  let ?v = "after_sleep i ?l ?ie ?u"
  have wf: "cpu_wf s" using assms(1) ready_cpu_wf by blast
  have sec: "in_section i ?l (acquired ?l s)" using assms(2-5) wf by (simp add: in_section_def ready_acquired)
  have "sleep ?c (Some ?l) (acquired ?l s) = Done () ?v"
    using sleep_returns [OF sec, of e "[]" ?c] assms(7-9) by simp
  then have "acquiresleep_wait k (acquired ?l s) = Done () ?v"
    using assms(6,10) by (subst acquiresleep_wait.simps) (simp add: acquiresleep_wait.simps)
  moreover have "in_section i ?l ?v" using assms(8,9) by (intro after_sleep_section) simp_all
  moreover have "i < length (procs ?u)" using assms(8) by (simp add: resumed_def)
  ultimately show ?thesis
    using assms(1) take_inside [of i k ?v]
    by (auto simp: acquiresleep_def wp_seq [of "acquire ?l"] wp_acquire_ready wp_seq [of "acquiresleep_wait k"]
        wp_def [of "acquiresleep_wait k"] elim!: wp_conseq)
qed

definition busy_demo :: kworld where
  "busy_demo = demo\<lparr>slocks := (\<lambda>_. \<lparr>sl_locked = True, sl_name = '''', sl_pid = 2\<rparr>),
     env := [\<lambda>s. s\<lparr>slocks := (\<lambda>_. \<lparr>sl_locked = False, sl_name = '''', sl_pid = 0\<rparr>)\<rparr>]\<rparr>"

lemma env_apply_slocks: "env_apply (\<lambda>s. s\<lparr>slocks := f\<rparr>) u = u\<lparr>slocks := f\<rparr>"
  by (simp add: env_apply_def kstate.defs kworld.defs)

lemma slocks_env_facts [simp]:
  "curproc (s\<lparr>slocks := a\<rparr>) = curproc s" "curproc (s\<lparr>env := b\<rparr>) = curproc s"
  "cpu_wf (s\<lparr>slocks := a\<rparr>) = cpu_wf s" "cpu_wf (s\<lparr>env := b\<rparr>) = cpu_wf s"
  "depth (s\<lparr>slocks := a\<rparr>) = depth s" "depth (s\<lparr>env := b\<rparr>) = depth s"
  "owns l (s\<lparr>slocks := a\<rparr>) = owns l s" "owns l (s\<lparr>env := b\<rparr>) = owns l s"
  "free l (s\<lparr>slocks := a\<rparr>) = free l s" "free l (s\<lparr>env := b\<rparr>) = free l s"
  by (simp_all add: curproc_def cpu_wf_def depth_def owns_def free_def this_cpu_def cpu_index_def lapicid_def)

lemma busy_demo_facts:
  "ready l busy_demo" "curproc busy_demo = Some 0" "depth busy_demo = 0" "procs busy_demo = procs demo"
  "slocks busy_demo k = \<lparr>sl_locked = True, sl_name = '''', sl_pid = 2\<rparr>"
  "env busy_demo = [\<lambda>s. s\<lparr>slocks := (\<lambda>_. \<lparr>sl_locked = False, sl_name = '''', sl_pid = 0\<rparr>)\<rparr>]"
  by (simp_all add: busy_demo_def)

theorem acquiresleep_handover_witness:
  "wp (acquiresleep (InodeSleep 0)) (\<lambda>_ t. sl_locked (slocks t (InodeSleep 0)) \<and> sl_pid (slocks t (InodeSleep 0)) = 1) busy_demo"
proof -
  have sec: "in_section 0 (SleepLk (InodeSleep 0)) (acquired (SleepLk (InodeSleep 0)) busy_demo)"
    using busy_demo_facts ready_cpu_wf [OF busy_demo_facts(1)] by (simp add: in_section_def ready_acquired)
  show ?thesis
    using acquiresleep_handover [of "InodeSleep 0" busy_demo 0, OF _ _ _ _ _ _ busy_demo_facts(6)]
      busy_demo_facts asleep_facts [OF sec, of "Some (ChSleepLk (InodeSleep 0))"]
    by (simp add: env_apply_slocks resumed_def)
qed


end
