(* ===== verification/Bio.thy ===== *)
theory Bio
  imports Sleeplock
begin

section \<open>The disk in memory and the buffer cache (memide.c, bio.c)\<close>

text \<open>
  The buffers form a ring through \<open>prev\<close> and \<open>next\<close>, with the most recently released next to the
  head.  Walking the ring is a \<open>partial_function\<close>, \<open>None\<close> where the walk would never end.  The disk
  driver is the one of memide.c, which keeps the disk in memory; the machine may lose power
  instead of completing a write.
\<close>

subsection \<open>Definitions: the disk\<close>

definition upd_buf :: "nat \<Rightarrow> (buf \<Rightarrow> buf) \<Rightarrow> kworld \<Rightarrow> kworld" where
  "upd_buf i f s = s\<lparr>bcache := (bcache s)\<lparr>bufs := upd i f (bufs (bcache s))\<rparr>\<rparr>"

definition ideinit :: "block list \<Rightarrow> nat \<Rightarrow> unit kern" where
  "ideinit fs_img_start fs_img_size =
     kmod (\<lambda>s. s\<lparr>memdisk := fs_img_start, disksize := fs_img_size div BSIZE\<rparr>)"

definition ideintr :: "unit kern" where
  "ideintr = kret ()"

text \<open>Completing a write uses up one unit of \<open>power\<close>; without any the machine is off.\<close>

definition disk_write :: "nat \<Rightarrow> block \<Rightarrow> unit kern" where
  "disk_write n d s = (case power s of
     None \<Rightarrow> Done () (s\<lparr>memdisk := (memdisk s)[n := d]\<rparr>)
   | Some 0 \<Rightarrow> PowerOff s
   | Some (Suc k) \<Rightarrow> Done () (s\<lparr>memdisk := (memdisk s)[n := d], power := Some k\<rparr>))"

definition iderw :: "nat \<Rightarrow> unit kern" where
  "iderw b =
     kbind (holdingsleep (BufSleep b)) (\<lambda>h.
     if \<not> h then kpanic ''iderw: buf not locked''
     else kbind (kget (\<lambda>s. bufs (bcache s) ! b)) (\<lambda>p.
     if b_valid p \<and> \<not> b_dirty p then kpanic ''iderw: nothing to do''
     else if b_dev p \<noteq> 1 then kpanic ''iderw: request not for disk 1''
     else kbind (kget disksize) (\<lambda>n.
     if unat (b_blockno p) \<ge> n then kpanic ''iderw: block out of range''
     else
       kseq (if b_dirty p
             then kseq (kmod (upd_buf b (\<lambda>p. p\<lparr>b_dirty := False\<rparr>))) (disk_write (unat (b_blockno p)) (b_data p))
             else kmod (\<lambda>s. upd_buf b (\<lambda>p. p\<lparr>b_data := memdisk s ! unat (b_blockno p)\<rparr>) s)) (
       kmod (upd_buf b (\<lambda>p. p\<lparr>b_valid := True\<rparr>))))))"

subsection \<open>Definitions: the ring\<close>

definition set_next :: "bnode \<Rightarrow> bnode \<Rightarrow> bcache \<Rightarrow> bcache" where
  "set_next n m c = c\<lparr>b_next := (b_next c)(n := m)\<rparr>"

definition set_prev :: "bnode \<Rightarrow> bnode \<Rightarrow> bcache \<Rightarrow> bcache" where
  "set_prev n m c = c\<lparr>b_prev := (b_prev c)(n := m)\<rparr>"

definition link_front :: "nat \<Rightarrow> bcache \<Rightarrow> bcache" where
  "link_front i c0 =
     (let c1 = set_next (Node i) (b_next c0 Head) c0;
          c2 = set_prev (Node i) Head c1;
          c3 = set_prev (b_next c2 Head) (Node i) c2 in
      set_next Head (Node i) c3)"

definition unlink_buf :: "nat \<Rightarrow> bcache \<Rightarrow> bcache" where
  "unlink_buf i c0 =
     (let c1 = set_prev (b_next c0 (Node i)) (b_prev c0 (Node i)) c0 in
      set_next (b_prev c1 (Node i)) (b_next c1 (Node i)) c1)"

partial_function (option) ring_walk :: "(bnode \<Rightarrow> bnode) \<Rightarrow> (nat \<Rightarrow> bool) \<Rightarrow> bnode \<Rightarrow> nat option option" where
  "ring_walk nx P n = (case n of
     Head \<Rightarrow> Some None
   | Node i \<Rightarrow> if P i then Some (Some i) else ring_walk nx P (nx (Node i)))"

definition binit :: "unit kern" where
  "binit =
     kseq (initlock BcacheLock ''bcache'') (
     kseq (kmod (\<lambda>s. s\<lparr>bcache := set_prev Head Head (bcache s)\<rparr>)) (
     kseq (kmod (\<lambda>s. s\<lparr>bcache := set_next Head Head (bcache s)\<rparr>)) (
     kfor [0 ..< NBUF] (\<lambda>i.
       kseq (initsleeplock (BufSleep i) ''buffer'')
       (kmod (\<lambda>s. s\<lparr>bcache := link_front i (bcache s)\<rparr>))))))"

subsection \<open>Definitions: the cache\<close>

definition bget :: "32 word \<Rightarrow> 32 word \<Rightarrow> nat kern" where
  "bget dev blockno =
     kseq (acquire BcacheLock) (
     kbind (kget (\<lambda>s. ring_walk (b_next (bcache s))
       (\<lambda>i. b_dev (bufs (bcache s) ! i) = dev \<and> b_blockno (bufs (bcache s) ! i) = blockno) (b_next (bcache s) Head))) (\<lambda>w.
     case w of
       None \<Rightarrow> kblock
     | Some (Some i) \<Rightarrow>
         kseq (kmod (upd_buf i (\<lambda>p. p\<lparr>b_refcnt := b_refcnt p + 1\<rparr>))) (
         kseq (release BcacheLock) (
         kseq (acquiresleep (BufSleep i)) (
         kret i)))
     | Some None \<Rightarrow>
         kbind (kget (\<lambda>s. ring_walk (b_prev (bcache s))
           (\<lambda>i. b_refcnt (bufs (bcache s) ! i) = 0 \<and> \<not> b_dirty (bufs (bcache s) ! i)) (b_prev (bcache s) Head))) (\<lambda>w.
         case w of
           None \<Rightarrow> kblock
         | Some (Some i) \<Rightarrow>
             kseq (kmod (upd_buf i (\<lambda>p. p\<lparr>b_dev := dev, b_blockno := blockno, b_valid := False, b_dirty := False, b_refcnt := 1\<rparr>))) (
             kseq (release BcacheLock) (
             kseq (acquiresleep (BufSleep i)) (
             kret i)))
         | Some None \<Rightarrow> kpanic ''bget: no buffers'')))"

definition bread :: "32 word \<Rightarrow> 32 word \<Rightarrow> nat kern" where
  "bread dev blockno =
     kbind (bget dev blockno) (\<lambda>b.
     kbind (kget (\<lambda>s. b_valid (bufs (bcache s) ! b))) (\<lambda>v.
     kseq (kwhen (\<not> v) (iderw b)) (
     kret b)))"

definition bwrite :: "nat \<Rightarrow> unit kern" where
  "bwrite b =
     kbind (holdingsleep (BufSleep b)) (\<lambda>h.
     if \<not> h then kpanic ''bwrite''
     else kseq (kmod (upd_buf b (\<lambda>p. p\<lparr>b_dirty := True\<rparr>))) (iderw b))"

definition brelse :: "nat \<Rightarrow> unit kern" where
  "brelse b =
     kbind (holdingsleep (BufSleep b)) (\<lambda>h.
     if \<not> h then kpanic ''brelse''
     else
       kseq (releasesleep (BufSleep b)) (
       kseq (acquire BcacheLock) (
       kseq (kmod (upd_buf b (\<lambda>p. p\<lparr>b_refcnt := b_refcnt p - 1\<rparr>))) (
       kseq (kmod (\<lambda>s. if b_refcnt (bufs (bcache s) ! b) = 0
                        then s\<lparr>bcache := link_front b (unlink_buf b (bcache s))\<rparr> else s)) (
       release BcacheLock)))))"

subsection \<open>The ring is a list\<close>

fun seg :: "(bnode \<Rightarrow> bnode) \<Rightarrow> bnode \<Rightarrow> nat list \<Rightarrow> bnode \<Rightarrow> bool" where
  "seg nx n [] m \<longleftrightarrow> n = m"
| "seg nx n (i # is) m \<longleftrightarrow> n = Node i \<and> seg nx (nx (Node i)) is m"

definition ring :: "bcache \<Rightarrow> nat list \<Rightarrow> bool" where
  "ring c xs \<longleftrightarrow> distinct xs \<and> seg (b_next c) (b_next c Head) xs Head \<and> seg (b_prev c) (b_prev c Head) (rev xs) Head"

lemma seg_append: "seg nx n (xs @ ys) m \<longleftrightarrow> (\<exists>k. seg nx n xs k \<and> seg nx k ys m)"
  by (induction xs arbitrary: n) auto

lemma seg_upd:
  "seg (nx(Head := b)) n xs m = seg nx n xs m"
  "i \<notin> set xs \<Longrightarrow> seg (nx(Node i := b)) n xs m = seg nx n xs m"
  "i \<notin> set xs \<Longrightarrow> seg (nx(Node i := b, Head := b')) n xs m = seg nx n xs m"
  "i \<notin> set xs \<Longrightarrow> j \<notin> set xs \<Longrightarrow> seg (nx(Node i := b, Node j := b')) n xs m = seg nx n xs m"
  by (induction xs arbitrary: n) auto

lemma seg_det: "seg nx n xs m \<Longrightarrow> seg nx n xs m' \<Longrightarrow> m = m'"
  by (induction xs arbitrary: n) auto

lemma ring_walk_seg: "seg nx n xs Head \<Longrightarrow> ring_walk nx P n = Some (find P xs)"
  by (induction xs arbitrary: n) (simp_all add: ring_walk.simps)

lemma ring_nonempty:
  assumes "ring c (as @ i # bs)"
  shows "b_next c (Node i) = (case bs of [] \<Rightarrow> Head | b # _ \<Rightarrow> Node b)"
    and "b_prev c (Node i) = (if as = [] then Head else Node (last as))"
    and "b_next c Head = (case as of [] \<Rightarrow> Node i | a # _ \<Rightarrow> Node a)"
proof -
  show "b_next c (Node i) = (case bs of [] \<Rightarrow> Head | b # _ \<Rightarrow> Node b)"
    "b_next c Head = (case as of [] \<Rightarrow> Node i | a # _ \<Rightarrow> Node a)"
    using assms by (auto simp: ring_def seg_append split: list.split)
  show "b_prev c (Node i) = (if as = [] then Head else Node (last as))"
    using assms by (cases as rule: rev_cases) (auto simp: ring_def seg_append)
qed

lemma ring_link_front:
  assumes "ring c xs" and "i \<notin> set xs"
  shows "ring (link_front i c) (i # xs)"
proof (cases xs)
  case Nil
  then show ?thesis using assms by (auto simp: ring_def link_front_def set_next_def set_prev_def Let_def)
next
  case (Cons x ys)
  then have x: "b_next c Head = Node x" using assms(1) by (simp add: ring_def)
  have d: "x \<notin> set ys" "x \<noteq> i" "i \<notin> set ys" "distinct xs" using assms Cons by (auto simp: ring_def)
  have "seg (b_prev c) (b_prev c Head) (rev ys) (Node x)"
    using assms(1) Cons by (auto simp: ring_def seg_append)
  then show ?thesis using assms Cons x d
    by (auto simp: ring_def link_front_def set_next_def set_prev_def Let_def seg_append seg_upd)
qed

lemma ring_unlink:
  assumes "ring c (as @ i # bs)"
  shows "ring (unlink_buf i c) (as @ bs)"
proof -
  have d: "distinct (as @ i # bs)" using assms by (simp add: ring_def)
  have nx: "seg (b_next c) (b_next c Head) as (Node i)" "seg (b_next c) (b_next c (Node i)) bs Head"
    and pv: "seg (b_prev c) (b_prev c Head) (rev bs) (Node i)" "seg (b_prev c) (b_prev c (Node i)) (rev as) Head"
    using assms by (auto simp: ring_def seg_append)
  note nb = ring_nonempty [OF assms]
  let ?n = "b_next c (Node i)" and ?p = "b_prev c (Node i)"
  have c': "b_next (unlink_buf i c) = (b_next c)(?p := ?n)" "b_prev (unlink_buf i c) = (b_prev c)(?n := ?p)"
    using nb d by (auto simp: unlink_buf_def set_next_def set_prev_def Let_def split: list.splits)
  have "seg (b_next (unlink_buf i c)) (b_next (unlink_buf i c) Head) (as @ bs) Head"
    using nx nb d unfolding c'
    by (cases as rule: rev_cases) (auto simp: seg_append seg_upd)
  moreover have "seg (b_prev (unlink_buf i c)) (b_prev (unlink_buf i c) Head) (rev bs @ rev as) Head"
    using pv nb d unfolding c'
    by (cases bs) (auto simp: seg_append seg_upd)
  ultimately show ?thesis using d by (auto simp: ring_def)
qed

subsection \<open>Calls from a process outside every critical section\<close>

definition calm :: "nat \<Rightarrow> kworld \<Rightarrow> bool" where
  "calm me s \<longleftrightarrow> (\<forall>l. ready l s) \<and> curproc s = Some me \<and> me < NPROC \<and> length (procs s) = NPROC
     \<and> pid (procs s ! me) \<noteq> 0"

lemma calmD:
  assumes "calm me s"
  shows "ready l s" and "cpu_wf s" and "curproc s = Some me" and "me < NPROC" and "length (procs s) = NPROC"
    and "pid (procs s ! me) \<noteq> 0"
  using assms ready_cpu_wf by (auto simp: calm_def)

lemma calm_core: "core t = core s \<Longrightarrow> calm me t = calm me s"
proof -
  assume c: "core t = core s"
  have "cpu_wf s \<Longrightarrow> curproc t = curproc s" using core_eq_locks(7) [OF c] .
  moreover have "ready l s \<Longrightarrow> cpu_wf s" for l by (rule ready_cpu_wf)
  ultimately show "calm me t = calm me s"
    using core_eq_locks(5) [OF c] core_eq_data(8) [OF c] by (auto simp: calm_def)
qed

lemma upd_buf_sect: "core (upd_buf i f s) = upd_buf i f (core s)" "acquired l (upd_buf i f s) = upd_buf i f (acquired l s)"
  by (simp_all add: upd_buf_def core_upd acquired_upd)

lemma upd_buf_fields [simp]:
  "procs (upd_buf i f s) = procs s" "slocks (upd_buf i f s) = slocks s" "memdisk (upd_buf i f s) = memdisk s"
  "bufs (bcache (upd_buf i f s)) = upd i f (bufs (bcache s))" "disksize (upd_buf i f s) = disksize s"
  "b_next (bcache (upd_buf i f s)) = b_next (bcache s)" "b_prev (bcache (upd_buf i f s)) = b_prev (bcache s)"
  "ready l (upd_buf i f s) = ready l s" "power (upd_buf i f s) = power s" "log (upd_buf i f s) = log s"
  "fsys (upd_buf i f s) = fsys s"
  by (simp_all add: upd_buf_def)

lemma curproc_data [simp]:
  "curproc (bcache_update f s) = curproc s" "curproc (memdisk_update f' s) = curproc s"
  "curproc (procs_update f'' s) = curproc s" "curproc (power_update g s) = curproc s"
  "curproc (log_update g' s) = curproc s" "curproc (fsys_update g'' s) = curproc s"
  "curproc (upd_buf i h s) = curproc s"
  by (simp_all add: curproc_def this_cpu_def cpu_index_def lapicid_def upd_buf_def)

lemma calm_upd [simp]:
  "calm me (upd_slock k f s) = calm me s" "calm me (upd_buf i g s) = calm me s"
  "calm me (bcache_update h s) = calm me s" "calm me (memdisk_update h' s) = calm me s"
  "calm me (power_update p s) = calm me s" "calm me (log_update q s) = calm me s" "calm me (fsys_update r s) = calm me s"
  by (simp_all add: calm_def)

lemma taken_facts [simp]:
  "core (taken k n s) = taken k n (core s)" "procs (taken k n s) = procs s" "bcache (taken k n s) = bcache s"
  "memdisk (taken k n s) = memdisk s" "disksize (taken k n s) = disksize s" "calm me (taken k n s) = calm me s"
  "log (taken k n s) = log s" "fsys (taken k n s) = fsys s" "power (taken k n s) = power s"
  "slocks (taken k n s) = (slocks s)(k := (slocks s k)\<lparr>sl_locked := True, sl_pid := n\<rparr>)"
  unfolding taken_def by (simp_all add: upd_slock_sect) (simp_all add: upd_slock_def)

text \<open>The sleeping-lock operations from a state known up to bookkeeping.\<close>

lemma acquiresleep_core:
  assumes "core t = core s" and "calm me s" and "\<not> sl_locked (slocks s k)"
    and "\<And>u. core u = core (taken k (pid (procs s ! me)) s) \<Longrightarrow> Q () u"
  shows "wp (acquiresleep k) Q t"
proof -
  have t: "calm me t" using calm_core [OF assms(1)] assms(2) by simp
  show ?thesis
    using acquiresleep_run [OF calmD(1,3) [OF t], of k] assms core_eq_data(6,8) [OF assms(1)]
    by (auto elim!: wp_conseq)
qed

lemma holdingsleep_core:
  assumes "core t = core s" and "calm me s"
    and "\<And>u. core u = core s \<Longrightarrow> Q (sl_locked (slocks s k) \<and> sl_pid (slocks s k) = pid (procs s ! me)) u"
  shows "wp (holdingsleep k) Q t"
proof -
  have t: "calm me t" using calm_core [OF assms(1)] assms(2) by simp
  show ?thesis
    using holdingsleep_run [OF calmD(1,3) [OF t], of k] assms core_eq_data(6,8) [OF assms(1)]
    by (auto elim!: wp_conseq)
qed

lemma given_back_core: "core t = core s \<Longrightarrow> core (given_back k t) = core (given_back k s)"
  using core_eq_data(8) [of t s] by (simp add: given_back_def core_upd upd_slock_sect)

lemma releasesleep_core:
  assumes "core t = core s" and "calm me s" and "sl_pid (slocks s k) = pid (procs s ! me)"
    and "\<And>u. core u = core (given_back k s) \<Longrightarrow> Q () u"
  shows "wp (releasesleep k) Q t"
proof -
  have t: "calm me t" using calm_core [OF assms(1)] assms(2) by simp
  show ?thesis
    using releasesleep_run [OF calmD(1,1,3,5) [OF t], of k] assms core_eq_data(6,8) [OF assms(1)] given_back_core [OF assms(1)]
    by (auto elim!: wp_conseq)
qed

text \<open>A section that only changes data.\<close>

lemma section_core:
  assumes "core t = core s" and "calm me s" and "\<And>u. core (f u) = f (core u)" and "\<And>u. f (acquired l u) = acquired l (f u)"
    and "ready l (f s)" and "\<And>u. core u = core (f s) \<Longrightarrow> Q () u"
  shows "wp (kseq (acquire l) (kseq (kmod f) (release l))) Q t"
proof -
  have t: "calm me t" using calm_core [OF assms(1)] assms(2) by simp
  have "ready l (f t)" using assms(3) [of t] assms(3) [of s] assms(1,5) core_eq_locks(5) [of "f t" "f s"] by simp
  then show ?thesis
    using calmD(1) [OF t, of l] assms(1,3,4,6)
    by (intro wp_section_unit [where s' = "f t"]) simp_all
qed

subsection \<open>Getting a buffer\<close>

definition bget_match :: "32 word \<Rightarrow> 32 word \<Rightarrow> kworld \<Rightarrow> nat \<Rightarrow> bool" where
  "bget_match dev blockno s i \<longleftrightarrow> b_dev (bufs (bcache s) ! i) = dev \<and> b_blockno (bufs (bcache s) ! i) = blockno"

definition bget_unused :: "kworld \<Rightarrow> nat \<Rightarrow> bool" where
  "bget_unused s i \<longleftrightarrow> b_refcnt (bufs (bcache s) ! i) = 0 \<and> \<not> b_dirty (bufs (bcache s) ! i)"

text \<open>With the ring read as the list \<open>xs\<close>: the cached buffer, else the least recently used one that is free.\<close>

definition bget_pick :: "32 word \<Rightarrow> 32 word \<Rightarrow> kworld \<Rightarrow> nat list \<Rightarrow> nat option" where
  "bget_pick dev blockno s xs = (case find (bget_match dev blockno s) xs of
     Some i \<Rightarrow> Some i | None \<Rightarrow> find (bget_unused s) (rev xs))"

definition bget_upd :: "32 word \<Rightarrow> 32 word \<Rightarrow> buf \<Rightarrow> buf" where
  "bget_upd dev blockno p = (if b_dev p = dev \<and> b_blockno p = blockno then p\<lparr>b_refcnt := b_refcnt p + 1\<rparr>
     else p\<lparr>b_dev := dev, b_blockno := blockno, b_valid := False, b_dirty := False, b_refcnt := 1\<rparr>)"

definition me_pid :: "nat \<Rightarrow> kworld \<Rightarrow> int" where
  "me_pid me s = pid (procs s ! me)"

lemma upd_buf_cong: "f (bufs (bcache s) ! i) = g (bufs (bcache s) ! i) \<Longrightarrow> upd_buf i f s = upd_buf i g s"
  by (simp add: upd_buf_def upd_def)

lemma bget_tail:
  assumes "calm me s" and "\<not> sl_locked (slocks s (BufSleep i))" and "f (bufs (bcache s) ! i) = bget_upd dev blockno (bufs (bcache s) ! i)"
  shows "wp (kseq (kmod (upd_buf i f)) (kseq (release BcacheLock) (kseq (acquiresleep (BufSleep i)) (kret i))))
    (\<lambda>r t. r = i \<and> core t = core (taken (BufSleep i) (me_pid me s) (upd_buf i (bget_upd dev blockno) s)))
    (acquired BcacheLock s)"
proof -
  let ?s' = "upd_buf i (bget_upd dev blockno) s"
  have eq: "upd_buf i f s = ?s'" by (rule upd_buf_cong) (rule assms(3))
  have "wp (release BcacheLock) (\<lambda>_. wp (acquiresleep (BufSleep i)) (\<lambda>_ t.
      core t = core (taken (BufSleep i) (me_pid me s) ?s'))) (acquired BcacheLock ?s')"
  proof (rule wp_release_core [OF refl])
    show "ready BcacheLock ?s'" using calmD(1) [OF assms(1)] by simp
    fix u
    assume u: "core u = core ?s'"
    show "wp (acquiresleep (BufSleep i)) (\<lambda>_ t. core t = core (taken (BufSleep i) (me_pid me s) ?s')) u"
      by (rule acquiresleep_core [OF u, of me]) (use assms in \<open>simp_all add: me_pid_def\<close>)
  qed
  then show ?thesis by (simp add: wp_simps eq upd_buf_sect(2) [symmetric])
qed

lemma find_in: "find P xs = Some x \<Longrightarrow> x \<in> set xs \<and> P x"
  by (induction xs) (auto split: if_splits)

lemma bget_run:
  assumes "calm me s" and "ring (bcache s) xs" and "bget_pick dev blockno s xs = Some i"
    and "\<not> sl_locked (slocks s (BufSleep i))"
  shows "wp (bget dev blockno) (\<lambda>r t. r = i
    \<and> core t = core (taken (BufSleep i) (me_pid me s) (upd_buf i (bget_upd dev blockno) s))) s"
proof -
  have w: "ring_walk (b_next (bcache s)) P (b_next (bcache s) Head) = Some (find P xs)"
    "ring_walk (b_prev (bcache s)) P (b_prev (bcache s) Head) = Some (find P (rev xs))" for P
    using assms(2) by (auto simp: ring_def intro: ring_walk_seg)
  show ?thesis
  proof (cases "find (bget_match dev blockno s) xs")
    case (Some j)
    then have j: "j = i" using assms(3) by (simp add: bget_pick_def)
    then have "bget_match dev blockno s i" using find_in [OF Some] by simp
    then show ?thesis
      using j Some bget_tail [OF assms(1,4), of "\<lambda>p. p\<lparr>b_refcnt := b_refcnt p + 1\<rparr>" dev blockno] calmD(1) [OF assms(1)] w(1)
      by (simp add: bget_def wp_seq [of "acquire BcacheLock"] wp_acquire_ready wp_bind wp_get bget_match_def [abs_def] bget_upd_def)
  next
    case None
    then have j: "find (bget_unused s) (rev xs) = Some i" using assms(3) by (simp add: bget_pick_def)
    have "i \<in> set xs" using find_in [OF j] by simp
    then have "\<not> bget_match dev blockno s i" using None by (simp add: find_None_iff)
    then have "(bufs (bcache s) ! i)\<lparr>b_dev := dev, b_blockno := blockno, b_valid := False, b_dirty := False, b_refcnt := 1\<rparr>
        = bget_upd dev blockno (bufs (bcache s) ! i)" by (auto simp: bget_match_def bget_upd_def)
    from bget_tail [where f = "\<lambda>p. p\<lparr>b_dev := dev, b_blockno := blockno, b_valid := False, b_dirty := False, b_refcnt := 1\<rparr>", OF assms(1,4) this] show ?thesis
      using None j calmD(1) [OF assms(1)] w
      by (simp add: bget_def wp_seq [of "acquire BcacheLock"] wp_acquire_ready wp_bind wp_get bget_match_def [abs_def]
          bget_unused_def [abs_def])
  qed
qed

lemma bget_no_buffers:
  assumes "calm me s" and "ring (bcache s) xs" and "bget_pick dev blockno s xs = None"
  shows "bget dev blockno s = Panic ''bget: no buffers''"
proof -
  have w: "ring_walk (b_next (bcache s)) P (b_next (bcache s) Head) = Some (find P xs)"
    "ring_walk (b_prev (bcache s)) P (b_prev (bcache s) Head) = Some (find P (rev xs))" for P
    using assms(2) by (auto simp: ring_def intro: ring_walk_seg)
  have "acquire BcacheLock s = Done () (acquired BcacheLock s)"
    using calmD(1) [OF assms(1), of BcacheLock] by (intro acquire_run) (simp_all add: ready_def)
  then show ?thesis using assms(3) w
    by (simp add: bget_def bget_pick_def bget_match_def [abs_def] bget_unused_def [abs_def] split: option.splits)
qed

subsection \<open>Reading, writing and releasing\<close>

text \<open>The process \<open>me\<close> holds buffer \<open>b\<close>.\<close>

definition holds :: "nat \<Rightarrow> nat \<Rightarrow> kworld \<Rightarrow> bool" where
  "holds me b s \<longleftrightarrow> sl_locked (slocks s (BufSleep b)) \<and> sl_pid (slocks s (BufSleep b)) = me_pid me s"

lemma holds_taken [simp]: "holds me b (taken (BufSleep b) (me_pid me s) s')" if "procs s' = procs s"
  using that by (simp add: holds_def me_pid_def)

lemma holds_upd [simp]: "holds me b (upd_buf i f s) = holds me b s"
  by (simp add: holds_def me_pid_def)

definition written :: "nat \<Rightarrow> block \<Rightarrow> kworld \<Rightarrow> kworld" where
  "written n d s = s\<lparr>memdisk := (memdisk s)[n := d], power := map_option (\<lambda>k. k - 1) (power s)\<rparr>"

lemma disk_write_run: "power s \<noteq> Some 0 \<Longrightarrow> disk_write n d s = Done () (written n d s)"
  by (auto simp: disk_write_def written_def split: option.split nat.split)

lemma disk_write_off: "power s = Some 0 \<Longrightarrow> disk_write n d s = PowerOff s"
  by (simp add: disk_write_def)

lemma written_core: "core (written n d s) = written n d (core s)"
  by (simp add: written_def core_upd)

lemma upd_buf_upd: "upd_buf i f (upd_buf i g s) = upd_buf i (\<lambda>p. f (g p)) s"
  by (simp add: upd_buf_def)

lemma upd_buf_written: "upd_buf i f (written n d s) = written n d (upd_buf i f s)"
  by (simp add: written_def upd_buf_def)

lemma data_core:
  assumes "core t = core s"
  shows "bcache t = bcache s" and "memdisk t = memdisk s" and "disksize t = disksize s" and "power t = power s"
    and "slocks t = slocks s" and "procs t = procs s"
  using core_eq_data(16,17,18,19,6,8) [OF assms] by blast+

lemma iderw_read:
  assumes "core t = core s" and "calm me s" and "holds me b s"
    and "\<not> b_valid (bufs (bcache s) ! b)" and "\<not> b_dirty (bufs (bcache s) ! b)" and "b_dev (bufs (bcache s) ! b) = 1"
    and "unat (b_blockno (bufs (bcache s) ! b)) < disksize s"
  shows "wp (iderw b) (\<lambda>_ u. core u = core (upd_buf b (\<lambda>p. p\<lparr>b_data := memdisk s ! unat (b_blockno p), b_valid := True\<rparr>) s)) t"
  unfolding iderw_def wp_bind
proof (rule holdingsleep_core [OF assms(1,2)])
  fix u
  assume u: "core u = core s"
  note d = data_core [OF u]
  show "wp (if \<not> (sl_locked (slocks s (BufSleep b)) \<and> sl_pid (slocks s (BufSleep b)) = pid (procs s ! me))
       then kpanic ''iderw: buf not locked''
       else kbind (kget (\<lambda>s. bufs (bcache s) ! b)) (\<lambda>p.
     if b_valid p \<and> \<not> b_dirty p then kpanic ''iderw: nothing to do''
     else if b_dev p \<noteq> 1 then kpanic ''iderw: request not for disk 1''
     else kbind (kget disksize) (\<lambda>n.
     if unat (b_blockno p) \<ge> n then kpanic ''iderw: block out of range''
     else
       kseq (if b_dirty p
             then kseq (kmod (upd_buf b (\<lambda>p. p\<lparr>b_dirty := False\<rparr>))) (disk_write (unat (b_blockno p)) (b_data p))
             else kmod (\<lambda>s. upd_buf b (\<lambda>p. p\<lparr>b_data := memdisk s ! unat (b_blockno p)\<rparr>) s)) (
       kmod (upd_buf b (\<lambda>p. p\<lparr>b_valid := True\<rparr>))))))
     (\<lambda>_ u. core u = core (upd_buf b (\<lambda>p. p\<lparr>b_data := memdisk s ! unat (b_blockno p), b_valid := True\<rparr>) s)) u"
    using assms(3-7) u d by (simp add: holds_def me_pid_def wp_simps upd_buf_upd upd_buf_sect)
qed

definition bread_upd :: "block list \<Rightarrow> 32 word \<Rightarrow> 32 word \<Rightarrow> buf \<Rightarrow> buf" where
  "bread_upd disk dev blockno p = (let p' = bget_upd dev blockno p in
     if b_valid p' then p' else p'\<lparr>b_data := disk ! unat blockno, b_valid := True\<rparr>)"

lemma taken_upd_buf: "upd_buf i f (taken k n s) = taken k n (upd_buf i f s)"
  by (simp add: upd_buf_def taken_def upd_slock_def)

lemma bread_run:
  assumes "calm me s" and "ring (bcache s) xs" and "bget_pick dev blockno s xs = Some i"
    and "\<not> sl_locked (slocks s (BufSleep i))" and "i < length (bufs (bcache s))"
    and "dev = 1" and "unat blockno < disksize s"
    and "\<not> b_valid (bufs (bcache s) ! i) \<Longrightarrow> \<not> b_dirty (bufs (bcache s) ! i)"
  shows "wp (bread dev blockno) (\<lambda>r t. r = i
    \<and> core t = core (taken (BufSleep i) (me_pid me s) (upd_buf i (bread_upd (memdisk s) dev blockno) s))) s"
proof -
  let ?s' = "taken (BufSleep i) (me_pid me s) (upd_buf i (bget_upd dev blockno) s)"
  have b: "bufs (bcache ?s') ! i = bget_upd dev blockno (bufs (bcache s) ! i)" using assms(5) by simp
  have h: "holds me i ?s'" by simp
  have "wp (kbind (kget (\<lambda>s. b_valid (bufs (bcache s) ! i))) (\<lambda>v. kseq (kwhen (\<not> v) (iderw i)) (kret i)))
     (\<lambda>r t. r = i \<and> core t = core (taken (BufSleep i) (me_pid me s) (upd_buf i (bread_upd (memdisk s) dev blockno) s))) t"
    if t: "core t = core ?s'" for t
  proof (cases "b_valid (bget_upd dev blockno (bufs (bcache s) ! i))")
    case True
    have "upd_buf i (bread_upd (memdisk s) dev blockno) s = upd_buf i (bget_upd dev blockno) s"
      using True by (intro upd_buf_cong) (simp add: bread_upd_def Let_def)
    then show ?thesis using True t b data_core(1) [OF t] by (simp add: wp_simps)
  next
    case False
    have "wp (iderw i) (\<lambda>_ u. core u = core (upd_buf i (\<lambda>p. p\<lparr>b_data := memdisk ?s' ! unat (b_blockno p), b_valid := True\<rparr>) ?s')) t"
      by (rule iderw_read [OF t _ h]) (use False assms b in \<open>auto simp: bget_upd_def\<close>)
    moreover have "upd_buf i (\<lambda>p. p\<lparr>b_data := memdisk ?s' ! unat (b_blockno p), b_valid := True\<rparr>) ?s'
        = taken (BufSleep i) (me_pid me s) (upd_buf i (bread_upd (memdisk s) dev blockno) s)"
      using False unfolding taken_upd_buf upd_buf_upd
      by (intro arg_cong [where f = "taken _ _"] upd_buf_cong) (simp add: bread_upd_def Let_def bget_upd_def)
    ultimately show ?thesis using False b data_core(1) [OF t] by (simp add: wp_simps)
  qed
  then show ?thesis unfolding bread_def wp_bind [of "bget dev blockno"]
    using bget_run [OF assms(1-4)] by (auto elim!: wp_conseq)
qed

lemma iderw_write:
  assumes "core t = core s" and "calm me s" and "holds me b s" and "b < length (bufs (bcache s))"
    and "b_dirty (bufs (bcache s) ! b)" and "b_dev (bufs (bcache s) ! b) = 1"
    and "unat (b_blockno (bufs (bcache s) ! b)) < disksize s" and "power s \<noteq> Some 0"
  shows "wp (iderw b) (\<lambda>_ u. core u = core (written (unat (b_blockno (bufs (bcache s) ! b))) (b_data (bufs (bcache s) ! b))
    (upd_buf b (\<lambda>p. p\<lparr>b_dirty := False, b_valid := True\<rparr>) s))) t"
  unfolding iderw_def wp_bind
proof (rule holdingsleep_core [OF assms(1,2)], goal_cases)
  case (1 u)
  note d = data_core [OF 1]
  have "\<not> (sl_locked (slocks s (BufSleep b)) \<longrightarrow> sl_pid (slocks s (BufSleep b)) \<noteq> pid (procs s ! me))"
    using assms(3) by (simp add: holds_def me_pid_def)
  then show ?case
    using assms(4-8) 1 d
    by (simp add: wp_simps wp_def [of "disk_write _ _"] disk_write_run upd_buf_upd upd_buf_sect upd_buf_written written_core)
qed

definition bwritten :: "nat \<Rightarrow> kworld \<Rightarrow> kworld" where
  "bwritten b s = written (unat (b_blockno (bufs (bcache s) ! b))) (b_data (bufs (bcache s) ! b))
     (upd_buf b (\<lambda>p. p\<lparr>b_dirty := False, b_valid := True\<rparr>) s)"

lemma bwrite_run:
  assumes "core t = core s" and "calm me s" and "holds me b s" and "b < length (bufs (bcache s))"
    and "b_dev (bufs (bcache s) ! b) = 1" and "unat (b_blockno (bufs (bcache s) ! b)) < disksize s" and "power s \<noteq> Some 0"
  shows "wp (bwrite b) (\<lambda>_ u. core u = core (bwritten b s)) t"
  unfolding bwrite_def wp_bind
proof (rule holdingsleep_core [OF assms(1,2)], goal_cases)
  case (1 u)
  let ?s' = "upd_buf b (\<lambda>p. p\<lparr>b_dirty := True\<rparr>) s"
  have u: "core (upd_buf b (\<lambda>p. p\<lparr>b_dirty := True\<rparr>) u) = core ?s'" using 1 by (simp add: upd_buf_sect)
  have h: "holds me b ?s'" using assms(3) by simp
  have "wp (iderw b) (\<lambda>_ v. core v = core (written (unat (b_blockno (bufs (bcache ?s') ! b))) (b_data (bufs (bcache ?s') ! b))
    (upd_buf b (\<lambda>p. p\<lparr>b_dirty := False, b_valid := True\<rparr>) ?s'))) (upd_buf b (\<lambda>p. p\<lparr>b_dirty := True\<rparr>) u)"
    by (rule iderw_write [OF u _ h]) (use assms in simp_all)
  then show ?case
    using assms(3,4) by (simp add: holds_def me_pid_def wp_simps bwritten_def upd_buf_upd)
qed

definition brelse_ring :: "nat \<Rightarrow> kworld \<Rightarrow> kworld" where
  "brelse_ring b s = (if b_refcnt (bufs (bcache s) ! b) = 0
     then s\<lparr>bcache := link_front b (unlink_buf b (bcache s))\<rparr> else s)"

definition breleased :: "nat \<Rightarrow> kworld \<Rightarrow> kworld" where
  "breleased b s = brelse_ring b (upd_buf b (\<lambda>p. p\<lparr>b_refcnt := b_refcnt p - 1\<rparr>) (given_back (BufSleep b) s))"

lemma brelse_ring_sect:
  "core (brelse_ring b s) = brelse_ring b (core s)" "brelse_ring b (acquired l s) = acquired l (brelse_ring b s)"
  "ready l (brelse_ring b s) = ready l s"
  by (simp_all add: brelse_ring_def core_upd acquired_upd)

lemma given_back_facts [simp]:
  "bcache (given_back k s) = bcache s" "calm me (given_back k s) = calm me s" "memdisk (given_back k s) = memdisk s"
  "disksize (given_back k s) = disksize s" "log (given_back k s) = log s" "fsys (given_back k s) = fsys s"
  "power (given_back k s) = power s" "ready l (given_back k s) = ready l s"
  "slocks (given_back k s) = (slocks s)(k := (slocks s k)\<lparr>sl_locked := False, sl_pid := 0\<rparr>)"
proof -
  have "pid (woken ch p) = pid p" for ch p by (simp add: woken_def)
  then show "calm me (given_back k s) = calm me s"
    by (auto simp: calm_def given_back_def)
qed (simp_all add: given_back_def upd_slock_def)

lemma brelse_run:
  assumes "core t = core s" and "calm me s" and "holds me b s"
  shows "wp (brelse b) (\<lambda>_ u. core u = core (breleased b s)) t"
  unfolding brelse_def wp_bind
proof (rule holdingsleep_core [OF assms(1,2)], goal_cases)
  case (1 u)
  let ?f = "\<lambda>s. brelse_ring b (upd_buf b (\<lambda>p. p\<lparr>b_refcnt := b_refcnt p - 1\<rparr>) s)"
  have sec: "wp (kseq (acquire BcacheLock) (kseq (kmod ?f) (release BcacheLock))) (\<lambda>_ u. core u = core (breleased b s)) v"
    if "core v = core (given_back (BufSleep b) s)" for v
    by (rule section_core [OF that, where me = me])
       (use assms(2) calmD(1) [OF assms(2)] in \<open>simp_all add: brelse_ring_sect upd_buf_sect(1) upd_buf_sect(2) [symmetric] breleased_def\<close>)
  have eq: "kseq (kmod (upd_buf b (\<lambda>p. p\<lparr>b_refcnt := b_refcnt p - 1\<rparr>))) (
       kseq (kmod (\<lambda>s. if b_refcnt (bufs (bcache s) ! b) = 0
                        then s\<lparr>bcache := link_front b (unlink_buf b (bcache s))\<rparr> else s)) (release BcacheLock))
      = kseq (kmod ?f) (release BcacheLock)"
    by (rule ext) (simp add: brelse_ring_def)
  have "wp (releasesleep (BufSleep b)) (\<lambda>_. wp (kseq (acquire BcacheLock) (kseq (kmod ?f) (release BcacheLock)))
      (\<lambda>_ u. core u = core (breleased b s))) u"
    by (rule releasesleep_core [OF 1 assms(2)]) (use assms(3) sec in \<open>simp_all add: holds_def me_pid_def\<close>)
  then show ?case using assms(3) unfolding eq
    by (simp add: holds_def me_pid_def wp_seq [of "releasesleep _"])
qed

end
