(* ===== verification/Bcache.thy ===== *)
theory Bcache
  imports Bio
begin

section \<open>What the buffer cache promises (bio.c)\<close>

text \<open>
  The invariant of the buffer cache, the view of the disk it gives to the file system, and the
  specifications of its operations in terms of that view.
\<close>

subsection \<open>The invariant of the cache\<close>

text \<open>
  The ring holds every buffer once; no block of the disk is cached twice; a buffer that nobody uses
  is unlocked and, if valid and clean, equal to its block on the disk.
\<close>

definition buf_ok :: "kworld \<Rightarrow> nat \<Rightarrow> bool" where
  "buf_ok s i \<longleftrightarrow> (let p = bufs (bcache s) ! i in
     (b_dirty p \<longrightarrow> b_valid p \<and> b_dev p = 1)
     \<and> (b_refcnt p = 0 \<longrightarrow> \<not> sl_locked (slocks s (BufSleep i))
         \<and> (b_valid p \<and> \<not> b_dirty p \<and> b_dev p = 1 \<longrightarrow> b_data p = memdisk s ! unat (b_blockno p))))"

definition keys_unique :: "buf list \<Rightarrow> bool" where
  "keys_unique bs \<longleftrightarrow> (\<forall>i < length bs. \<forall>j < length bs.
     b_dev (bs ! i) = 1 \<and> b_dev (bs ! j) = 1 \<and> b_blockno (bs ! i) = b_blockno (bs ! j) \<longrightarrow> i = j)"

definition cache_ok :: "kworld \<Rightarrow> bool" where
  "cache_ok s \<longleftrightarrow> length (bufs (bcache s)) = NBUF \<and> (\<exists>xs. ring (bcache s) xs \<and> set xs = {..< NBUF})
     \<and> disksize s = length (memdisk s) \<and> keys_unique (bufs (bcache s)) \<and> (\<forall>i < NBUF. buf_ok s i)"

lemma keys_unique_upd:
  assumes "\<And>p. b_dev (f p) = b_dev p" and "\<And>p. b_blockno (f p) = b_blockno p"
  shows "keys_unique (upd i f bs) = keys_unique bs"
proof -
  have "b_dev (upd i f bs ! j) = b_dev (bs ! j)" "b_blockno (upd i f bs ! j) = b_blockno (bs ! j)" if "j < length bs" for j
    using that assms by (simp_all add: nth_upd)
  then show ?thesis unfolding keys_unique_def by (metis length_upd)
qed

text \<open>The ring is read as one list only.\<close>

lemma seg_unique: "seg nx n xs Head \<Longrightarrow> seg nx n ys Head \<Longrightarrow> xs = ys"
proof (induction xs arbitrary: n ys)
  case Nil
  then show ?case by (cases ys) auto
next
  case (Cons x xs)
  then show ?case by (cases ys) auto
qed

lemma ring_unique: "ring c xs \<Longrightarrow> ring c ys \<Longrightarrow> xs = ys"
  by (auto simp: ring_def intro: seg_unique)

text \<open>The content of block \<open>n\<close> of disk 1 as the file system sees it.\<close>

definition caches :: "32 word \<Rightarrow> buf \<Rightarrow> bool" where
  "caches n p \<longleftrightarrow> b_dev p = 1 \<and> b_blockno p = n \<and> b_valid p"

definition blk :: "kworld \<Rightarrow> 32 word \<Rightarrow> block" where
  "blk s n = (case find_idx (caches n) (bufs (bcache s)) of
     Some i \<Rightarrow> b_data (bufs (bcache s) ! i) | None \<Rightarrow> memdisk s ! unat n)"

lemma cache_ok_core: "core t = core s \<Longrightarrow> cache_ok t = cache_ok s"
  by (simp add: cache_ok_def buf_ok_def data_core [of t s])

lemma blk_core: "core t = core s \<Longrightarrow> blk t = blk s"
  using data_core(1,2) [of t s] unfolding blk_def by (simp only:)

lemma holds_core: "core t = core s \<Longrightarrow> holds me b t = holds me b s"
  by (simp add: holds_def me_pid_def data_core [of t s])

lemma find_idx_unique:
  assumes "i < length xs" and "P (xs ! i)" and "\<And>j. j < length xs \<Longrightarrow> P (xs ! j) \<Longrightarrow> j = i"
  shows "find_idx P xs = Some i"
proof -
  have "\<not> P (xs ! j)" if "j < i" for j
  proof
    assume "P (xs ! j)"
    then have "j = i" using assms(1) that by (intro assms(3)) simp_all
    then show False using that by simp
  qed
  then show ?thesis using assms(1,2) by (simp add: find_idx_Some)
qed

lemma blk_cached:
  assumes "keys_unique (bufs (bcache s))" and "i < length (bufs (bcache s))" and "caches n (bufs (bcache s) ! i)"
  shows "blk s n = b_data (bufs (bcache s) ! i)"
proof -
  have "find_idx (caches n) (bufs (bcache s)) = Some i"
    using assms by (intro find_idx_unique) (auto simp: keys_unique_def caches_def)
  then show ?thesis by (simp add: blk_def)
qed

lemma blk_uncached:
  assumes "\<And>j. j < length (bufs (bcache s)) \<Longrightarrow> \<not> caches n (bufs (bcache s) ! j)"
  shows "blk s n = memdisk s ! unat n"
proof -
  have "find_idx (caches n) (bufs (bcache s)) = None"
    unfolding find_idx_None by (intro ballI) (metis assms in_set_conv_nth)
  then show ?thesis by (simp add: blk_def)
qed

text \<open>Replacing buffer \<open>i\<close>: the view of a block depends on it only if it shows the block before or after.\<close>

lemma blk_upd:
  assumes "keys_unique (bufs (bcache s))" and "keys_unique (bufs (bcache t))"
    and "bufs (bcache t) = upd i f (bufs (bcache s))" and "i < length (bufs (bcache s))"
    and "\<not> caches n (bufs (bcache s) ! i) \<Longrightarrow> \<not> caches n (f (bufs (bcache s) ! i)) \<Longrightarrow> memdisk t ! unat n = memdisk s ! unat n"
    and "caches n (bufs (bcache s) ! i) \<Longrightarrow> caches n (f (bufs (bcache s) ! i))
      \<Longrightarrow> b_data (f (bufs (bcache s) ! i)) = b_data (bufs (bcache s) ! i)"
    and "caches n (bufs (bcache s) ! i) \<Longrightarrow> \<not> caches n (f (bufs (bcache s) ! i))
      \<Longrightarrow> b_data (bufs (bcache s) ! i) = memdisk t ! unat n"
    and "\<not> caches n (bufs (bcache s) ! i) \<Longrightarrow> caches n (f (bufs (bcache s) ! i))
      \<Longrightarrow> b_data (f (bufs (bcache s) ! i)) = memdisk s ! unat n"
  shows "blk t n = blk s n"
proof -
  let ?p = "bufs (bcache s) ! i"
  have len: "length (bufs (bcache t)) = length (bufs (bcache s))" and ti: "bufs (bcache t) ! i = f ?p"
    and tj: "\<And>j. j \<noteq> i \<Longrightarrow> bufs (bcache t) ! j = bufs (bcache s) ! j" using assms(3,4) by simp_all
  show ?thesis
  proof (cases "\<exists>j < length (bufs (bcache s)). j \<noteq> i \<and> caches n (bufs (bcache s) ! j)")
    case True
    then obtain j where j: "j < length (bufs (bcache s))" "j \<noteq> i" "caches n (bufs (bcache s) ! j)" by blast
    then show ?thesis using blk_cached [OF assms(1) j(1,3)] blk_cached [OF assms(2), of j n] tj len by simp
  next
    case other: False
    have s0: "\<not> caches n ?p \<Longrightarrow> blk s n = memdisk s ! unat n" by (rule blk_uncached) (use other in blast)
    have t0: "\<not> caches n (f ?p) \<Longrightarrow> blk t n = memdisk t ! unat n"
      by (rule blk_uncached) (metis other len ti tj)
    have s1: "caches n ?p \<Longrightarrow> blk s n = b_data ?p" using blk_cached [OF assms(1,4)] .
    have t1: "caches n (f ?p) \<Longrightarrow> blk t n = b_data (f ?p)" using blk_cached [OF assms(2), of i n] assms(4) len ti by simp
    show ?thesis
      using s0 t0 s1 t1 assms(5-8) by (cases "caches n ?p"; cases "caches n (f ?p)") simp_all
  qed
qed

subsection \<open>The invariant is kept\<close>

text \<open>\<open>has me b n s\<close>: process \<open>me\<close> alone uses buffer \<open>b\<close>, which shows block \<open>n\<close>.\<close>

definition has :: "nat \<Rightarrow> nat \<Rightarrow> 32 word \<Rightarrow> kworld \<Rightarrow> bool" where
  "has me b n s \<longleftrightarrow> b < NBUF \<and> holds me b s \<and> caches n (bufs (bcache s) ! b) \<and> b_refcnt (bufs (bcache s) ! b) = 1"

text \<open>When \<open>bread\<close> of block \<open>n\<close> does not wait and does not panic.\<close>

definition can_read :: "32 word \<Rightarrow> kworld \<Rightarrow> bool" where
  "can_read n s \<longleftrightarrow> unat n < disksize s \<and> (\<forall>i < NBUF. bget_match 1 n s i \<longrightarrow> b_refcnt (bufs (bcache s) ! i) = 0)
     \<and> (\<exists>i < NBUF. bget_match 1 n s i \<or> bget_unused s i)"

lemma find_ex: "x \<in> set xs \<Longrightarrow> P x \<Longrightarrow> \<exists>y. find P xs = Some y"
  by (induction xs) auto

lemma pick_facts:
  assumes "cache_ok s" and "can_read n s" and "ring (bcache s) xs" and "set xs = {..< NBUF}"
  obtains i where "bget_pick 1 n s xs = Some i" and "i < NBUF" and "b_refcnt (bufs (bcache s) ! i) = 0"
    and "bget_match 1 n s i \<or> (bget_unused s i \<and> (\<forall>j < NBUF. \<not> bget_match 1 n s j))"
proof (cases "find (bget_match 1 n s) xs")
  case (Some i)
  then show ?thesis using find_in [OF Some] assms that [of i] by (auto simp: bget_pick_def can_read_def)
next
  case None
  then have none: "\<forall>j < NBUF. \<not> bget_match 1 n s j" using assms(4) by (auto simp: find_None_iff)
  then obtain k where "k < NBUF" "bget_unused s k" using assms(2) by (auto simp: can_read_def)
  then obtain i where i: "find (bget_unused s) (rev xs) = Some i" using find_ex [of k "rev xs"] assms(4) by auto
  then show ?thesis using find_in [OF i] None none assms(4) that [of i] by (auto simp: bget_pick_def bget_unused_def)
qed

definition bread_state :: "nat \<Rightarrow> 32 word \<Rightarrow> nat \<Rightarrow> kworld \<Rightarrow> kworld" where
  "bread_state me n i s = taken (BufSleep i) (me_pid me s) (upd_buf i (bread_upd (memdisk s) 1 n) s)"

lemma bread_state_ok:
  assumes "cache_ok s" and "i < NBUF" and "b_refcnt (bufs (bcache s) ! i) = 0"
    and "bget_match 1 n s i \<or> (bget_unused s i \<and> (\<forall>j < NBUF. \<not> bget_match 1 n s j))"
  shows "cache_ok (bread_state me n i s)" and "blk (bread_state me n i s) = blk s"
    and "has me i n (bread_state me n i s)"
proof -
  let ?t = "bread_state me n i s" and ?p = "bufs (bcache s) ! i" and ?f = "bread_upd (memdisk s) 1 n"
  have len: "length (bufs (bcache s)) = NBUF" and ku: "keys_unique (bufs (bcache s))" and ok: "\<And>j. j < NBUF \<Longrightarrow> buf_ok s j"
    using assms(1) by (simp_all add: cache_ok_def)
  have new: "b_dev (?f ?p) = 1" "b_blockno (?f ?p) = n" "b_valid (?f ?p)" "b_refcnt (?f ?p) = 1"
    using assms(3) by (simp_all add: bread_upd_def bget_upd_def Let_def)
  have b: "bufs (bcache ?t) = upd i ?f (bufs (bcache s))" by (simp add: bread_state_def)
  have nokey: "\<not> bget_match 1 n s j" if "j < NBUF" "j \<noteq> i" for j
    using assms(2,4) that ku len by (auto simp: bget_match_def keys_unique_def)
  have ku': "keys_unique (bufs (bcache ?t))"
    unfolding keys_unique_def b
    using ku nokey new len assms(2) by (auto simp: nth_upd keys_unique_def bget_match_def split: if_splits)
  have "buf_ok ?t j" if "j < NBUF" for j
  proof (cases "j = i")
    case True
    then show ?thesis using True new assms(2) len by (simp add: buf_ok_def b Let_def)
  next
    case False
    then show ?thesis using ok [OF that] by (simp add: buf_ok_def bread_state_def Let_def)
  qed
  then show "cache_ok ?t" using assms(1) ku' by (simp add: cache_ok_def bread_state_def ring_def)
  have "blk ?t m = blk s m" for m
  proof (rule blk_upd [OF ku ku' b])
    have u: "b_valid ?p \<and> \<not> b_dirty ?p \<and> b_dev ?p = 1 \<longrightarrow> b_data ?p = memdisk s ! unat (b_blockno ?p)"
      using ok [OF assms(2)] assms(3) by (simp add: buf_ok_def Let_def)
    show "caches m ?p \<Longrightarrow> caches m (?f ?p) \<Longrightarrow> b_data (?f ?p) = b_data ?p"
      by (auto simp: caches_def bread_upd_def bget_upd_def Let_def)
    show "caches m ?p \<Longrightarrow> \<not> caches m (?f ?p) \<Longrightarrow> b_data ?p = memdisk ?t ! unat m"
      using u assms(4) new by (auto simp: caches_def bread_state_def bget_match_def bget_unused_def)
    show "\<not> caches m ?p \<Longrightarrow> caches m (?f ?p) \<Longrightarrow> b_data (?f ?p) = memdisk s ! unat m"
      using new by (auto simp: caches_def bread_upd_def bget_upd_def Let_def split: if_splits)
  qed (use assms(2) len in \<open>simp_all add: bread_state_def\<close>)
  then show "blk ?t = blk s" by blast
  show "has me i n ?t" using new assms(2) len by (simp add: has_def caches_def bread_state_def)
qed

lemma bread_spec:
  assumes "cache_ok s" and "calm me s" and "can_read n s"
  shows "wp (bread 1 n) (\<lambda>b t. core t = core (bread_state me n b s) \<and> has me b n t \<and> cache_ok t \<and> calm me t
    \<and> blk t = blk s \<and> b_data (bufs (bcache t) ! b) = blk s n) s"
proof -
  obtain xs where xs: "ring (bcache s) xs" "set xs = {..< NBUF}" using assms(1) by (auto simp: cache_ok_def)
  obtain i where i: "bget_pick 1 n s xs = Some i" "i < NBUF" "b_refcnt (bufs (bcache s) ! i) = 0"
    "bget_match 1 n s i \<or> (bget_unused s i \<and> (\<forall>j < NBUF. \<not> bget_match 1 n s j))"
    using pick_facts [OF assms(1,3) xs] .
  have bi: "buf_ok s i" and len: "length (bufs (bcache s)) = NBUF" using assms(1) i(2) by (simp_all add: cache_ok_def)
  have "wp (bread 1 n) (\<lambda>r t. r = i \<and> core t = core (bread_state me n i s)) s"
    unfolding bread_state_def
    by (rule bread_run [OF assms(2) xs(1) i(1)]) (use bi i len assms(3) in \<open>auto simp: buf_ok_def can_read_def Let_def\<close>)
  then show ?thesis
  proof (rule wp_conseq, elim conjE)
    fix r t
    assume r: "r = i" and t: "core t = core (bread_state me n i s)"
    note st = bread_state_ok [OF assms(1) i(2-4), of me]
    have "calm me t" using calm_core [OF t] assms(2) by (simp add: bread_state_def)
    moreover have "has me i n t" using st(3) holds_core [OF t] data_core(1) [OF t] by (simp add: has_def)
    moreover have "cache_ok t" "blk t = blk s" using cache_ok_core [OF t] blk_core [OF t] st by simp_all
    moreover have "b_data (bufs (bcache t) ! i) = blk t n"
      using calculation len by (subst blk_cached [of t i n]) (simp_all add: cache_ok_def has_def)
    ultimately show "core t = core (bread_state me n r s) \<and> has me r n t \<and> cache_ok t \<and> calm me t
      \<and> blk t = blk s \<and> b_data (bufs (bcache t) ! r) = blk s n" using r t by simp
  qed
qed

text \<open>A buffer may be given back when its content is on the disk or marked dirty.\<close>

definition saved :: "nat \<Rightarrow> 32 word \<Rightarrow> kworld \<Rightarrow> bool" where
  "saved b n s \<longleftrightarrow> b_dirty (bufs (bcache s) ! b) \<or> b_data (bufs (bcache s) ! b) = memdisk s ! unat n"

lemma bufs_link [simp]:
  "bufs (link_front i c) = bufs c" "bufs (unlink_buf i c) = bufs c"
  by (simp_all add: link_front_def unlink_buf_def set_next_def set_prev_def Let_def)

lemma ring_bufs [simp]: "ring (c\<lparr>bufs := bs\<rparr>) xs = ring c xs"
  by (simp add: ring_def)

lemma bufs_breleased: "bufs (bcache (breleased b s)) = upd b (\<lambda>p. p\<lparr>b_refcnt := b_refcnt p - 1\<rparr>) (bufs (bcache s))"
  by (simp add: breleased_def brelse_ring_def)

lemma breleased_fields [simp]:
  "memdisk (breleased b s) = memdisk s" "disksize (breleased b s) = disksize s" "log (breleased b s) = log s"
  "fsys (breleased b s) = fsys s" "power (breleased b s) = power s" "calm me (breleased b s) = calm me s"
  "slocks (breleased b s) = (slocks s)(BufSleep b := (slocks s (BufSleep b))\<lparr>sl_locked := False, sl_pid := 0\<rparr>)"
  by (simp_all add: breleased_def brelse_ring_def)

lemma breleased_ring:
  assumes "ring (bcache s) (as @ b # bs)" and "b_refcnt (bufs (bcache s) ! b) = 1" and "b < length (bufs (bcache s))"
  shows "ring (bcache (breleased b s)) (b # as @ bs)"
proof -
  have "ring (unlink_buf b (bcache (upd_buf b (\<lambda>p. p\<lparr>b_refcnt := b_refcnt p - 1\<rparr>) (given_back (BufSleep b) s)))) (as @ bs)"
    using assms(1) by (intro ring_unlink) (simp add: ring_def)
  then show ?thesis
    using ring_link_front [of _ "as @ bs" b] assms by (simp add: breleased_def brelse_ring_def ring_def)
qed

lemma breleased_ok:
  assumes "cache_ok s" and "has me b n s" and "saved b n s"
  shows "cache_ok (breleased b s)" and "blk (breleased b s) = blk s"
proof -
  let ?t = "breleased b s" and ?f = "\<lambda>p. p\<lparr>b_refcnt := b_refcnt p - 1\<rparr>"
  have len: "length (bufs (bcache s)) = NBUF" and ku: "keys_unique (bufs (bcache s))" and ok: "\<And>j. j < NBUF \<Longrightarrow> buf_ok s j"
    using assms(1) by (simp_all add: cache_ok_def)
  have b: "b < NBUF" "caches n (bufs (bcache s) ! b)" "b_refcnt (bufs (bcache s) ! b) = 1"
    using assms(2) by (simp_all add: has_def)
  have ku': "keys_unique (bufs (bcache ?t))"
    using ku by (simp add: keys_unique_upd bufs_breleased)
  have "buf_ok ?t j" if "j < NBUF" for j
  proof (cases "j = b")
    case True
    then show ?thesis using b len assms(3) ok [OF that]
      by (auto simp add: buf_ok_def bufs_breleased Let_def saved_def caches_def)
  next
    case False
    then show ?thesis using ok [OF that] by (simp add: buf_ok_def bufs_breleased Let_def)
  qed
  then have oks: "\<forall>j < NBUF. buf_ok ?t j" by blast
  obtain xs where xs: "ring (bcache s) xs" "set xs = {..< NBUF}" using assms(1) by (auto simp: cache_ok_def)
  then obtain as bs where as: "xs = as @ b # bs" using b(1) split_list [of b xs] by auto
  have r: "ring (bcache ?t) (b # as @ bs)" using breleased_ring [of s as b bs] xs(1) as b len by simp
  have "set (b # as @ bs) = {..< NBUF}" using xs(2) as by auto
  with r have "\<exists>xs. ring (bcache ?t) xs \<and> set xs = {..< NBUF}" by blast
  then show "cache_ok ?t"
    using assms(1) ku' oks unfolding cache_ok_def by (simp add: bufs_breleased)
  have "blk ?t m = blk s m" for m
    by (rule blk_upd [OF ku ku' bufs_breleased]) (use b len in \<open>simp_all add: caches_def\<close>)
  then show "blk ?t = blk s" by blast
qed

lemma brelse_spec:
  assumes "cache_ok s" and "calm me s" and "has me b n s" and "saved b n s" and "core t = core s"
  shows "wp (brelse b) (\<lambda>_ u. core u = core (breleased b s) \<and> cache_ok u \<and> calm me u \<and> blk u = blk s) t"
proof (rule wp_conseq [OF brelse_run [OF assms(5,2)]])
  show "holds me b s" using assms(3) by (simp add: has_def)
  fix x u
  assume u: "core u = core (breleased b s)"
  then show "core u = core (breleased b s) \<and> cache_ok u \<and> calm me u \<and> blk u = blk s"
    using breleased_ok [OF assms(1,3,4)] cache_ok_core [OF u] blk_core [OF u] calm_core [OF u] assms(2) by simp
qed

lemma bwritten_facts [simp]:
  "bufs (bcache (bwritten b s)) = upd b (\<lambda>p. p\<lparr>b_dirty := False, b_valid := True\<rparr>) (bufs (bcache s))"
  "memdisk (bwritten b s) = (memdisk s)[unat (b_blockno (bufs (bcache s) ! b)) := b_data (bufs (bcache s) ! b)]"
  "disksize (bwritten b s) = disksize s" "slocks (bwritten b s) = slocks s" "calm me (bwritten b s) = calm me s"
  "ring (bcache (bwritten b s)) xs = ring (bcache s) xs" "procs (bwritten b s) = procs s" "log (bwritten b s) = log s"
  "power (bwritten b s) = map_option (\<lambda>k. k - 1) (power s)" "fsys (bwritten b s) = fsys s"
  by (simp_all add: bwritten_def written_def ring_def)

lemma disk_other: "m \<noteq> n \<Longrightarrow> disk[unat n := d] ! unat (m :: 32 word) = disk ! unat m"
  by (rule nth_list_update_neq) (simp add: word_unat_eq_iff)

lemma bwritten_ok:
  assumes "cache_ok s" and "has me b n s" and "unat n < disksize s"
  shows "cache_ok (bwritten b s)" and "blk (bwritten b s) = blk s" and "has me b n (bwritten b s)" and "saved b n (bwritten b s)"
proof -
  let ?t = "bwritten b s"
  have len: "length (bufs (bcache s)) = NBUF" and ku: "keys_unique (bufs (bcache s))" and ok: "\<And>j. j < NBUF \<Longrightarrow> buf_ok s j"
    using assms(1) by (simp_all add: cache_ok_def)
  have b: "b < NBUF" "caches n (bufs (bcache s) ! b)" "b_refcnt (bufs (bcache s) ! b) = 1"
    using assms(2) by (simp_all add: has_def)
  have n: "b_blockno (bufs (bcache s) ! b) = n" using b(2) by (simp add: caches_def)
  have ku': "keys_unique (bufs (bcache ?t))" using ku by (simp add: keys_unique_upd)
  have other: "b_blockno (bufs (bcache s) ! j) \<noteq> n" if "j < NBUF" "j \<noteq> b" "b_dev (bufs (bcache s) ! j) = 1" for j
    using ku that b len n by (auto simp: keys_unique_def caches_def)
  have "buf_ok ?t j" if "j < NBUF" for j
  proof (cases "j = b")
    case True
    then show ?thesis using b len by (simp add: buf_ok_def Let_def)
  next
    case False
    then show ?thesis using ok [OF that] other [OF that] n
      by (auto simp: buf_ok_def Let_def disk_other)
  qed
  then show "cache_ok ?t" using assms(1) ku' by (simp add: cache_ok_def)
  have "blk ?t m = blk s m" for m
    by (rule blk_upd [OF ku ku' bwritten_facts(1)]) (use b len n in \<open>auto simp: caches_def disk_other\<close>)
  then show "blk ?t = blk s" by blast
  show "has me b n ?t" using b len assms(2) by (simp add: has_def caches_def holds_def me_pid_def)
  show "saved b n ?t" using assms(1,3) b len n by (simp add: saved_def cache_ok_def)
qed

lemma bwrite_spec:
  assumes "cache_ok s" and "calm me s" and "has me b n s" and "unat n < disksize s" and "power s \<noteq> Some 0" and "core t = core s"
  shows "wp (bwrite b) (\<lambda>_ u. core u = core (bwritten b s) \<and> cache_ok u \<and> calm me u \<and> blk u = blk s) t"
proof (rule wp_conseq [OF bwrite_run [OF assms(6,2)]])
  have h: "holds me b s" "b < NBUF" "caches n (bufs (bcache s) ! b)" using assms(3) by (simp_all add: has_def)
  then show "holds me b s" "b < length (bufs (bcache s))" "b_dev (bufs (bcache s) ! b) = 1"
    "unat (b_blockno (bufs (bcache s) ! b)) < disksize s" "power s \<noteq> Some 0"
    using assms by (simp_all add: cache_ok_def caches_def)
  fix x u
  assume u: "core u = core (bwritten b s)"
  then show "core u = core (bwritten b s) \<and> cache_ok u \<and> calm me u \<and> blk u = blk s"
    using bwritten_ok [OF assms(1,3,4)] cache_ok_core [OF u] blk_core [OF u] calm_core [OF u] assms(2) by simp
qed

subsection \<open>Initialisation\<close>

lemma initlock_run: "initlock l nm s = Done () (upd_lock l (\<lambda>k. k\<lparr>lk_name := nm, lk_locked := False, lk_cpu := None\<rparr>) s)"
  by (simp add: initlock_def)

lemma initsleeplock_run:
  "initsleeplock k nm s = Done () (upd_slock k (\<lambda>l. l\<lparr>sl_name := nm, sl_locked := False, sl_pid := 0\<rparr>)
     (upd_lock (SleepLk k) (\<lambda>k. k\<lparr>lk_name := ''sleep lock'', lk_locked := False, lk_cpu := None\<rparr>) s))"
  by (simp add: initsleeplock_def initlock_run upd_slock_upd)

lemma binit_run:
  assumes "length (bufs (bcache s)) = NBUF"
  shows "wp binit (\<lambda>_ t. ring (bcache t) (rev [0 ..< NBUF]) \<and> bufs (bcache t) = bufs (bcache s)
    \<and> memdisk t = memdisk s \<and> disksize t = disksize s \<and> (\<forall>i < NBUF. \<not> sl_locked (slocks t (BufSleep i)))) s"
proof -
  define I where "I k t \<longleftrightarrow> ring (bcache t) (rev [0 ..< k]) \<and> bufs (bcache t) = bufs (bcache s) \<and> memdisk t = memdisk s
    \<and> disksize t = disksize s \<and> (\<forall>i < k. \<not> sl_locked (slocks t (BufSleep i)))" for k and t :: kworld
  let ?s0 = "(upd_lock BcacheLock (\<lambda>k. k\<lparr>lk_name := ''bcache'', lk_locked := False, lk_cpu := None\<rparr>) s)
    \<lparr>bcache := set_next Head Head (set_prev Head Head (bcache s))\<rparr>"
  have "wp (kfor [0 ..< NBUF] (\<lambda>i. kseq (initsleeplock (BufSleep i) ''buffer'')
       (kmod (\<lambda>s. s\<lparr>bcache := link_front i (bcache s)\<rparr>)))) (\<lambda>_. I NBUF) ?s0"
  proof (rule wp_for_upt)
    show "I 0 ?s0" by (simp add: I_def ring_def set_next_def set_prev_def upd_lock_def)
    show "wp (kseq (initsleeplock (BufSleep i) ''buffer'') (kmod (\<lambda>s. s\<lparr>bcache := link_front i (bcache s)\<rparr>)))
        (\<lambda>_. I (Suc i)) t" if "i < NBUF" "I i t" for i t
      using that ring_link_front [of "bcache t" "rev [0 ..< i]" i]
      by (auto simp: wp_simps wp_def [of "initsleeplock _ _"] initsleeplock_run I_def upd_slock_def upd_lock_def less_Suc_eq)
  qed
  then have "wp binit (\<lambda>_. I NBUF) s"
    by (simp add: binit_def wp_simps wp_def [of "initlock _ _"] initlock_run upd_lock_def)
  then show ?thesis by (rule wp_conseq) (simp add: I_def)
qed

subsection \<open>A state to exercise the theorems\<close>

definition disk_demo :: kworld where
  "disk_demo = demo\<lparr>bcache := fold link_front [0 ..< NBUF]
       \<lparr>bufs = replicate NBUF zero_buf, b_next = (\<lambda>_. Head), b_prev = (\<lambda>_. Head)\<rparr>,
     memdisk := [replicate BSIZE 1, replicate BSIZE 2, replicate BSIZE 3], disksize := 3\<rparr>"

lemma ring_fold_link: "ring (fold link_front [0 ..< k] \<lparr>bufs = bs, b_next = (\<lambda>_. Head), b_prev = (\<lambda>_. Head)\<rparr>) (rev [0 ..< k])"
  by (induction k) (simp_all add: ring_def [of "\<lparr>bufs = bs, b_next = (\<lambda>_. Head), b_prev = (\<lambda>_. Head)\<rparr>"] ring_link_front)

lemma bufs_fold_link: "bufs (fold link_front xs c) = bufs c"
  by (induction xs arbitrary: c) simp_all

lemma disk_demo_ok: "cache_ok disk_demo" "calm 0 disk_demo" "bufs (bcache disk_demo) = replicate NBUF zero_buf"
proof -
  have r: "ring (bcache disk_demo) (rev [0 ..< NBUF])"
    using ring_fold_link [of NBUF "replicate NBUF zero_buf"] by (simp add: disk_demo_def del: upt_Suc)
  show b: "bufs (bcache disk_demo) = replicate NBUF zero_buf" by (simp add: disk_demo_def bufs_fold_link)
  have "slocks disk_demo = slocks bss" "disksize disk_demo = 3" "length (memdisk disk_demo) = 3"
    by (simp_all add: disk_demo_def demo_def upd_cpu_def)
  moreover have "\<exists>xs. ring (bcache disk_demo) xs \<and> set xs = {..< NBUF}"
    using r by (intro exI [of _ "rev [0 ..< NBUF]"]) (simp add: atLeast0LessThan)
  ultimately show "cache_ok disk_demo"
    using b by (simp add: cache_ok_def keys_unique_def buf_ok_def zero_buf_def)
  have "curproc (disksize_update f s) = curproc s" for f s
    by (simp add: curproc_def this_cpu_def cpu_index_def lapicid_def)
  then show "calm 0 disk_demo" by (simp add: calm_def disk_demo_def)
qed

lemma disk_demo_can_read: "unat n < 3 \<Longrightarrow> can_read n disk_demo"
  using disk_demo_ok(3)
  by (auto simp: can_read_def bget_match_def bget_unused_def zero_buf_def intro!: exI [of _ 0]) (simp add: disk_demo_def)

subsection \<open>Properties\<close>

text \<open>
  C8. \<open>bread\<close> returns a buffer that the caller alone holds and that contains the block as the file
  system sees it, from the cache or from the disk, and it keeps the cache's invariant: no block is
  cached twice and every idle clean buffer agrees with the disk.
\<close>

theorem bread_returns_block:
  assumes "cache_ok s" and "calm me s" and "unat n < disksize s"
    and "\<forall>i < NBUF. bget_match 1 n s i \<longrightarrow> b_refcnt (bufs (bcache s) ! i) = 0"
    and "\<exists>i < NBUF. bget_match 1 n s i \<or> bget_unused s i"
  shows "wp (bread 1 n) (\<lambda>b t. b < NBUF \<and> holds me b t \<and> b_data (bufs (bcache t) ! b) = blk s n
    \<and> b_blockno (bufs (bcache t) ! b) = n \<and> cache_ok t \<and> (\<forall>m. blk t m = blk s m) \<and> memdisk t = memdisk s) s"
proof -
  have "can_read n s" using assms(3-5) by (simp add: can_read_def)
  note spec = bread_spec [OF assms(1,2) this]
  show ?thesis
  proof (rule wp_conseq [OF spec], elim conjE)
    fix b t
    assume t: "core t = core (bread_state me n b s)" and h: "has me b n t" "cache_ok t" "blk t = blk s"
    "b_data (bufs (bcache t) ! b) = blk s n"
  have "memdisk t = memdisk s" using data_core(2) [OF t] by (simp add: bread_state_def)
  then show "b < NBUF \<and> holds me b t \<and> b_data (bufs (bcache t) ! b) = blk s n
    \<and> b_blockno (bufs (bcache t) ! b) = n \<and> cache_ok t \<and> (\<forall>m. blk t m = blk s m) \<and> memdisk t = memdisk s"
    using h by (simp add: has_def caches_def)
  qed
qed

theorem bread_returns_block_witness:
  "wp (bread 1 2) (\<lambda>b t. b < NBUF \<and> holds 0 b t \<and> b_data (bufs (bcache t) ! b) = blk disk_demo 2
    \<and> b_blockno (bufs (bcache t) ! b) = 2 \<and> cache_ok t \<and> (\<forall>m. blk t m = blk disk_demo m) \<and> memdisk t = memdisk disk_demo) disk_demo"
  using disk_demo_can_read [of 2] disk_demo_ok by (intro bread_returns_block) (simp_all add: can_read_def)

text \<open>
  C9. Write through: \<open>bwrite\<close> and \<open>brelse\<close> of a held buffer put its content on the disk, change no
  other block, leave the buffer free, most recently used, and the invariant intact.
\<close>

theorem bwrite_brelse_reaches_disk:
  assumes "cache_ok s" and "calm me s" and "has me b n s" and "unat n < disksize s" and "power s = None"
    and "ring (bcache s) xs"
  shows "wp (kseq (bwrite b) (brelse b)) (\<lambda>_ t. memdisk t = (memdisk s)[unat n := b_data (bufs (bcache s) ! b)]
    \<and> (\<forall>m. blk t m = blk s m) \<and> cache_ok t \<and> b_refcnt (bufs (bcache t) ! b) = 0
    \<and> \<not> sl_locked (slocks t (BufSleep b)) \<and> ring (bcache t) (b # remove1 b xs)) s"
proof -
  have b: "b < NBUF" "caches n (bufs (bcache s) ! b)" "b_refcnt (bufs (bcache s) ! b) = 1" and len: "length (bufs (bcache s)) = NBUF"
    using assms(1,3) by (simp_all add: has_def cache_ok_def)
  note w = bwritten_ok [OF assms(1,3,4)]
  have c: "calm me (bwritten b s)" using assms(2) by simp
  obtain ys where ys: "ring (bcache s) ys" "set ys = {..< NBUF}" using assms(1) by (auto simp: cache_ok_def)
  have "ys = xs" using ys(1) assms(6) by (rule ring_unique)
  then obtain as bs where xs: "xs = as @ b # bs" using b(1) ys(2) split_list [of b xs] by auto
  have "b \<notin> set as" using assms(6) xs by (simp add: ring_def)
  then have rem: "remove1 b xs = as @ bs" by (simp add: xs remove1_append)
  have r: "ring (bcache (breleased b (bwritten b s))) (b # remove1 b xs)"
    unfolding rem using assms(6) xs b len by (intro breleased_ring) simp_all
  have n: "b_blockno (bufs (bcache s) ! b) = n" using b(2) by (simp add: caches_def)
  have "wp (bwrite b) (\<lambda>_. wp (brelse b) (\<lambda>_ u. core u = core (breleased b (bwritten b s)) \<and> cache_ok u \<and> blk u = blk s)) s"
  proof (rule wp_conseq [OF bwrite_spec [OF assms(1-4) _ refl]])
    fix x t
    assume "core t = core (bwritten b s) \<and> cache_ok t \<and> calm me t \<and> blk t = blk s"
    then show "wp (brelse b) (\<lambda>_ u. core u = core (breleased b (bwritten b s)) \<and> cache_ok u \<and> blk u = blk s) t"
      using brelse_spec [OF w(1) c w(3,4), of t] w(2) by (auto elim!: wp_conseq)
  qed (simp add: assms(5))
  then show ?thesis unfolding wp_seq
  proof (elim wp_conseq, elim conjE, intro conjI)
    fix x t y u
    assume u: "core u = core (breleased b (bwritten b s))"
    note d = data_core [OF u]
    show "memdisk u = (memdisk s)[unat n := b_data (bufs (bcache s) ! b)]" "\<not> sl_locked (slocks u (BufSleep b))"
      using d n by simp_all
    show "ring (bcache u) (b # remove1 b xs)" "b_refcnt (bufs (bcache u) ! b) = 0"
      using d r b len by (simp_all add: bufs_breleased)
  qed simp_all
qed

theorem bwrite_brelse_reaches_disk_witness:
  "wp (kseq (bwrite 0) (brelse 0)) (\<lambda>_ t. memdisk t = (memdisk (bread_state 0 1 0 disk_demo))
      [unat (1 :: 32 word) := b_data (bufs (bcache (bread_state 0 1 0 disk_demo)) ! 0)]
    \<and> (\<forall>m. blk t m = blk (bread_state 0 1 0 disk_demo) m) \<and> cache_ok t \<and> b_refcnt (bufs (bcache t) ! 0) = 0
    \<and> \<not> sl_locked (slocks t (BufSleep 0)) \<and> ring (bcache t) (0 # remove1 0 (rev [0 ..< NBUF]))) (bread_state 0 1 0 disk_demo)"
proof (rule bwrite_brelse_reaches_disk)
  have "b_refcnt (bufs (bcache disk_demo) ! 0) = 0" "bget_unused disk_demo 0" "\<forall>j < NBUF. \<not> bget_match 1 1 disk_demo j"
    by (simp_all add: disk_demo_ok bget_unused_def bget_match_def zero_buf_def)
  note st = bread_state_ok [OF disk_demo_ok(1) _ this(1), of 1 0] this
  show "cache_ok (bread_state 0 1 0 disk_demo)" "has 0 0 1 (bread_state 0 1 0 disk_demo)" using st by simp_all
  show "calm 0 (bread_state 0 1 0 disk_demo)" "unat (1 :: 32 word) < disksize (bread_state 0 1 0 disk_demo)"
    "power (bread_state 0 1 0 disk_demo) = None"
    using disk_demo_ok(2) by (simp_all add: bread_state_def) (simp_all add: disk_demo_def demo_def upd_cpu_def)
  have "ring (bcache disk_demo) (rev [0 ..< NBUF])"
    using ring_fold_link [of NBUF "replicate NBUF zero_buf"] by (simp add: disk_demo_def del: upt_Suc)
  then show "ring (bcache (bread_state 0 1 0 disk_demo)) (rev [0 ..< NBUF])" by (simp add: bread_state_def ring_def)
qed

text \<open>
  Least recently used: a block that is not cached goes into the buffer released longest ago
  among those neither in use nor waiting to be committed; when there is none, \<open>bread\<close> panics.
\<close>

theorem bread_recycles_least_recent:
  assumes "cache_ok s" and "calm me s" and "ring (bcache s) xs" and "unat n < disksize s"
    and "\<forall>i < NBUF. \<not> bget_match 1 n s i"
  shows "case find (bget_unused s) (rev xs) of
      None \<Rightarrow> bread 1 n s = Panic ''bget: no buffers''
    | Some i \<Rightarrow> wp (bread 1 n) (\<lambda>b t. b = i) s"
proof -
  obtain ys where ys: "ring (bcache s) ys" "set ys = {..< NBUF}" using assms(1) by (auto simp: cache_ok_def)
  have "ys = xs" using ys(1) assms(3) by (rule ring_unique)
  then have "find (bget_match 1 n s) xs = None" using assms(5) ys(2) by (auto simp: find_None_iff)
  then have pick: "bget_pick 1 n s xs = find (bget_unused s) (rev xs)" by (simp add: bget_pick_def)
  show ?thesis
  proof (cases "find (bget_unused s) (rev xs)")
    case None
    then show ?thesis using bget_no_buffers [OF assms(2,3)] pick by (simp add: bread_def kbind_app)
  next
    case (Some i)
    then have i: "i < NBUF" "bget_unused s i" using find_in [OF Some] ys(2) \<open>ys = xs\<close> by auto
    then have "buf_ok s i" "length (bufs (bcache s)) = NBUF" using assms(1) by (simp_all add: cache_ok_def)
    then have "wp (bread 1 n) (\<lambda>r t. r = i
        \<and> core t = core (taken (BufSleep i) (me_pid me s) (upd_buf i (bread_upd (memdisk s) 1 n) s))) s"
      using i assms(4) Some pick
      by (intro bread_run [OF assms(2,3)]) (auto simp: buf_ok_def bget_unused_def Let_def)
    then show ?thesis using Some by (auto elim!: wp_conseq)
  qed
qed

theorem bread_recycles_least_recent_witness: "wp (bread 1 2) (\<lambda>b t. b = 0) disk_demo"
proof -
  have u: "bget_unused disk_demo i" if "i < NBUF" for i using that by (simp add: disk_demo_ok bget_unused_def zero_buf_def)
  have "find (bget_unused disk_demo) (rev (rev [0 ..< NBUF])) = Some 0"
    using u [of 0] by (simp add: upt_rec)
  moreover have "ring (bcache disk_demo) (rev [0 ..< NBUF])"
    using ring_fold_link [of NBUF "replicate NBUF zero_buf"] by (simp add: disk_demo_def del: upt_Suc)
  moreover have "unat (2 :: 32 word) < disksize disk_demo" by (simp add: disk_demo_def)
  moreover have "\<forall>i < NBUF. \<not> bget_match 1 2 disk_demo i" by (simp add: disk_demo_ok bget_match_def zero_buf_def)
  ultimately show ?thesis
    using bread_recycles_least_recent [OF disk_demo_ok(1,2), of "rev [0 ..< NBUF]" 2] by simp
qed

text \<open>
  C29. \<open>binit\<close> makes one ring of all buffers and establishes the invariant of the cache on cleared
  buffers.
\<close>

theorem binit_establishes:
  assumes "bufs (bcache s) = replicate NBUF zero_buf" and "disksize s = length (memdisk s)"
  shows "wp binit (\<lambda>_ t. cache_ok t \<and> ring (bcache t) (rev [0 ..< NBUF])) s"
proof -
  have len: "length (bufs (bcache s)) = NBUF" using assms(1) by simp
  show ?thesis
  proof (rule wp_conseq [OF binit_run [OF len]], elim conjE)
    fix x and t :: kworld
  assume t: "ring (bcache t) (rev [0 ..< NBUF])" "bufs (bcache t) = bufs (bcache s)" "memdisk t = memdisk s"
    "disksize t = disksize s" "\<forall>i < NBUF. \<not> sl_locked (slocks t (BufSleep i))"
  have "\<exists>xs. ring (bcache t) xs \<and> set xs = {..< NBUF}"
    using t(1) by (intro exI [of _ "rev [0 ..< NBUF]"]) (simp add: atLeast0LessThan)
  then show "cache_ok t \<and> ring (bcache t) (rev [0 ..< NBUF])"
    using t assms by (simp add: cache_ok_def keys_unique_def buf_ok_def zero_buf_def)
  qed
qed

theorem binit_establishes_witness: "wp binit (\<lambda>_ t. cache_ok t \<and> ring (bcache t) (rev [0 ..< NBUF])) bss"
  by (rule binit_establishes) (simp_all add: bss_def)

end
