(* ===== verification/Blocks.thy ===== *)
theory Blocks
  imports Bcache
begin

section \<open>The block layer as its clients see it\<close>

text \<open>
  The log and the file system use the buffer cache through \<open>bread\<close>, \<open>bwrite\<close>, \<open>brelse\<close> and by
  changing the data of a buffer they hold.  To them the cache is a map from block numbers to
  contents (\<open>blk\<close>), the set of blocks that are pinned in the cache because they are dirty, and the
  set of buffers the running process holds.  The specifications below are in these terms.
\<close>

definition buf_data :: "nat \<Rightarrow> kworld \<Rightarrow> block" where
  "buf_data b s = b_data (bufs (bcache s) ! b)"

definition set_data :: "nat \<Rightarrow> block \<Rightarrow> kworld \<Rightarrow> kworld" where
  "set_data b d = upd_buf b (\<lambda>p. p\<lparr>b_data := d\<rparr>)"

definition dirty_blocks :: "kworld \<Rightarrow> 32 word set" where
  "dirty_blocks s = {n. \<exists>i < NBUF. caches n (bufs (bcache s) ! i) \<and> b_dirty (bufs (bcache s) ! i)}"

text \<open>Process \<open>me\<close> holds the buffers of \<open>H\<close>, with their block numbers, and nobody holds any other.\<close>

definition held :: "nat \<Rightarrow> (nat \<times> 32 word) set \<Rightarrow> kworld \<Rightarrow> bool" where
  "held me H s \<longleftrightarrow> cache_ok s \<and> calm me s \<and> (\<forall>(i, n) \<in> H. has me i n s)
     \<and> (\<forall>i < NBUF. i \<notin> fst ` H \<longrightarrow> b_refcnt (bufs (bcache s) ! i) = 0)"

text \<open>What the buffer operations never touch.\<close>

definition same_rest :: "kworld \<Rightarrow> kworld \<Rightarrow> bool" where
  "same_rest t s \<longleftrightarrow> log t = log s \<and> fsys t = fsys s \<and> disksize t = disksize s
     \<and> (\<forall>k. slocks t (InodeSleep k) = slocks s (InodeSleep k))"

lemma same_rest_refl [simp]: "same_rest s s"
  by (simp add: same_rest_def)

lemma same_rest_trans: "same_rest u t \<Longrightarrow> same_rest t s \<Longrightarrow> same_rest u s"
  by (simp add: same_rest_def)

lemma rest_core:
  assumes "core t = core s"
  shows "log t = log s" and "fsys t = fsys s" and "disksize t = disksize s" and "same_rest t s" and "power t = power s"
  using core_eq_data(20,21,18,6,19) [OF assms] by (simp_all add: same_rest_def)

lemma dirty_core: "core t = core s \<Longrightarrow> dirty_blocks t = dirty_blocks s"
  using data_core(1) [of t s] by (simp add: dirty_blocks_def)

lemma held_core: "core t = core s \<Longrightarrow> held me H t = held me H s"
  using data_core(1) [of t s] cache_ok_core [of t s] calm_core [of t s] holds_core [of t s]
  by (simp add: held_def has_def)

lemma buf_data_core: "core t = core s \<Longrightarrow> buf_data b t = buf_data b s"
  using data_core(1) [of t s] by (simp add: buf_data_def)

lemma heldD:
  assumes "held me H s"
  shows "cache_ok s" and "calm me s" and "length (bufs (bcache s)) = NBUF" and "keys_unique (bufs (bcache s))"
    and "(i, n) \<in> H \<Longrightarrow> has me i n s" and "i < NBUF \<Longrightarrow> i \<notin> fst ` H \<Longrightarrow> b_refcnt (bufs (bcache s) ! i) = 0"
  using assms by (auto simp: held_def cache_ok_def)

lemma held_data:
  assumes "held me H s" and "(i, n) \<in> H"
  shows "buf_data i s = blk s n"
  using blk_cached [OF heldD(4) [OF assms(1)], of i n] heldD(3) [OF assms(1)] heldD(5) [OF assms]
  by (simp add: buf_data_def has_def)

subsection \<open>There is a buffer to be had\<close>

lemma dirty_finite: "cache_ok s \<Longrightarrow> card {i. i < NBUF \<and> b_dirty (bufs (bcache s) ! i)} \<le> card (dirty_blocks s)"
  and dirty_blocks_finite: "finite (dirty_blocks s)"
proof -
  have "dirty_blocks s \<subseteq> (\<lambda>i. b_blockno (bufs (bcache s) ! i)) ` {..< NBUF}"
    by (auto simp: dirty_blocks_def caches_def)
  then show f: "finite (dirty_blocks s)" by (rule finite_subset) simp
  assume ok: "cache_ok s"
  let ?D = "{i. i < NBUF \<and> b_dirty (bufs (bcache s) ! i)}"
  have inj: "inj_on (\<lambda>i. b_blockno (bufs (bcache s) ! i)) ?D"
    using ok by (auto simp: inj_on_def cache_ok_def keys_unique_def buf_ok_def Let_def)
  have "(\<lambda>i. b_blockno (bufs (bcache s) ! i)) ` ?D \<subseteq> dirty_blocks s"
    using ok by (auto simp: dirty_blocks_def caches_def cache_ok_def buf_ok_def Let_def)
  then show "card ?D \<le> card (dirty_blocks s)" using card_inj_on_le [OF inj] f by blast
qed

lemma unused_exists:
  assumes "held me H s" and "finite H" and "card (dirty_blocks s) + card H < NBUF"
  shows "\<exists>i < NBUF. bget_unused s i"
proof (rule ccontr)
  assume none: "\<not> ?thesis"
  let ?D = "{i. i < NBUF \<and> b_dirty (bufs (bcache s) ! i)}"
  have "{..< NBUF} \<subseteq> fst ` H \<union> ?D"
    using none heldD(6) [OF assms(1)] by (auto simp: bget_unused_def)
  then have "card {..< NBUF} \<le> card (fst ` H \<union> ?D)" using assms(2) by (intro card_mono) simp_all
  also have "\<dots> \<le> card (fst ` H) + card ?D" by (rule card_Un_le)
  also have "\<dots> \<le> card H + card (dirty_blocks s)"
    using card_image_le [OF assms(2), of fst] dirty_finite [OF heldD(1) [OF assms(1)]] by simp
  finally show False using assms(3) by simp
qed

lemma held_can_read:
  assumes "held me H s" and "finite H" and "unat n < disksize s" and "n \<notin> snd ` H"
    and "n \<in> dirty_blocks s \<or> card (dirty_blocks s) + card H < NBUF"
  shows "can_read n s"
proof -
  have "b_refcnt (bufs (bcache s) ! i) = 0" if "i < NBUF" "bget_match 1 n s i" for i
  proof (rule heldD(6) [OF assms(1) that(1)])
    show "i \<notin> fst ` H"
    proof
      assume "i \<in> fst ` H"
      then obtain m where m: "(i, m) \<in> H" by auto
      then have "n = m" using heldD(5) [OF assms(1) m] that(2) by (simp add: bget_match_def has_def caches_def)
      then show False using m assms(4) by force
    qed
  qed
  moreover have "\<exists>i < NBUF. bget_match 1 n s i \<or> bget_unused s i"
    using assms(5) unused_exists [OF assms(1,2)] by (auto simp: dirty_blocks_def bget_match_def caches_def)
  ultimately show ?thesis using assms(3) by (auto simp: can_read_def)
qed

subsection \<open>Operations on held buffers\<close>

lemma bread_state_fields [simp]:
  "memdisk (bread_state me n i s) = memdisk s" "disksize (bread_state me n i s) = disksize s"
  "log (bread_state me n i s) = log s" "fsys (bread_state me n i s) = fsys s" "power (bread_state me n i s) = power s"
  "calm me' (bread_state me n i s) = calm me' s" "slocks (bread_state me n i s) (InodeSleep k) = slocks s (InodeSleep k)"
  by (simp_all add: bread_state_def)

lemma held_bread:
  assumes "held me H s" and "can_read n s" and "n \<notin> snd ` H"
  shows "wp (bread 1 n) (\<lambda>i t. held me (insert (i, n) H) t \<and> i \<notin> fst ` H \<and> blk t = blk s \<and> memdisk t = memdisk s
    \<and> dirty_blocks t = dirty_blocks s \<and> power t = power s \<and> same_rest t s) s"
proof -
  obtain xs where xs: "ring (bcache s) xs" "set xs = {..< NBUF}" using heldD(1) [OF assms(1)] by (auto simp: cache_ok_def)
  obtain i where i: "bget_pick 1 n s xs = Some i" "i < NBUF" "b_refcnt (bufs (bcache s) ! i) = 0"
    "bget_match 1 n s i \<or> (bget_unused s i \<and> (\<forall>j < NBUF. \<not> bget_match 1 n s j))"
    using pick_facts [OF heldD(1) [OF assms(1)] assms(2) xs] .
  let ?t = "bread_state me n i s" and ?p = "bufs (bcache s) ! i"
  have len: "length (bufs (bcache s)) = NBUF" by (rule heldD(3) [OF assms(1)])
  have bi: "buf_ok s i" using heldD(1) [OF assms(1)] i(2) by (simp add: cache_ok_def)
  have iH: "i \<notin> fst ` H" using i(3) heldD(5) [OF assms(1)] by (auto simp: has_def)
  have st: "cache_ok ?t" "blk ?t = blk s" "has me i n ?t" using bread_state_ok [OF heldD(1) [OF assms(1)] i(2-4)] by simp_all
  have bt: "bufs (bcache ?t) = upd i (bread_upd (memdisk s) 1 n) (bufs (bcache s))" by (simp add: bread_state_def)
  have oth: "bufs (bcache ?t) ! j = bufs (bcache s) ! j" if "j \<noteq> i" for j using that by (simp add: bt)
  have "has me j m ?t" if "(j, m) \<in> H" for j m
  proof -
    have "j \<noteq> i" using iH that by force
    then show ?thesis using heldD(5) [OF assms(1) that] oth [of j]
      by (simp add: has_def holds_def me_pid_def bread_state_def)
  qed
  then have held: "held me (insert (i, n) H) ?t"
    using st heldD(2,6) [OF assms(1)] oth by (auto simp: held_def)
  have "dirty_blocks ?t = dirty_blocks s"
  proof -
    have ci: "caches m (bufs (bcache ?t) ! i) \<and> b_dirty (bufs (bcache ?t) ! i) \<longleftrightarrow> caches m ?p \<and> b_dirty ?p" for m
      using i(2,4) len bi by (auto simp: bt bread_upd_def bget_upd_def Let_def caches_def bget_match_def bget_unused_def buf_ok_def)
    have "caches m (bufs (bcache ?t) ! j) \<and> b_dirty (bufs (bcache ?t) ! j)
        \<longleftrightarrow> caches m (bufs (bcache s) ! j) \<and> b_dirty (bufs (bcache s) ! j)" for j m
      using ci [of m] oth [of j] by (cases "j = i") simp_all
    then show ?thesis by (simp add: dirty_blocks_def)
  qed
  moreover have "wp (bread 1 n) (\<lambda>r t. r = i \<and> core t = core ?t) s"
    unfolding bread_state_def
    by (rule bread_run [OF heldD(2) [OF assms(1)] xs(1) i(1)])
       (use bi i len assms(2) in \<open>auto simp: buf_ok_def can_read_def Let_def\<close>)
  ultimately show ?thesis
  proof (elim wp_conseq, elim conjE)
    fix r t
    assume r: "r = i" and t: "core t = core ?t" and d: "dirty_blocks ?t = dirty_blocks s"
    then show "held me (insert (r, n) H) t \<and> r \<notin> fst ` H \<and> blk t = blk s \<and> memdisk t = memdisk s
        \<and> dirty_blocks t = dirty_blocks s \<and> power t = power s \<and> same_rest t s"
      using held_core [OF t] held iH blk_core [OF t] st(2) data_core [OF t] dirty_core [OF t] rest_core [OF t]
      by (simp add: same_rest_def)
  qed
qed

lemma blk_upd_held:
  assumes "held me H s" and "(i, n) \<in> H" and "keys_unique (bufs (bcache t))" and "memdisk t = memdisk s"
    and "bufs (bcache t) = upd i f (bufs (bcache s))" and "\<And>p. caches n p \<Longrightarrow> caches n (f p)"
  shows "blk t = (blk s)(n := b_data (f (bufs (bcache s) ! i)))"
proof (rule ext)
  fix m
  have h: "i < NBUF" "caches n (bufs (bcache s) ! i)" using heldD(5) [OF assms(1,2)] by (simp_all add: has_def)
  then have ct: "caches n (bufs (bcache t) ! i)" "i < length (bufs (bcache t))"
    using assms(5,6) heldD(3) [OF assms(1)] by simp_all
  show "blk t m = ((blk s)(n := b_data (f (bufs (bcache s) ! i)))) m"
  proof (cases "m = n")
    case True
    then show ?thesis using blk_cached [OF assms(3) ct(2,1)] assms(5) h heldD(3) [OF assms(1)] by simp
  next
    case False
    have "\<not> caches m (bufs (bcache s) ! i)" "\<not> caches m (f (bufs (bcache s) ! i))"
      using False h assms(6) by (auto simp: caches_def)
    then have "blk t m = blk s m"
      using h heldD(3) [OF assms(1)] assms(4) by (intro blk_upd [OF heldD(4) [OF assms(1)] assms(3,5)]) simp_all
    then show ?thesis using False by simp
  qed
qed

lemma held_set_data:
  assumes "held me H s" and "(i, n) \<in> H"
  shows "held me H (set_data i d s)" and "blk (set_data i d s) = (blk s)(n := d)"
    and "dirty_blocks (set_data i d s) = dirty_blocks s" and "same_rest (set_data i d s) s"
    and "memdisk (set_data i d s) = memdisk s" and "power (set_data i d s) = power s"
proof -
  let ?t = "set_data i d s"
  have len: "length (bufs (bcache s)) = NBUF" by (rule heldD(3) [OF assms(1)])
  have h: "i < NBUF" "caches n (bufs (bcache s) ! i)" "b_refcnt (bufs (bcache s) ! i) = 1"
    using heldD(5) [OF assms] by (simp_all add: has_def)
  have b: "bufs (bcache ?t) = upd i (\<lambda>p. p\<lparr>b_data := d\<rparr>) (bufs (bcache s))" by (simp add: set_data_def)
  have f: "slocks ?t = slocks s" "memdisk ?t = memdisk s" "disksize ?t = disksize s" "procs ?t = procs s"
    "calm me ?t = calm me s" by (simp_all add: set_data_def)
  have ku: "keys_unique (bufs (bcache ?t))" using heldD(4) [OF assms(1)] by (simp add: b keys_unique_upd)
  have ok: "buf_ok ?t j" if "j < NBUF" for j
  proof -
    have "buf_ok s j" using heldD(1) [OF assms(1)] that by (simp add: cache_ok_def)
    then show ?thesis using h len by (cases "j = i") (simp_all add: buf_ok_def b f Let_def)
  qed
  have "ring (bcache ?t) xs = ring (bcache s) xs" for xs by (simp add: set_data_def ring_def)
  then have "cache_ok ?t"
    using heldD(1) [OF assms(1)] ku ok by (simp add: cache_ok_def b f)
  moreover have same: "b_refcnt (bufs (bcache ?t) ! j) = b_refcnt (bufs (bcache s) ! j) \<and> caches m (bufs (bcache ?t) ! j) = caches m (bufs (bcache s) ! j)
      \<and> b_dirty (bufs (bcache ?t) ! j) = b_dirty (bufs (bcache s) ! j)" for j m
    using h len by (cases "j = i") (simp_all add: b caches_def)
  moreover have "has me j m ?t = has me j m s" for j m
    using same by (simp add: has_def holds_def me_pid_def f)
  ultimately show "held me H ?t" using assms(1) by (simp add: held_def f)
  show "dirty_blocks ?t = dirty_blocks s" using same by (simp add: dirty_blocks_def)
  show "memdisk ?t = memdisk s" "power ?t = power s" "same_rest ?t s" by (simp_all add: set_data_def same_rest_def)
  show "blk ?t = (blk s)(n := d)"
    using blk_upd_held [OF assms ku _ b] by (simp add: set_data_def caches_def)
qed

lemma held_bwrite:
  assumes "held me H s" and "(i, n) \<in> H" and "unat n < disksize s" and "power s \<noteq> Some 0"
  shows "wp (bwrite i) (\<lambda>_ t. held me H t \<and> blk t = blk s \<and> memdisk t = (memdisk s)[unat n := blk s n]
    \<and> dirty_blocks t = dirty_blocks s - {n} \<and> power t = map_option (\<lambda>k. k - 1) (power s) \<and> same_rest t s) s"
proof -
  let ?t = "bwritten i s"
  have len: "length (bufs (bcache s)) = NBUF" by (rule heldD(3) [OF assms(1)])
  have has: "has me i n s" by (rule heldD(5) [OF assms(1,2)])
  then have h: "i < NBUF" "caches n (bufs (bcache s) ! i)" "b_refcnt (bufs (bcache s) ! i) = 1" by (simp_all add: has_def)
  note ok = bwritten_ok [OF heldD(1) [OF assms(1)] has assms(3)]
  have same: "b_refcnt (bufs (bcache ?t) ! j) = b_refcnt (bufs (bcache s) ! j) \<and> caches m (bufs (bcache ?t) ! j) = caches m (bufs (bcache s) ! j)" for j m
    using h len by (cases "j = i") (simp_all add: caches_def)
  then have "has me j m ?t = has me j m s" for j m by (simp add: has_def holds_def me_pid_def)
  then have held: "held me H ?t" using assms(1) ok(1) same by (simp add: held_def)
  have only: "caches n (bufs (bcache s) ! j) \<Longrightarrow> j < NBUF \<Longrightarrow> j = i" for j
    using heldD(4) [OF assms(1)] h len by (auto simp: keys_unique_def caches_def)
  have "caches m (bufs (bcache ?t) ! j) \<and> b_dirty (bufs (bcache ?t) ! j)
      \<longleftrightarrow> m \<noteq> n \<and> caches m (bufs (bcache s) ! j) \<and> b_dirty (bufs (bcache s) ! j)" if "j < NBUF" for j m
    using only [OF _ that] same [of j m] h len by (cases "j = i") (auto simp: caches_def)
  then have dirty: "dirty_blocks ?t = dirty_blocks s - {n}" by (auto simp: dirty_blocks_def)
  have mem: "memdisk ?t = (memdisk s)[unat n := blk s n]"
    using h held_data [OF assms(1,2)] by (simp add: caches_def buf_data_def)
  show ?thesis
  proof (rule wp_conseq [OF bwrite_spec [OF heldD(1,2) [OF assms(1)] has assms(3,4) refl]], elim conjE)
    fix x u
    assume u: "core u = core ?t" and "blk u = blk s"
    then show "held me H u \<and> blk u = blk s \<and> memdisk u = (memdisk s)[unat n := blk s n]
        \<and> dirty_blocks u = dirty_blocks s - {n} \<and> power u = map_option (\<lambda>k. k - 1) (power s) \<and> same_rest u s"
      using held_core [OF u] held data_core [OF u] dirty_core [OF u] dirty rest_core [OF u] mem by (simp add: same_rest_def)
  qed
qed

lemma held_bwrite_off:
  assumes "held me H s" and "(i, n) \<in> H" and "unat n < disksize s" and "power s = Some 0"
  shows "\<exists>u. bwrite i s = PowerOff u \<and> memdisk u = memdisk s"
proof -
  have c: "calm me s" by (rule heldD(2) [OF assms(1)])
  have h: "i < NBUF" "caches n (bufs (bcache s) ! i)" "holds me i s" using heldD(5) [OF assms(1,2)] by (simp_all add: has_def)
  obtain s1 where s1: "holdingsleep (BufSleep i) s = Done True s1" "core s1 = core s"
    using holdingsleep_core [OF refl c, where k = "BufSleep i" and Q = "\<lambda>r t. r \<and> core t = core s"] h(3)
    by (auto simp: holds_def me_pid_def elim: wpE)
  let ?s2 = "upd_buf i (\<lambda>p. p\<lparr>b_dirty := True\<rparr>) s1"
  have c2: "calm me ?s2" and h2: "holds me i ?s2" using calm_core [OF s1(2)] c holds_core [OF s1(2)] h(3) by simp_all
  obtain s3 where s3: "holdingsleep (BufSleep i) ?s2 = Done True s3" "core s3 = core ?s2"
    using holdingsleep_core [OF refl c2, where k = "BufSleep i" and Q = "\<lambda>r t. r \<and> core t = core ?s2"] h2
    by (auto simp: holds_def me_pid_def elim: wpE)
  have b3: "bufs (bcache s3) = upd i (\<lambda>p. p\<lparr>b_dirty := True\<rparr>) (bufs (bcache s))" "disksize s3 = disksize s"
    "power s3 = Some 0" "memdisk s3 = memdisk s"
    using data_core [OF s3(2)] data_core [OF s1(2)] assms(4) by simp_all
  then have "bwrite i s = PowerOff (upd_buf i (\<lambda>p. p\<lparr>b_dirty := False\<rparr>) s3)"
    using s1 s3 h(1,2) heldD(3) [OF assms(1)] assms(3)
    by (simp add: bwrite_def iderw_def caches_def disk_write_off kseq_app)
  then show ?thesis using b3(4) by simp
qed

lemma held_brelse:
  assumes "held me (insert (i, n) H) s" and "i \<notin> fst ` H" and "n \<in> dirty_blocks s \<or> memdisk s ! unat n = blk s n"
  shows "wp (brelse i) (\<lambda>_ t. held me H t \<and> blk t = blk s \<and> memdisk t = memdisk s
    \<and> dirty_blocks t = dirty_blocks s \<and> power t = power s \<and> same_rest t s) s"
proof -
  let ?t = "breleased i s"
  have len: "length (bufs (bcache s)) = NBUF" by (rule heldD(3) [OF assms(1)])
  have has: "has me i n s" using heldD(5) [OF assms(1)] by simp
  then have h: "i < NBUF" "caches n (bufs (bcache s) ! i)" "b_refcnt (bufs (bcache s) ! i) = 1" by (simp_all add: has_def)
  have sv: "saved i n s"
  proof (cases "n \<in> dirty_blocks s")
    case True
    then obtain j where "j < NBUF" "caches n (bufs (bcache s) ! j)" "b_dirty (bufs (bcache s) ! j)"
      by (auto simp: dirty_blocks_def)
    moreover have "j = i" using calculation h heldD(4) [OF assms(1)] len by (auto simp: keys_unique_def caches_def)
    ultimately show ?thesis by (simp add: saved_def)
  next
    case False
    then show ?thesis using assms(3) held_data [OF assms(1), of i n] by (simp add: saved_def buf_data_def)
  qed
  note ok = breleased_ok [OF heldD(1) [OF assms(1)] has sv]
  have b: "bufs (bcache ?t) ! j = (if j = i then (bufs (bcache s) ! i)\<lparr>b_refcnt := 0\<rparr> else bufs (bcache s) ! j)" for j
    using h len by (simp add: bufs_breleased)
  have pr: "pid (procs ?t ! me) = pid (procs s ! me)"
    using calmD(4,5) [OF heldD(2) [OF assms(1)]] by (simp add: breleased_def brelse_ring_def given_back_def woken_def)
  have "has me j m ?t" if "(j, m) \<in> H" for j m
  proof -
    have "j \<noteq> i" using assms(2) that by force
    then show ?thesis using heldD(5) [OF assms(1), of j m] that pr by (simp add: has_def holds_def me_pid_def b)
  qed
  then have held: "held me H ?t"
    using assms(1) ok(1) h heldD(6) [OF assms(1)] by (auto simp: held_def b)
  have "caches m (bufs (bcache ?t) ! j) = caches m (bufs (bcache s) ! j) \<and> b_dirty (bufs (bcache ?t) ! j) = b_dirty (bufs (bcache s) ! j)" for j m
    by (simp add: b caches_def)
  then have dirty: "dirty_blocks ?t = dirty_blocks s" by (simp add: dirty_blocks_def)
  show ?thesis
  proof (rule wp_conseq [OF brelse_spec [OF heldD(1,2) [OF assms(1)] has sv refl]], elim conjE)
    fix x u
    assume u: "core u = core ?t" and "blk u = blk s"
    then show "held me H u \<and> blk u = blk s \<and> memdisk u = memdisk s
        \<and> dirty_blocks u = dirty_blocks s \<and> power u = power s \<and> same_rest u s"
      using held_core [OF u] held data_core [OF u] dirty_core [OF u] dirty rest_core [OF u] by (simp add: same_rest_def)
  qed
qed

subsection \<open>Weakest preconditions with a crash condition\<close>

text \<open>
  \<open>wpc m Q R s\<close>: from \<open>s\<close> either \<open>m\<close> returns with \<open>Q\<close>, or the machine loses power, with a disk that
  satisfies \<open>R\<close>.
\<close>

definition wpc :: "'a kern \<Rightarrow> ('a \<Rightarrow> kworld \<Rightarrow> bool) \<Rightarrow> (block list \<Rightarrow> bool) \<Rightarrow> kworld \<Rightarrow> bool" where
  "wpc m Q R s = (case m s of Done x t \<Rightarrow> Q x t | PowerOff t \<Rightarrow> R (memdisk t) | _ \<Rightarrow> False)"

named_theorems wpc_simps "weakest preconditions with a crash condition"

lemma wpc_basic [wpc_simps]:
  "wpc (kret x) Q R = Q x" "wpc (kget g) Q R = (\<lambda>s. Q (g s) s)" "wpc (kmod h) Q' R = (\<lambda>s. Q' () (h s))"
  "wpc (Done x) Q R = Q x"
  by (rule ext, simp add: wpc_def)+

lemma wpc_bind [wpc_simps]: "wpc (kbind m f) Q R = wpc m (\<lambda>x. wpc (f x) Q R) R"
  by (rule ext) (simp add: wpc_def kbind_def split: outcome.split)

lemma wpc_seq [wpc_simps]: "wpc (kseq m n) Q R = wpc m (\<lambda>_. wpc n Q R) R"
  by (simp add: kseq_def wpc_bind)

lemma wpc_when [wpc_simps]: "wpc (kwhen b m) Q R = (if b then wpc m Q R else Q ())"
  by (simp add: kwhen_def wpc_basic)

lemma wpc_of_wp: "wp m P s \<Longrightarrow> (\<And>x t. P x t \<Longrightarrow> Q x t) \<Longrightarrow> wpc m Q R s"
  by (auto simp: wp_def wpc_def)

lemma wpc_conseq: "wpc m P R s \<Longrightarrow> (\<And>x t. P x t \<Longrightarrow> Q x t) \<Longrightarrow> (\<And>d. R d \<Longrightarrow> R' d) \<Longrightarrow> wpc m Q R' s"
  by (auto simp: wpc_def split: outcome.splits)

lemma wpc_for_upt:
  assumes "I 0 s" and "\<And>i s. i < n \<Longrightarrow> I i s \<Longrightarrow> wpc (body i) (\<lambda>_. I (Suc i)) R s"
  shows "wpc (kfor [0 ..< n] body) (\<lambda>_. I n) R s"
  using assms
proof (induction n)
  case 0
  then show ?case by (simp add: wpc_simps)
next
  case (Suc n)
  have "wpc (kfor [0 ..< n] body) (\<lambda>_. I n) R s" using Suc by simp
  then have "wpc (kfor [0 ..< n] body) (\<lambda>_. wpc (body n) (\<lambda>_. I (Suc n)) R) R s"
    by (rule wpc_conseq) (simp_all add: Suc.prems(2))
  then have "wpc (kseq (kfor [0 ..< n] body) (kseq (body n) (kret ()))) (\<lambda>_. I (Suc n)) R s"
    by (simp add: wpc_simps)
  then show ?case by (simp add: kfor_append)
qed

lemma wpc_bwrite:
  assumes "held me H s" and "(i, n) \<in> H" and "unat n < disksize s" and "R (memdisk s)"
    and "\<And>t. held me H t \<Longrightarrow> blk t = blk s \<Longrightarrow> memdisk t = (memdisk s)[unat n := blk s n]
      \<Longrightarrow> dirty_blocks t = dirty_blocks s - {n} \<Longrightarrow> same_rest t s \<Longrightarrow> Q () t"
  shows "wpc (bwrite i) Q R s"
proof (cases "power s = Some 0")
  case True
  then show ?thesis using held_bwrite_off [OF assms(1-3)] assms(4) by (auto simp: wpc_def)
next
  case False
  show ?thesis by (rule wpc_of_wp [OF held_bwrite [OF assms(1-3) False]]) (use assms(5) in auto)
qed

lemma wpc_bread:
  assumes "held me H s" and "finite H" and "unat n < disksize s" and "n \<notin> snd ` H"
    and "n \<in> dirty_blocks s \<or> card (dirty_blocks s) + card H < NBUF"
    and "\<And>i t. held me (insert (i, n) H) t \<Longrightarrow> i \<notin> fst ` H \<Longrightarrow> blk t = blk s \<Longrightarrow> memdisk t = memdisk s
      \<Longrightarrow> dirty_blocks t = dirty_blocks s \<Longrightarrow> same_rest t s \<Longrightarrow> Q i t"
  shows "wpc (bread 1 n) Q R s"
  by (rule wpc_of_wp [OF held_bread [OF assms(1) held_can_read [OF assms(1-5)] assms(4)]]) (use assms(6) in auto)

lemma wpc_brelse:
  assumes "held me H' s" and "H' = insert (i, n) H" and "i \<notin> fst ` H" and "n \<in> dirty_blocks s \<or> memdisk s ! unat n = blk s n"
    and "\<And>t. held me H t \<Longrightarrow> blk t = blk s \<Longrightarrow> memdisk t = memdisk s
      \<Longrightarrow> dirty_blocks t = dirty_blocks s \<Longrightarrow> same_rest t s \<Longrightarrow> Q () t"
  shows "wpc (brelse i) Q R s"
  by (rule wpc_of_wp [OF held_brelse [OF assms(1) [unfolded assms(2)] assms(3,4)]]) (use assms(5) in auto)

text \<open>A block that is not dirty and not in use is as on the disk.\<close>

lemma blk_clean:
  assumes "held me H s" and "n \<notin> snd ` H" and "n \<notin> dirty_blocks s"
  shows "blk s n = memdisk s ! unat n"
proof (cases "\<exists>i < NBUF. caches n (bufs (bcache s) ! i)")
  case True
  then obtain i where i: "i < NBUF" "caches n (bufs (bcache s) ! i)" by blast
  have "i \<notin> fst ` H"
  proof
    assume "i \<in> fst ` H"
    then obtain m where m: "(i, m) \<in> H" by auto
    then have "n = m" using heldD(5) [OF assms(1) m] i(2) by (simp add: has_def caches_def)
    then show False using m assms(2) by force
  qed
  then have "b_refcnt (bufs (bcache s) ! i) = 0" by (rule heldD(6) [OF assms(1) i(1)])
  moreover have "buf_ok s i" using heldD(1) [OF assms(1)] i(1) by (simp add: cache_ok_def)
  moreover have "\<not> b_dirty (bufs (bcache s) ! i)" using assms(3) i by (auto simp: dirty_blocks_def)
  ultimately have "b_data (bufs (bcache s) ! i) = memdisk s ! unat n"
    using i(2) by (simp add: buf_ok_def caches_def Let_def)
  then show ?thesis using blk_cached [OF heldD(4) [OF assms(1)] _ i(2)] i(1) heldD(3) [OF assms(1)] by simp
next
  case False
  then show ?thesis using heldD(3) [OF assms(1)] by (intro blk_uncached) auto
qed

end
