(* ===== verification/Log.thy ===== *)
theory Log
  imports Blocks
begin

section \<open>The log (log.c)\<close>

text \<open>
  A write-ahead log: file-system calls modify cached blocks and name them in the in-memory header;
  \<open>commit\<close> copies the named blocks to the log area of the disk, writes the header, which is the
  point of commit, installs the blocks in their home locations and clears the header.  After a
  crash \<open>recover_from_log\<close> installs whatever a header on the disk names.

  The loops over the header run to \<open>log.lh.n\<close> as it is when the loop starts; nothing changes it
  while they run.  An index outside the header's array faults.
\<close>

subsection \<open>Definitions\<close>

definition upd_lh :: "(logheader \<Rightarrow> logheader) \<Rightarrow> kworld \<Rightarrow> kworld" where
  "upd_lh f s = s\<lparr>log := (log s)\<lparr>lh := f (lh (log s))\<rparr>\<rparr>"

definition log_n :: "int kern" where
  "log_n = kget (\<lambda>s. lh_n (lh (log s)))"

definition decode_sb :: "block \<Rightarrow> superblock" where
  "decode_sb d = \<lparr>sb_size = get32 d 0, sb_nblocks = get32 d 4, sb_ninodes = get32 d 8, sb_nlog = get32 d 12,
     sb_logstart = get32 d 16, sb_inodestart = get32 d 20, sb_bmapstart = get32 d 24\<rparr>"

definition readsb :: "32 word \<Rightarrow> superblock kern" where
  "readsb dev =
     kbind (bread dev 1) (\<lambda>bp.
     kbind (kget (\<lambda>s. decode_sb (buf_data bp s))) (\<lambda>sb.
     kseq (brelse bp) (
     kret sb)))"

definition install_trans :: "unit kern" where
  "install_trans =
     kbind log_n (\<lambda>n.
     kfor [0 ..< nat n] (\<lambda>tail.
       if LOGSIZE \<le> tail then kfault
       else
         kbind (kget (\<lambda>s. (log_dev (log s), log_start (log s) + of_nat tail + 1, lh_block (lh (log s)) ! tail))) (\<lambda>(dev, lno, dno).
         kbind (bread dev lno) (\<lambda>lbuf.
         kbind (bread dev dno) (\<lambda>dbuf.
         kseq (kmod (\<lambda>s. set_data dbuf (buf_data lbuf s) s)) (
         kseq (bwrite dbuf) (
         kseq (brelse lbuf) (
         brelse dbuf))))))))"

definition read_head :: "unit kern" where
  "read_head =
     kbind (kget (\<lambda>s. (log_dev (log s), log_start (log s)))) (\<lambda>(dev, start).
     kbind (bread dev start) (\<lambda>b.
     kseq (kmod (\<lambda>s. upd_lh (\<lambda>h. h\<lparr>lh_n := sint (get32 (buf_data b s) 0)\<rparr>) s)) (
     kseq (kbind log_n (\<lambda>n. kfor [0 ..< nat n] (\<lambda>i.
       if LOGSIZE \<le> i then kfault
       else kmod (\<lambda>s. upd_lh (\<lambda>h. h\<lparr>lh_block := (lh_block h)[i := get32 (buf_data b s) (4 + 4 * i)]\<rparr>) s)))) (
     brelse b))))"

definition write_head :: "unit kern" where
  "write_head =
     kbind (kget (\<lambda>s. (log_dev (log s), log_start (log s)))) (\<lambda>(dev, start).
     kbind (bread dev start) (\<lambda>b.
     kseq (kmod (\<lambda>s. set_data b (put32 (buf_data b s) 0 (word_of_int (lh_n (lh (log s))))) s)) (
     kseq (kbind log_n (\<lambda>n. kfor [0 ..< nat n] (\<lambda>i.
       if LOGSIZE \<le> i then kfault
       else kmod (\<lambda>s. set_data b (put32 (buf_data b s) (4 + 4 * i) (lh_block (lh (log s)) ! i)) s)))) (
     kseq (bwrite b) (
     brelse b)))))"

definition set_log_n :: "int \<Rightarrow> unit kern" where
  "set_log_n n = kmod (upd_lh (\<lambda>h. h\<lparr>lh_n := n\<rparr>))"

definition recover_from_log :: "unit kern" where
  "recover_from_log =
     kseq read_head (
     kseq install_trans (
     kseq (set_log_n 0) (
     write_head)))"

definition initlog :: "32 word \<Rightarrow> unit kern" where
  "initlog dev =
     (if 4 + 4 * LOGSIZE \<ge> BSIZE then kpanic ''initlog: too big logheader''
      else
        kseq (initlock LogLock ''log'') (
        kbind (readsb dev) (\<lambda>sb.
        kseq (kmod (\<lambda>s. s\<lparr>log := (log s)\<lparr>log_start := sb_logstart sb, log_size := sint (sb_nlog sb), log_dev := dev\<rparr>\<rparr>)) (
        recover_from_log))))"

function begin_op_loop :: "unit kern" where
  "begin_op_loop s =
     (if committing (log s) then kseq (sleep (Some ChLog) (Some LogLock)) begin_op_loop s
      else if lh_n (lh (log s)) + (outstanding (log s) + 1) * int MAXOPBLOCKS > int LOGSIZE
      then kseq (sleep (Some ChLog) (Some LogLock)) begin_op_loop s
      else kseq (kmod (\<lambda>s. s\<lparr>log := (log s)\<lparr>outstanding := outstanding (log s) + 1\<rparr>\<rparr>)) (release LogLock) s)"
  by pat_completeness auto
termination
  by (relation "measure (\<lambda>s. length (env s))") (auto dest: env_ltD [OF env_lt_sleep])

declare begin_op_loop.simps [simp del]

definition begin_op :: "unit kern" where
  "begin_op = kseq (acquire LogLock) begin_op_loop"

definition write_log :: "unit kern" where
  "write_log =
     kbind log_n (\<lambda>n.
     kfor [0 ..< nat n] (\<lambda>tail.
       if LOGSIZE \<le> tail then kfault
       else
         kbind (kget (\<lambda>s. (log_dev (log s), log_start (log s) + of_nat tail + 1, lh_block (lh (log s)) ! tail))) (\<lambda>(dev, lno, dno).
         kbind (bread dev lno) (\<lambda>to.
         kbind (bread dev dno) (\<lambda>from.
         kseq (kmod (\<lambda>s. set_data to (buf_data from s) s)) (
         kseq (bwrite to) (
         kseq (brelse from) (
         brelse to))))))))"

definition commit :: "unit kern" where
  "commit =
     kbind log_n (\<lambda>n.
     kwhen (n > 0) (
       kseq write_log (
       kseq write_head (
       kseq install_trans (
       kseq (set_log_n 0) (
       write_head))))))"

definition end_op :: "unit kern" where
  "end_op =
     kseq (acquire LogLock) (
     kseq (kmod (\<lambda>s. s\<lparr>log := (log s)\<lparr>outstanding := outstanding (log s) - 1\<rparr>\<rparr>)) (
     kbind (kget (\<lambda>s. (committing (log s), outstanding (log s)))) (\<lambda>(c, o').
     if c then kpanic ''log.committing''
     else
       kseq (if o' = 0 then kmod (\<lambda>s. s\<lparr>log := (log s)\<lparr>committing := True\<rparr>\<rparr>) else wakeup (Some ChLog)) (
       kseq (release LogLock) (
       kwhen (o' = 0) (
         kseq commit (
         kseq (acquire LogLock) (
         kseq (kmod (\<lambda>s. s\<lparr>log := (log s)\<lparr>committing := False\<rparr>\<rparr>)) (
         kseq (wakeup (Some ChLog)) (
         release LogLock))))))))))"

definition log_slot :: "32 word \<Rightarrow> logheader \<Rightarrow> nat" where
  "log_slot bno h = (case find_idx ((=) bno) (take (nat (lh_n h)) (lh_block h)) of None \<Rightarrow> nat (lh_n h) | Some i \<Rightarrow> i)"

definition log_record :: "32 word \<Rightarrow> logheader \<Rightarrow> logheader" where
  "log_record bno h =
     (let i = log_slot bno h in
      \<lparr>lh_n = (if int i = lh_n h then lh_n h + 1 else lh_n h), lh_block = (lh_block h)[i := bno]\<rparr>)"

definition log_write :: "nat \<Rightarrow> unit kern" where
  "log_write b =
     kbind (kget log) (\<lambda>lg.
     if lh_n (lh lg) \<ge> int LOGSIZE \<or> lh_n (lh lg) \<ge> log_size lg - 1 then kpanic ''too big a transaction''
     else if outstanding lg < 1 then kpanic ''log_write outside of trans''
     else
       kseq (acquire LogLock) (
       kseq (kmod (\<lambda>s. upd_lh (log_record (b_blockno (bufs (bcache s) ! b))) s)) (
       kseq (kmod (upd_buf b (\<lambda>p. p\<lparr>b_dirty := True\<rparr>))) (
       release LogLock))))"

subsection \<open>Copying between blocks\<close>

text \<open>The log of a state, and the number of its block \<open>i\<close>.\<close>

definition log_area :: "kworld \<Rightarrow> nat \<Rightarrow> 32 word" where
  "log_area s i = log_start (log s) + of_nat i + 1"

lemma log_area_rest: "same_rest t s \<Longrightarrow> log_area t = log_area s"
  by (rule ext) (simp add: log_area_def same_rest_def)

text \<open>
  Both loops read block \<open>a\<close>, then block \<open>b\<close>, copy one to the other, write the target and release
  both.  \<open>a\<close> is a block of the log, \<open>b\<close> its home, which may be pinned.
\<close>

lemma wpc_copy_to_first:
  assumes "held me {} s" and "a \<noteq> b" and "unat a < disksize s" and "unat b < disksize s" and "a \<notin> dirty_blocks s"
    and "card (dirty_blocks s) < NBUF" and "b \<in> dirty_blocks s \<or> card (dirty_blocks s) + 1 < NBUF" and "R (memdisk s)"
    and "\<And>t. held me {} t \<Longrightarrow> blk t = (blk s)(a := blk s b) \<Longrightarrow> memdisk t = (memdisk s)[unat a := blk s b]
      \<Longrightarrow> dirty_blocks t = dirty_blocks s \<Longrightarrow> same_rest t s \<Longrightarrow> Q () t"
  shows "wpc (kbind (bread 1 a) (\<lambda>to. kbind (bread 1 b) (\<lambda>from.
    kseq (kmod (\<lambda>s. set_data to (buf_data from s) s)) (kseq (bwrite to) (kseq (brelse from) (brelse to)))))) Q R s"
  unfolding wpc_bind wpc_seq wpc_basic
proof (rule wpc_bread [OF assms(1)], goal_cases)
  case (5 x t1)
  note t1 = 5
  have d1: "disksize t1 = disksize s" using t1(6) by (simp add: same_rest_def)
  show ?case
  proof (rule wpc_bread [OF t1(1)], goal_cases)
    case (5 y t2)
    note t2 = 5
    let ?H = "{(y, b), (x, a)}" and ?t3 = "set_data x (buf_data y t2) t2"
    have d2: "disksize t2 = disksize s" using t2(6) d1 by (simp add: same_rest_def)
    have xy: "x \<noteq> y" using t2(2) by auto
    have h2: "held me ?H t2" using t2(1) by simp
    have data: "buf_data y t2 = blk s b" using held_data [OF h2, of y b] t1(3) t2(3) by simp
    note t3 = held_set_data [OF h2, of x a "buf_data y t2"]
    have d3: "disksize ?t3 = disksize s" using t3(4) d2 by (simp add: same_rest_def)
    have b3: "blk ?t3 = (blk s)(a := blk s b)" using t3(2) data t1(3) t2(3) by simp
    have m3: "memdisk ?t3 = memdisk s" using t3(5) t1(4) t2(4) by simp
    show ?case
    proof (rule wpc_bwrite [where me = me and H = ?H and n = a], goal_cases)
      case (5 t4)
      note t4 = 5
      show ?case
      proof (rule wpc_brelse [OF t4(1), where n = b and H = "{(x, a)}"], goal_cases)
        case (4 t5)
        note t5 = 4
        have m5: "memdisk t5 = (memdisk s)[unat a := blk s b]" using t5(3) t4(3) m3 b3 by simp
        have b5: "blk t5 = (blk s)(a := blk s b)" using t5(2) t4(2) b3 by simp
        show ?case
        proof (rule wpc_brelse [OF t5(1), where n = a and H = "{}"], goal_cases)
          case 3
          have "length (memdisk s) = disksize s" using heldD(1) [OF assms(1)] by (simp add: cache_ok_def)
          then show ?case using m5 b5 assms(3) by simp
        next
          case (4 t6)
          have "same_rest t6 s"
            using same_rest_trans [OF 4(5) same_rest_trans [OF t5(5) same_rest_trans [OF t4(5)
              same_rest_trans [OF t3(4) same_rest_trans [OF t2(6) t1(6)]]]]] by simp
          moreover have "dirty_blocks t6 = dirty_blocks s" using 4(4) t5(4) t4(4) t3(3) t2(5) t1(5) assms(5) by simp
          ultimately show ?case using 4 m5 b5 by (intro assms(9)) simp_all
        qed simp_all
      next
        case 3
        have "b \<in> dirty_blocks s \<or> memdisk s ! unat b = blk s b" using blk_clean [OF assms(1), of b] by (cases "b \<in> dirty_blocks s") simp_all
        then show ?case using t4 m3 b3 t3(3) t1(5) t2(5) assms(2) by (auto simp: disk_other)
      qed (use xy in auto)
    qed (use t3 d3 m3 assms(3,8) in simp_all)
  next
    case 4
    show ?case using assms(7) t1(5) by simp
  qed (use assms d1 in auto)
qed (use assms in auto)

lemma wpc_copy_to_second:
  assumes "held me {} s" and "a \<noteq> b" and "unat a < disksize s" and "unat b < disksize s" and "a \<notin> dirty_blocks s"
    and "card (dirty_blocks s) < NBUF" and "b \<in> dirty_blocks s \<or> card (dirty_blocks s) + 1 < NBUF" and "R (memdisk s)"
    and "\<And>t. held me {} t \<Longrightarrow> blk t = (blk s)(b := blk s a) \<Longrightarrow> memdisk t = (memdisk s)[unat b := blk s a]
      \<Longrightarrow> dirty_blocks t = dirty_blocks s - {b} \<Longrightarrow> same_rest t s \<Longrightarrow> Q () t"
  shows "wpc (kbind (bread 1 a) (\<lambda>lbuf. kbind (bread 1 b) (\<lambda>dbuf.
    kseq (kmod (\<lambda>s. set_data dbuf (buf_data lbuf s) s)) (kseq (bwrite dbuf) (kseq (brelse lbuf) (brelse dbuf)))))) Q R s"
  unfolding wpc_bind wpc_seq wpc_basic
proof (rule wpc_bread [OF assms(1)], goal_cases)
  case (5 x t1)
  note t1 = 5
  have d1: "disksize t1 = disksize s" using t1(6) by (simp add: same_rest_def)
  show ?case
  proof (rule wpc_bread [OF t1(1)], goal_cases)
    case (5 y t2)
    note t2 = 5
    let ?H = "{(y, b), (x, a)}" and ?t3 = "set_data y (buf_data x t2) t2"
    have d2: "disksize t2 = disksize s" using t2(6) d1 by (simp add: same_rest_def)
    have xy: "x \<noteq> y" using t2(2) by auto
    have h2: "held me ?H t2" using t2(1) by simp
    have data: "buf_data x t2 = blk s a" using held_data [OF h2, of x a] t1(3) t2(3) by simp
    note t3 = held_set_data [OF h2, of y b "buf_data x t2"]
    have d3: "disksize ?t3 = disksize s" using t3(4) d2 by (simp add: same_rest_def)
    have b3: "blk ?t3 = (blk s)(b := blk s a)" using t3(2) data t1(3) t2(3) by simp
    have m3: "memdisk ?t3 = memdisk s" using t3(5) t1(4) t2(4) by simp
    show ?case
    proof (rule wpc_bwrite [where me = me and H = ?H and n = b], goal_cases)
      case (5 t4)
      note t4 = 5
      have m4: "memdisk t4 = (memdisk s)[unat b := blk s a]" using t4(3) m3 b3 by simp
      have b4: "blk t4 = (blk s)(b := blk s a)" using t4(2) b3 by simp
      show ?case
      proof (rule wpc_brelse [OF t4(1), where n = a and H = "{(y, b)}"], goal_cases)
        case (4 t5)
        note t5 = 4
        show ?case
        proof (rule wpc_brelse [OF t5(1), where n = b and H = "{}"], goal_cases)
          case 3
          have "length (memdisk s) = disksize s" using heldD(1) [OF assms(1)] by (simp add: cache_ok_def)
          then show ?case using t5 m4 b4 assms(4) by simp
        next
          case (4 t6)
          have "same_rest t6 s"
            using same_rest_trans [OF 4(5) same_rest_trans [OF t5(5) same_rest_trans [OF t4(5)
              same_rest_trans [OF t3(4) same_rest_trans [OF t2(6) t1(6)]]]]] by simp
          moreover have "dirty_blocks t6 = dirty_blocks s - {b}" using 4(4) t5(4) t4(4) t3(3) t2(5) t1(5) by simp
          ultimately show ?case using 4 t5 m4 b4 by (intro assms(9)) simp_all
        qed simp_all
      next
        case 3
        have "memdisk s ! unat a = blk s a" using blk_clean [OF assms(1), of a] assms(5) by simp
        then show ?case using m4 b4 assms(2) by (simp add: disk_other)
      qed (use xy in auto)
    qed (use t3 d3 m3 assms(4,8) in simp_all)
  next
    case 4
    show ?case using assms(7) t1(5) by simp
  qed (use assms d1 in auto)
qed (use assms in auto)

subsection \<open>The loops over the log\<close>

definition disk_copies :: "(nat \<Rightarrow> 32 word) \<Rightarrow> (nat \<Rightarrow> block) \<Rightarrow> nat \<Rightarrow> block list \<Rightarrow> block list" where
  "disk_copies p v j D = fold (\<lambda>i D. D[unat (p i) := v i]) [0 ..< j] D"

definition blk_copies :: "(nat \<Rightarrow> 32 word) \<Rightarrow> (nat \<Rightarrow> block) \<Rightarrow> nat \<Rightarrow> (32 word \<Rightarrow> block) \<Rightarrow> 32 word \<Rightarrow> block" where
  "blk_copies p v j f = fold (\<lambda>i f. f(p i := v i)) [0 ..< j] f"

lemma copies_simps [simp]:
  "disk_copies p v 0 D = D" "disk_copies p v (Suc j) D = (disk_copies p v j D)[unat (p j) := v j]"
  "blk_copies p v 0 f = f" "blk_copies p v (Suc j) f = (blk_copies p v j f)(p j := v j)"
  by (simp_all add: disk_copies_def blk_copies_def)

lemma length_disk_copies [simp]: "length (disk_copies p v j D) = length D"
  by (induction j) simp_all

lemma blk_copies_other: "(\<And>i. i < j \<Longrightarrow> p i \<noteq> m) \<Longrightarrow> blk_copies p v j f m = f m"
  by (induction j) auto

lemma disk_copies_other: "(\<And>i. i < j \<Longrightarrow> unat (p i) \<noteq> m) \<Longrightarrow> disk_copies p v j D ! m = D ! m"
  by (induction j) (simp_all add: less_Suc_eq)

text \<open>
  A log in good order: it lies on the disk, its header names at most \<open>LOGSIZE\<close> blocks, all of them
  on the disk and outside the log.
\<close>

abbreviation (input) logged :: "kworld \<Rightarrow> nat \<Rightarrow> 32 word" where
  "logged s i \<equiv> lh_block (lh (log s)) ! i"

definition outside :: "kworld \<Rightarrow> 32 word \<Rightarrow> bool" where
  "outside s b \<longleftrightarrow> unat b < unat (log_start (log s)) \<or> unat (log_start (log s)) + LOGSIZE < unat b"

definition log_wf :: "kworld \<Rightarrow> bool" where
  "log_wf s \<longleftrightarrow> log_dev (log s) = 1 \<and> 0 \<le> lh_n (lh (log s)) \<and> lh_n (lh (log s)) \<le> int LOGSIZE
     \<and> length (lh_block (lh (log s))) = LOGSIZE
     \<and> unat (log_start (log s)) + LOGSIZE < disksize s \<and> disksize s \<le> 2 ^ 32
     \<and> (\<forall>i < nat (lh_n (lh (log s))). unat (logged s i) < disksize s \<and> outside s (logged s i))
     \<and> (\<forall>b \<in> dirty_blocks s. outside s b)"

lemma unat_log_area:
  assumes "log_wf s" and "i < LOGSIZE"
  shows "unat (log_area s i) = unat (log_start (log s)) + i + 1" and "unat (log_area s i) < disksize s"
    and "\<not> outside s (log_area s i)" and "log_area s i \<noteq> log_start (log s)"
proof -
  let ?L = "unat (log_start (log s))"
  have b: "?L + i + 1 < 2 ^ 32" "?L + LOGSIZE < disksize s" using assms by (simp_all add: log_wf_def)
  have "unat (log_start (log s) + of_nat i + 1) = (?L + i + 1) mod 2 ^ 32"
    by (simp add: unat_word_ariths unat_of_nat mod_simps)
  then show u: "unat (log_area s i) = ?L + i + 1" using b(1) by (simp add: log_area_def)
  show "unat (log_area s i) < disksize s" "\<not> outside s (log_area s i)" "log_area s i \<noteq> log_start (log s)"
    using u b assms(2) by (auto simp: outside_def)
qed

lemma log_wf_rest: "same_rest t s \<Longrightarrow> dirty_blocks t \<subseteq> dirty_blocks s \<Longrightarrow> log_wf s \<Longrightarrow> log_wf t"
  by (auto simp: log_wf_def same_rest_def outside_def)

definition pinned_or_room :: "kworld \<Rightarrow> 32 word set \<Rightarrow> 32 word \<Rightarrow> bool" where
  "pinned_or_room s D b \<longleftrightarrow> b \<in> D \<or> card D + 1 < NBUF"

lemma write_log_spec:
  assumes "held me {} s" and "log_wf s" and "card (dirty_blocks s) < NBUF"
    and "\<And>i. i < nat (lh_n (lh (log s))) \<Longrightarrow> pinned_or_room s (dirty_blocks s) (logged s i)"
    and "\<And>j. j \<le> nat (lh_n (lh (log s))) \<Longrightarrow> R (disk_copies (log_area s) (\<lambda>i. blk s (logged s i)) j (memdisk s))"
  shows "wpc write_log (\<lambda>_ t. held me {} t \<and> same_rest t s \<and> dirty_blocks t = dirty_blocks s
    \<and> memdisk t = disk_copies (log_area s) (\<lambda>i. blk s (logged s i)) (nat (lh_n (lh (log s)))) (memdisk s)
    \<and> blk t = blk_copies (log_area s) (\<lambda>i. blk s (logged s i)) (nat (lh_n (lh (log s)))) (blk s)) R s"
proof -
  let ?v = "\<lambda>i. blk s (logged s i)" and ?n = "nat (lh_n (lh (log s)))"
  define I where "I j t \<longleftrightarrow> held me {} t \<and> same_rest t s \<and> dirty_blocks t = dirty_blocks s
    \<and> memdisk t = disk_copies (log_area s) ?v j (memdisk s) \<and> blk t = blk_copies (log_area s) ?v j (blk s)" for j t
  have n: "?n \<le> LOGSIZE" using assms(2) unfolding log_wf_def by linarith
  show ?thesis
    unfolding write_log_def log_n_def wpc_bind wpc_basic I_def [symmetric]
  proof (rule wpc_for_upt)
    show "I 0 s" using assms(1) by (simp add: I_def)
    fix j t
    assume j: "j < ?n" and I: "I j t"
    then have t: "held me {} t" "same_rest t s" "dirty_blocks t = dirty_blocks s" by (simp_all add: I_def)
    have lg: "log t = log s" "disksize t = disksize s" "log_dev (log s) = 1" using t(2) assms(2) by (simp_all add: same_rest_def log_wf_def)
    have la: "log_area t = log_area s" by (rule log_area_rest [OF t(2)])
    have area: "unat (log_area s j) < disksize s" "\<not> outside s (log_area s j)" using unat_log_area [OF assms(2)] j n by simp_all
    have home: "outside s (logged s j)" "unat (logged s j) < disksize s" using assms(2) j by (simp_all add: log_wf_def)
    have val: "blk t (logged s j) = ?v j"
      using I home(1) unat_log_area(3) [OF assms(2)] j n
      by (simp add: I_def) (metis blk_copies_other less_trans order_less_le_trans)
    show "wpc (if LOGSIZE \<le> j then kfault else kbind (kget (\<lambda>s. (log_dev (log s), log_start (log s) + of_nat j + 1, logged s j)))
       (\<lambda>(dev, lno, dno). kbind (bread dev lno) (\<lambda>to. kbind (bread dev dno) (\<lambda>from.
         kseq (kmod (\<lambda>s. set_data to (buf_data from s) s)) (kseq (bwrite to) (kseq (brelse from) (brelse to)))))))
       (\<lambda>_. I (Suc j)) R t"
      using j n lg
    proof (simp add: wpc_bind [of "kget _"] wpc_basic log_area_def [symmetric], intro wpc_copy_to_first [OF t(1)], goal_cases)
      case (8 u)
      then show ?case using I val t la by (simp add: I_def same_rest_trans)
    qed (use la area home assms(2-5) t lg I j in \<open>auto simp: log_wf_def pinned_or_room_def I_def\<close>)
  qed
qed

lemma install_trans_spec:
  assumes "held me {} s" and "log_wf s" and "card (dirty_blocks s) < NBUF"
    and "\<And>i. i < nat (lh_n (lh (log s))) \<Longrightarrow> pinned_or_room s (dirty_blocks s - set (take i (lh_block (lh (log s))))) (logged s i)"
    and "\<And>j. j \<le> nat (lh_n (lh (log s))) \<Longrightarrow> R (disk_copies (\<lambda>i. logged s i) (\<lambda>i. blk s (log_area s i)) j (memdisk s))"
  shows "wpc install_trans (\<lambda>_ t. held me {} t \<and> same_rest t s
    \<and> dirty_blocks t = dirty_blocks s - set (take (nat (lh_n (lh (log s)))) (lh_block (lh (log s))))
    \<and> memdisk t = disk_copies (\<lambda>i. logged s i) (\<lambda>i. blk s (log_area s i)) (nat (lh_n (lh (log s)))) (memdisk s)
    \<and> blk t = blk_copies (\<lambda>i. logged s i) (\<lambda>i. blk s (log_area s i)) (nat (lh_n (lh (log s)))) (blk s)) R s"
proof -
  let ?v = "\<lambda>i. blk s (log_area s i)" and ?n = "nat (lh_n (lh (log s)))" and ?b = "lh_block (lh (log s))"
  define I where "I j t \<longleftrightarrow> held me {} t \<and> same_rest t s \<and> dirty_blocks t = dirty_blocks s - set (take j ?b)
    \<and> memdisk t = disk_copies (\<lambda>i. logged s i) ?v j (memdisk s) \<and> blk t = blk_copies (\<lambda>i. logged s i) ?v j (blk s)" for j t
  have n: "?n \<le> LOGSIZE" using assms(2) unfolding log_wf_def by linarith
  have len: "length ?b = LOGSIZE" using assms(2) by (simp add: log_wf_def)
  show ?thesis
    unfolding install_trans_def log_n_def wpc_bind wpc_basic I_def [symmetric]
  proof (rule wpc_for_upt)
    show "I 0 s" using assms(1) by (simp add: I_def)
    fix j t
    assume j: "j < ?n" and I: "I j t"
    then have t: "held me {} t" "same_rest t s" "dirty_blocks t = dirty_blocks s - set (take j ?b)" by (simp_all add: I_def)
    have lg: "log t = log s" "disksize t = disksize s" "log_dev (log s) = 1" using t(2) assms(2) by (simp_all add: same_rest_def log_wf_def)
    have la: "log_area t = log_area s" by (rule log_area_rest [OF t(2)])
    have area: "unat (log_area s j) < disksize s" "\<not> outside s (log_area s j)" using unat_log_area [OF assms(2)] j n by simp_all
    have home: "outside s (logged s i)" "unat (logged s i) < disksize s" if "i < ?n" for i using assms(2) that by (simp_all add: log_wf_def)
    have val: "blk t (log_area s j) = ?v j"
      using I home(1) area(2) j by (simp add: I_def) (metis blk_copies_other less_trans)
    have card: "card (dirty_blocks t) < NBUF"
      using t(3) assms(3) card_mono [OF dirty_blocks_finite [of s], of "dirty_blocks t"] by simp
    have more: "set (take (Suc j) ?b) = insert (?b ! j) (set (take j ?b))"
      using j n len by (simp add: take_Suc_conv_app_nth)
    show "wpc (if LOGSIZE \<le> j then kfault else kbind (kget (\<lambda>s. (log_dev (log s), log_start (log s) + of_nat j + 1, logged s j)))
       (\<lambda>(dev, lno, dno). kbind (bread dev lno) (\<lambda>lbuf. kbind (bread dev dno) (\<lambda>dbuf.
         kseq (kmod (\<lambda>s. set_data dbuf (buf_data lbuf s) s)) (kseq (bwrite dbuf) (kseq (brelse lbuf) (brelse dbuf)))))))
       (\<lambda>_. I (Suc j)) R t"
      using j n lg
    proof (simp add: wpc_bind [of "kget _"] wpc_basic log_area_def [symmetric], intro wpc_copy_to_second [OF t(1)], goal_cases)
      case (8 u)
      then show ?case using I val t la more by (auto simp: I_def intro: same_rest_trans)
    next
      case 6
      then show ?case using assms(4) [OF j] t(3) by (auto simp: pinned_or_room_def)
    next
      case 7
      then show ?case using assms(5) [of j] j I by (simp add: I_def)
    qed (use la area home [OF j] assms(2) t lg card in \<open>auto simp: log_wf_def\<close>)
  qed
qed

subsection \<open>The header block\<close>

definition put_head :: "block \<Rightarrow> logheader \<Rightarrow> block" where
  "put_head d h = fold (\<lambda>i d. put32 d (4 + 4 * i) (lh_block h ! i)) [0 ..< nat (lh_n h)] (put32 d 0 (word_of_int (lh_n h)))"

definition head_n :: "block \<Rightarrow> int" where
  "head_n d = sint (get32 d 0)"

definition head_block :: "block \<Rightarrow> nat \<Rightarrow> 32 word" where
  "head_block d i = get32 d (4 + 4 * i)"

lemma length_put_blocks [simp]: "length (fold (\<lambda>i d. put32 d (4 + 4 * i) (b i)) [0 ..< n] d) = length d"
  by (induction n) simp_all

lemma get32_put_blocks:
  assumes "4 + 4 * n \<le> length d"
  shows "get32 (fold (\<lambda>i d. put32 d (4 + 4 * i) (b i)) [0 ..< n] d) 0 = get32 d 0"
    and "i < n \<Longrightarrow> get32 (fold (\<lambda>i d. put32 d (4 + 4 * i) (b i)) [0 ..< n] d) (4 + 4 * i) = b i"
  using assms by (induction n) (auto simp: less_Suc_eq)

lemma head_put_head:
  assumes "0 \<le> lh_n h" and "lh_n h \<le> int LOGSIZE" and "length d = BSIZE"
  shows "head_n (put_head d h) = lh_n h" and "i < nat (lh_n h) \<Longrightarrow> head_block (put_head d h) i = lh_block h ! i"
    and "length (put_head d h) = BSIZE"
proof -
  have n: "4 + 4 * nat (lh_n h) \<le> length (put32 d 0 (word_of_int (lh_n h)))" using assms by simp
  have "sint (word_of_int (lh_n h) :: 32 word) = lh_n h"
    using assms(1,2) by (simp add: signed_of_int signed_take_bit_int_eq_self)
  then show "head_n (put_head d h) = lh_n h"
    unfolding head_n_def put_head_def get32_put_blocks(1) [OF n] using assms(3) by simp
  show "i < nat (lh_n h) \<Longrightarrow> head_block (put_head d h) i = lh_block h ! i"
    unfolding head_block_def put_head_def by (rule get32_put_blocks(2) [OF n])
  show "length (put_head d h) = BSIZE" using assms(3) by (simp add: put_head_def)
qed

lemma set_data_simps:
  assumes "b < length (bufs (bcache s))"
  shows "buf_data b (set_data b d s) = d" and "set_data b d (set_data b d' s) = set_data b d s"
    and "log (set_data b d s) = log s" and "b < length (bufs (bcache (set_data b d s)))" and "set_data b (buf_data b s) s = s"
  using assms by (simp_all add: set_data_def buf_data_def upd_buf_upd) (simp add: upd_buf_def upd_def)

lemma put_blocks_run:
  assumes "b < length (bufs (bcache s))" and "n \<le> LOGSIZE"
  shows "kfor [0 ..< n] (\<lambda>i. if LOGSIZE \<le> i then kfault
       else kmod (\<lambda>s. set_data b (put32 (buf_data b s) (4 + 4 * i) (logged s i)) s)) s
    = Done () (set_data b (fold (\<lambda>i d. put32 d (4 + 4 * i) (logged s i)) [0 ..< n] (buf_data b s)) s)"
  using assms(2)
proof (induction n)
  case 0
  then show ?case using set_data_simps(5) [OF assms(1)] by simp
next
  case (Suc n)
  then show ?case using set_data_simps [OF assms(1)] by (simp add: kfor_append run_app)
qed

lemma write_head_spec:
  assumes "held me {} s" and "log_wf s" and "card (dirty_blocks s) < NBUF" and "R (memdisk s)"
    and "hd' = put_head (blk s (log_start (log s))) (lh (log s))"
  shows "wpc write_head (\<lambda>_ t. held me {} t \<and> same_rest t s \<and> dirty_blocks t = dirty_blocks s
    \<and> memdisk t = (memdisk s)[unat (log_start (log s)) := hd'] \<and> blk t = (blk s)(log_start (log s) := hd')) R s"
proof -
  let ?L = "log_start (log s)"
  have n: "nat (lh_n (lh (log s))) \<le> LOGSIZE" using assms(2) unfolding log_wf_def by linarith
  have L: "unat ?L < disksize s" "?L \<notin> dirty_blocks s" "log_dev (log s) = 1"
    using assms(2) by (auto simp: log_wf_def outside_def)
  have "wpc (bread 1 ?L) (\<lambda>b. wpc (kseq (kmod (\<lambda>s. set_data b (put32 (buf_data b s) 0 (word_of_int (lh_n (lh (log s))))) s)) (
     kseq (kbind log_n (\<lambda>n. kfor [0 ..< nat n] (\<lambda>i.
       if LOGSIZE \<le> i then kfault
       else kmod (\<lambda>s. set_data b (put32 (buf_data b s) (4 + 4 * i) (logged s i)) s)))) (
     kseq (bwrite b) (brelse b))))
     (\<lambda>_ t. held me {} t \<and> same_rest t s \<and> dirty_blocks t = dirty_blocks s
      \<and> memdisk t = (memdisk s)[unat ?L := hd'] \<and> blk t = (blk s)(?L := hd')) R) R s"
  proof (rule wpc_bread [OF assms(1)], goal_cases)
    case (5 b t1)
    note t1 = 5
    have h1: "held me {(b, ?L)} t1" using t1(1) by simp
    have lg: "log t1 = log s" "disksize t1 = disksize s" using t1(6) by (simp_all add: same_rest_def)
    have bl: "b < length (bufs (bcache t1))" using heldD(3) [OF h1] heldD(5) [OF h1, of b ?L] by (simp add: has_def)
    have d: "buf_data b t1 = blk s ?L" using held_data [OF h1, of b ?L] t1(3) by simp
    let ?t2 = "set_data b (put32 (buf_data b t1) 0 (word_of_int (lh_n (lh (log t1))))) t1"
    have bl2: "b < length (bufs (bcache ?t2))" using set_data_simps(4) [OF bl] .
    have loop: "kfor [0 ..< nat (lh_n (lh (log s)))] (\<lambda>i. if LOGSIZE \<le> i then kfault
         else kmod (\<lambda>s. set_data b (put32 (buf_data b s) (4 + 4 * i) (logged s i)) s)) ?t2 = Done () (set_data b hd' t1)"
      using put_blocks_run [OF bl2 n] set_data_simps [OF bl] d lg by (simp add: assms(5) put_head_def)
    note t3 = held_set_data [OF h1, of b ?L hd']
    have "wpc (bwrite b) (\<lambda>_. wpc (brelse b) (\<lambda>_ t. held me {} t \<and> same_rest t s \<and> dirty_blocks t = dirty_blocks s
        \<and> memdisk t = (memdisk s)[unat ?L := hd'] \<and> blk t = (blk s)(?L := hd')) R) R (set_data b hd' t1)"
    proof (rule wpc_bwrite [where me = me and H = "{(b, ?L)}" and n = ?L], goal_cases)
      case (5 t4)
      note t4 = 5
      show ?case
      proof (rule wpc_brelse [OF t4(1), where n = ?L and H = "{}"], goal_cases)
        case 3
        have "length (memdisk s) = disksize s" using heldD(1) [OF assms(1)] by (simp add: cache_ok_def)
        then show ?case using t4 t3(2,5) t1(4) L(1) by simp
      next
        case (4 t5)
        have "same_rest t5 s"
          using same_rest_trans [OF 4(5) same_rest_trans [OF t4(5) same_rest_trans [OF t3(4) t1(6)]]] by simp
        then show ?case using 4 t4 t3 t1 L(2) by simp
      qed simp_all
    qed (use t3 t1 lg L assms(4) in \<open>simp_all add: same_rest_def\<close>)
    then show ?case
      using loop set_data_simps(3) [OF bl] lg by (simp add: wpc_seq wpc_bind wpc_basic log_n_def wpc_def [of "kfor _ _"])
  qed (use L assms(3) in simp_all)
  then show ?thesis using L(3) by (simp add: write_head_def wpc_bind wpc_basic)
qed

lemma log_upd_facts [simp]:
  "held me H (log_update g s) = held me H s" "dirty_blocks (log_update g s) = dirty_blocks s"
  "buf_data b (log_update g s) = buf_data b s"
  "blk (log_update g s) n = blk s n"
  by (auto simp: held_def cache_ok_def buf_ok_def has_def holds_def me_pid_def blk_def dirty_blocks_def buf_data_def
      split: option.split)

lemma blk_log_upd [simp]: "blk (log_update g s) = blk s"
  by (rule ext) simp

definition head_blocks :: "block \<Rightarrow> nat \<Rightarrow> 32 word list \<Rightarrow> 32 word list" where
  "head_blocks d n bl = fold (\<lambda>i bl. bl[i := head_block d i]) [0 ..< n] bl"

lemma head_blocks_nth: "n \<le> length bl \<Longrightarrow> length (head_blocks d n bl) = length bl \<and> (\<forall>i < n. head_blocks d n bl ! i = head_block d i)"
  by (induction n) (auto simp: head_blocks_def less_Suc_eq)

lemma get_blocks_run:
  assumes "n \<le> LOGSIZE"
  shows "kfor [0 ..< n] (\<lambda>i. if LOGSIZE \<le> i then kfault
       else kmod (\<lambda>s. upd_lh (\<lambda>h. h\<lparr>lh_block := (lh_block h)[i := get32 (buf_data b s) (4 + 4 * i)]\<rparr>) s)) s
    = Done () (upd_lh (\<lambda>h. h\<lparr>lh_block := head_blocks (buf_data b s) n (lh_block h)\<rparr>) s)"
  using assms
proof (induction n)
  case (Suc n)
  then show ?case by (simp add: kfor_append run_app upd_lh_def head_blocks_def head_block_def)
qed (simp add: upd_lh_def head_blocks_def)

lemma read_head_spec:
  assumes "held me {} s" and "card (dirty_blocks s) < NBUF" and "log_dev (log s) = 1"
    and "unat (log_start (log s)) < disksize s" and "log_start (log s) \<notin> dirty_blocks s"
    and "d = memdisk s ! unat (log_start (log s))" and "0 \<le> head_n d" and "head_n d \<le> int LOGSIZE"
  shows "wp read_head (\<lambda>_ t. held me {} t \<and> dirty_blocks t = dirty_blocks s \<and> memdisk t = memdisk s \<and> blk t = blk s
    \<and> disksize t = disksize s \<and> log t = (log s)\<lparr>lh := (lh (log s))\<lparr>lh_n := head_n d, lh_block := head_blocks d (nat (head_n d)) (lh_block (lh (log s)))\<rparr>\<rparr>) s"
proof -
  let ?L = "log_start (log s)" and ?n = "nat (head_n d)"
  let ?f = "\<lambda>s. s\<lparr>log := (log s)\<lparr>lh := (lh (log s))\<lparr>lh_n := head_n d, lh_block := head_blocks d ?n (lh_block (lh (log s)))\<rparr>\<rparr>\<rparr>"
  have n: "?n \<le> LOGSIZE" using assms(8) by linarith
  have d: "d = blk s ?L" using blk_clean [OF assms(1), of ?L] assms(5,6) by simp
  have "wp (bread 1 ?L) (\<lambda>b. wp (kseq (kmod (\<lambda>s. upd_lh (\<lambda>h. h\<lparr>lh_n := sint (get32 (buf_data b s) 0)\<rparr>) s)) (
     kseq (kbind log_n (\<lambda>n. kfor [0 ..< nat n] (\<lambda>i.
       if LOGSIZE \<le> i then kfault
       else kmod (\<lambda>s. upd_lh (\<lambda>h. h\<lparr>lh_block := (lh_block h)[i := get32 (buf_data b s) (4 + 4 * i)]\<rparr>) s)))) (
     brelse b))) (\<lambda>_ t. held me {} t \<and> dirty_blocks t = dirty_blocks s \<and> memdisk t = memdisk s \<and> blk t = blk s
    \<and> disksize t = disksize s \<and> log t = log (?f s))) s"
  proof (rule wp_conseq [OF held_bread [OF assms(1) held_can_read [OF assms(1)]]])
    fix b t1
    assume t1: "held me (insert (b, ?L) {}) t1 \<and> b \<notin> fst ` {} \<and> blk t1 = blk s \<and> memdisk t1 = memdisk s
      \<and> dirty_blocks t1 = dirty_blocks s \<and> power t1 = power s \<and> same_rest t1 s"
    then have lg: "log t1 = log s" "disksize t1 = disksize s" by (simp_all add: same_rest_def)
    have bd: "buf_data b t1 = d" using held_data [of me "insert (b, ?L) {}" t1 b ?L] t1 d by simp
    have "wp (brelse b) (\<lambda>_ t. held me {} t \<and> blk t = blk (?f t1) \<and> memdisk t = memdisk (?f t1)
        \<and> dirty_blocks t = dirty_blocks (?f t1) \<and> power t = power (?f t1) \<and> same_rest t (?f t1)) (?f t1)"
      using t1 d assms(6) by (intro held_brelse [where n = ?L]) simp_all
    then have br: "wp (brelse b) (\<lambda>_ t. held me {} t \<and> dirty_blocks t = dirty_blocks s \<and> memdisk t = memdisk s
        \<and> blk t = blk s \<and> disksize t = disksize s \<and> log t = log (?f s)) (?f t1)"
      by (rule wp_conseq) (use t1 lg in \<open>simp add: same_rest_def\<close>)
    show "wp (kseq (kmod (\<lambda>s. upd_lh (\<lambda>h. h\<lparr>lh_n := sint (get32 (buf_data b s) 0)\<rparr>) s)) (
     kseq (kbind log_n (\<lambda>n. kfor [0 ..< nat n] (\<lambda>i.
       if LOGSIZE \<le> i then kfault
       else kmod (\<lambda>s. upd_lh (\<lambda>h. h\<lparr>lh_block := (lh_block h)[i := get32 (buf_data b s) (4 + 4 * i)]\<rparr>) s)))) (
     brelse b))) (\<lambda>_ t. held me {} t \<and> dirty_blocks t = dirty_blocks s \<and> memdisk t = memdisk s \<and> blk t = blk s
    \<and> disksize t = disksize s \<and> log t = log (?f s)) t1"
      using br get_blocks_run [OF n, of b] bd
      by (simp add: wp_simps log_n_def wp_def [of "kfor _ _"] upd_lh_def head_n_def)
  qed (use assms in simp_all)
  then show ?thesis using assms(3) by (simp add: read_head_def wp_bind [of "kget _"] wp_get wp_bind)
qed

subsection \<open>Commit and recovery as functions on the disk\<close>

lemma disk_copies_agree:
  assumes "length D = length D'" and "\<And>m. m < length D \<Longrightarrow> (\<And>i. i < n \<Longrightarrow> unat (p i) \<noteq> m) \<Longrightarrow> D ! m = D' ! m"
  shows "disk_copies p v n D = disk_copies p v n D'"
proof -
  have "disk_copies p v n D ! m = disk_copies p v n D' ! m" if "m < length D" for m
    using assms(2) [OF that] that assms(1)
  proof (induction n)
    case (Suc n)
    then show ?case by (cases "unat (p n) = m") (auto simp: less_Suc_eq)
  qed simp
  then show ?thesis using assms(1) by (intro nth_equalityI) simp_all
qed

lemma disk_copies_value:
  assumes "\<And>i. i < n \<Longrightarrow> v i = f (p i)" and "unat m < length D"
  shows "disk_copies p v n D ! unat m = (if \<exists>i < n. p i = m then f m else D ! unat m)"
  using assms
proof (induction n)
  case (Suc n)
  then show ?case by (cases "p n = m") (auto simp: less_Suc_eq disk_other)
qed simp

lemma blk_copies_value:
  assumes "\<And>i. i < n \<Longrightarrow> v i = f (p i)"
  shows "blk_copies p v n g m = (if \<exists>i < n. p i = m then f m else g m)"
  using assms by (induction n) (auto simp: less_Suc_eq)

text \<open>The disk that recovery makes of the disk \<open>D\<close>, with the log at block \<open>L\<close>.\<close>

definition recovered :: "nat \<Rightarrow> block list \<Rightarrow> block list" where
  "recovered L D = (disk_copies (head_block (D ! L)) (\<lambda>i. D ! (L + 1 + i)) (nat (head_n (D ! L))) D)[L := put32 (D ! L) 0 0]"

text \<open>The header on disk is good: it names blocks of the disk outside the log.\<close>

definition head_ok :: "nat \<Rightarrow> block list \<Rightarrow> bool" where
  "head_ok L D \<longleftrightarrow> 0 \<le> head_n (D ! L) \<and> head_n (D ! L) \<le> int LOGSIZE
     \<and> (\<forall>i < nat (head_n (D ! L)). unat (head_block (D ! L) i) < length D
         \<and> (unat (head_block (D ! L) i) < L \<or> L + LOGSIZE < unat (head_block (D ! L) i)))"

lemma recovered_old:
  assumes "head_n (D ! L) = 0" and "m \<noteq> L"
  shows "recovered L D ! m = D ! m"
  using assms by (simp add: recovered_def)

lemma recovered_new:
  assumes "head_n (D ! L) = n" and "\<And>i. i < nat n \<Longrightarrow> D ! (L + 1 + i) = new (head_block (D ! L) i)"
    and "(\<And>i. i < nat n \<Longrightarrow> head_block (D ! L) i \<noteq> m) \<Longrightarrow> D ! unat m = new m"
    and "unat m < length D" and "unat m \<noteq> L"
  shows "recovered L D ! unat m = new m"
proof -
  have "disk_copies (head_block (D ! L)) (\<lambda>i. D ! (L + 1 + i)) (nat (head_n (D ! L))) D ! unat m = new m"
    using assms(1,2,3) by (subst disk_copies_value [OF _ assms(4), where f = new]) auto
  then show ?thesis using assms(5) by (simp add: recovered_def)
qed

text \<open>Installing a prefix of the log first makes no difference.\<close>

lemma recovered_prefix:
  assumes "head_ok L D" and "L < length D" and "j \<le> nat (head_n (D ! L))"
    and "D' = disk_copies (head_block (D ! L)) (\<lambda>i. D ! (L + 1 + i)) j D"
  shows "recovered L D' = recovered L D" and "head_ok L D'"
proof -
  let ?p = "head_block (D ! L)" and ?v = "\<lambda>i. D ! (L + 1 + i)" and ?n = "nat (head_n (D ! L))"
  have out: "unat (?p i) \<noteq> L + k" if "i < ?n" "k \<le> LOGSIZE" for i k
    using assms(1) that by (auto simp: head_ok_def)
  have L: "D' ! L = D ! L" unfolding assms(4) using assms(3) out [of _ 0] by (intro disk_copies_other) auto
  have n: "?n \<le> LOGSIZE" using assms(1) unfolding head_ok_def by linarith
  have v: "D' ! (L + 1 + i) = ?v i" if "i < ?n" for i
  proof -
    have "i + 1 \<le> LOGSIZE" using that n by linarith
    then show ?thesis unfolding assms(4) using assms(3) out [of _ "i + 1"]
      by (intro disk_copies_other) (simp add: add.assoc)
  qed
  have "disk_copies ?p (\<lambda>i. D' ! (L + 1 + i)) ?n D' = disk_copies ?p ?v ?n D'"
    using v by (auto simp: disk_copies_def intro!: fold_cong)
  also have "\<dots> = disk_copies ?p ?v ?n D"
    using assms(3) by (intro disk_copies_agree) (auto simp: assms(4) disk_copies_other)
  finally show "recovered L D' = recovered L D" by (simp add: recovered_def L)
  show "head_ok L D'" using assms(1) unfolding head_ok_def L by (simp add: assms(4))
qed

lemma disk_copies_cong:
  "(\<And>i. i < n \<Longrightarrow> p i = p' i) \<Longrightarrow> (\<And>i. i < n \<Longrightarrow> v i = v' i) \<Longrightarrow> disk_copies p v n D = disk_copies p' v' n D"
  by (auto simp: disk_copies_def intro!: fold_cong)

lemma clear_head:
  assumes "held me {} s" and "log_wf s" and "card (dirty_blocks s) < NBUF" and "R (memdisk s)"
  shows "wpc (kseq (set_log_n 0) write_head) (\<lambda>_ t. held me {} t \<and> dirty_blocks t = dirty_blocks s \<and> same_rest t (upd_lh (\<lambda>h. h\<lparr>lh_n := 0\<rparr>) s)
    \<and> memdisk t = (memdisk s)[unat (log_start (log s)) := put32 (blk s (log_start (log s))) 0 0]) R s"
proof -
  let ?s = "upd_lh (\<lambda>h. h\<lparr>lh_n := 0\<rparr>) s"
  have wf: "log_wf ?s" using assms(2) by (simp add: log_wf_def upd_lh_def outside_def)
  have h: "held me {} ?s" "card (dirty_blocks ?s) < NBUF" "R (memdisk ?s)" using assms by (simp_all add: upd_lh_def)
  have "wpc write_head (\<lambda>_ t. held me {} t \<and> same_rest t ?s \<and> dirty_blocks t = dirty_blocks ?s
    \<and> memdisk t = (memdisk ?s)[unat (log_start (log ?s)) := put_head (blk ?s (log_start (log ?s))) (lh (log ?s))]
    \<and> blk t = (blk ?s)(log_start (log ?s) := put_head (blk ?s (log_start (log ?s))) (lh (log ?s)))) R ?s"
    by (rule write_head_spec [where R = R, OF h(1) wf h(2)]) (use h(3) in simp_all)
  then show ?thesis unfolding set_log_n_def wpc_seq wpc_basic
    by (rule wpc_conseq) (simp_all add: upd_lh_def put_head_def)
qed

lemma recover_spec:
  assumes "held me {} s" and "dirty_blocks s = {}" and "log_dev (log s) = 1" and "length (lh_block (lh (log s))) = LOGSIZE"
    and "L = unat (log_start (log s))" and "L + LOGSIZE < disksize s" and "disksize s \<le> 2 ^ 32" and "head_ok L (memdisk s)"
  shows "wpc recover_from_log
    (\<lambda>_ t. held me {} t \<and> dirty_blocks t = {} \<and> lh_n (lh (log t)) = 0 \<and> memdisk t = recovered L (memdisk s))
    (\<lambda>D. recovered L D = recovered L (memdisk s) \<and> head_ok L D \<and> length D = length (memdisk s)) s"
proof -
  let ?D = "memdisk s" and ?d = "memdisk s ! L"
  let ?n = "nat (head_n ?d)" and ?p = "head_block ?d" and ?v = "\<lambda>i. memdisk s ! (L + 1 + i)"
  let ?R = "\<lambda>D. recovered L D = recovered L ?D \<and> head_ok L D \<and> length D = length ?D"
  have n: "0 \<le> head_n ?d" "head_n ?d \<le> int LOGSIZE" using assms(8) by (simp_all add: head_ok_def)
  have nL: "?n \<le> LOGSIZE" using n by linarith
  have len: "length ?D = disksize s" using heldD(1) [OF assms(1)] by (simp add: cache_ok_def)
  have crash: "?R (disk_copies ?p ?v j ?D)" if "j \<le> ?n" for j
    using recovered_prefix [OF assms(8) _ that refl] assms(6) len by simp
  have tail: "wpc (kseq install_trans (kseq (set_log_n 0) write_head))
      (\<lambda>_ t. held me {} t \<and> dirty_blocks t = {} \<and> lh_n (lh (log t)) = 0 \<and> memdisk t = recovered L ?D) ?R t"
    if t: "held me {} t" "dirty_blocks t = {}" "memdisk t = ?D" "disksize t = disksize s"
      and lg: "log t = (log s)\<lparr>lh := (lh (log s))\<lparr>lh_n := head_n ?d, lh_block := head_blocks ?d ?n (lh_block (lh (log s)))\<rparr>\<rparr>" for t
  proof -
    have hb: "length (lh_block (lh (log t))) = LOGSIZE" "\<And>i. i < ?n \<Longrightarrow> logged t i = ?p i"
      using head_blocks_nth [of ?n "lh_block (lh (log s))" ?d] nL assms(4) lg by simp_all
    have st: "log_start (log t) = log_start (log s)" "nat (lh_n (lh (log t))) = ?n" using lg by simp_all
    have wf: "log_wf t"
      using t lg hb assms(3,5-8) n len by (auto simp: log_wf_def outside_def head_ok_def)
    have v: "blk t (log_area t i) = ?v i" if "i < ?n" for i
      using blk_clean [OF t(1), of "log_area t i"] unat_log_area(1) [OF wf, of i] that nL t(2,3) st assms(5) by simp
    have dc: "disk_copies (\<lambda>i. logged t i) (\<lambda>i. blk t (log_area t i)) j (memdisk t) = disk_copies ?p ?v j ?D" if "j \<le> ?n" for j
      using hb(2) v that t(3) by (simp, intro disk_copies_cong) simp_all
    have "wpc install_trans (\<lambda>_ u. held me {} u \<and> same_rest u t
      \<and> dirty_blocks u = dirty_blocks t - set (take ?n (lh_block (lh (log t))))
      \<and> memdisk u = disk_copies (\<lambda>i. logged t i) (\<lambda>i. blk t (log_area t i)) ?n (memdisk t)
      \<and> blk u = blk_copies (\<lambda>i. logged t i) (\<lambda>i. blk t (log_area t i)) ?n (blk t)) ?R t"
      using install_trans_spec [OF t(1) wf, where R = ?R] dc crash t(2) st(2) by (simp add: pinned_or_room_def)
    then show ?thesis unfolding wpc_seq [of install_trans]
    proof (rule wpc_conseq, elim conjE)
      fix x u
      assume u: "held me {} u" "same_rest u t" "dirty_blocks u = dirty_blocks t - set (take ?n (lh_block (lh (log t))))"
        "memdisk u = disk_copies (\<lambda>i. logged t i) (\<lambda>i. blk t (log_area t i)) ?n (memdisk t)"
      have su: "log_start (log u) = log_start (log s)" using u(2) st by (simp add: same_rest_def)
      have wfu: "log_wf u" using log_wf_rest [OF u(2) _ wf] u(3) by auto
      have mu: "memdisk u = disk_copies ?p ?v ?n ?D" using u(4) dc by simp
      have "memdisk u ! L = ?d"
        unfolding mu using assms(8) by (intro disk_copies_other) (auto simp: head_ok_def)
      then have "blk u (log_start (log u)) = ?d" using blk_clean [OF u(1), of "log_start (log u)"] u(3) t(2) su assms(5) by simp
      then have "wpc (kseq (set_log_n 0) write_head) (\<lambda>_ w. held me {} w \<and> dirty_blocks w = dirty_blocks u \<and> same_rest w (upd_lh (\<lambda>h. h\<lparr>lh_n := 0\<rparr>) u)
          \<and> memdisk w = (memdisk u)[L := put32 ?d 0 0]) ?R u"
        using clear_head [OF u(1) wfu, where R = ?R] u(3) t(2) crash [of ?n] mu su assms(5) by simp
      then show "wpc (kseq (set_log_n 0) write_head)
        (\<lambda>_ w. held me {} w \<and> dirty_blocks w = {} \<and> lh_n (lh (log w)) = 0 \<and> memdisk w = recovered L ?D) ?R u"
        by (rule wpc_conseq) (use u(3) t(2) mu in \<open>simp_all add: recovered_def same_rest_def upd_lh_def\<close>)
    qed simp
  qed
  show ?thesis unfolding recover_from_log_def wpc_seq [of read_head]
  proof (rule wpc_of_wp [OF read_head_spec [OF assms(1), where d = ?d]], goal_cases)
    case (8 x t)
    then show ?case using tail [of t] assms(2) by simp
  qed (use assms n in simp_all)
qed

end
