(* ===== verification/Crash.thy ===== *)
theory Crash
  imports Log
begin

section \<open>Crash safety of the log\<close>

text \<open>
  The machine may lose power at every write to the disk.  The theorems of this theory say what the
  disk is worth then: \<open>recover_from_log\<close>, which runs at the next boot and may itself be cut off any
  number of times, restores either all of a transaction or nothing of it.
\<close>

text \<open>A block of the file system proper, outside the log.\<close>

definition data_block :: "kworld \<Rightarrow> 32 word \<Rightarrow> bool" where
  "data_block s m \<longleftrightarrow> outside s m \<and> unat m < disksize s"

text \<open>
  The situation in which \<open>commit\<close> runs: no buffer is in use, the header in memory lists exactly the
  dirty buffers, and the header on the disk is empty.  \<open>log_write\<close> stops one short of the size of the
  log, so at least one buffer of the cache is not dirty.
\<close>

definition transaction :: "nat \<Rightarrow> kworld \<Rightarrow> bool" where
  "transaction me s \<longleftrightarrow> held me {} s \<and> log_wf s \<and> 0 < lh_n (lh (log s)) \<and> lh_n (lh (log s)) < int NBUF
     \<and> distinct (take (nat (lh_n (lh (log s)))) (lh_block (lh (log s))))
     \<and> set (take (nat (lh_n (lh (log s)))) (lh_block (lh (log s)))) = dirty_blocks s
     \<and> head_n (memdisk s ! unat (log_start (log s))) = 0
     \<and> length (memdisk s ! unat (log_start (log s))) = BSIZE"

lemma transactionD:
  assumes "transaction me s"
  shows "held me {} s" and "log_wf s" and "0 < lh_n (lh (log s))" and "nat (lh_n (lh (log s))) < NBUF"
    and "nat (lh_n (lh (log s))) \<le> LOGSIZE" and "length (lh_block (lh (log s))) = LOGSIZE"
    and "length (memdisk s) = disksize s" and "log_start (log s) \<notin> dirty_blocks s"
    and "head_n (memdisk s ! unat (log_start (log s))) = 0" and "length (memdisk s ! unat (log_start (log s))) = BSIZE"
    and "unat (log_start (log s)) < disksize s"
proof -
  show h: "held me {} s" "log_wf s" "0 < lh_n (lh (log s))" "nat (lh_n (lh (log s))) < NBUF"
    "head_n (memdisk s ! unat (log_start (log s))) = 0" "length (memdisk s ! unat (log_start (log s))) = BSIZE"
    using assms by (auto simp: transaction_def)
  show "nat (lh_n (lh (log s))) \<le> LOGSIZE" using h(2) unfolding log_wf_def by linarith
  show "length (lh_block (lh (log s))) = LOGSIZE" "log_start (log s) \<notin> dirty_blocks s" "unat (log_start (log s)) < disksize s"
    using h(2) by (auto simp: log_wf_def outside_def)
  show "length (memdisk s) = disksize s" using heldD(1) [OF h(1)] by (simp add: cache_ok_def)
qed

lemma transaction_dirty:
  assumes "transaction me s"
  shows "m \<in> dirty_blocks s \<longleftrightarrow> (\<exists>i < nat (lh_n (lh (log s))). logged s i = m)"
    and "card (dirty_blocks s) < NBUF"
proof -
  let ?l = "take (nat (lh_n (lh (log s)))) (lh_block (lh (log s)))"
  have l: "length ?l = nat (lh_n (lh (log s)))" using transactionD(5,6) [OF assms] by simp
  have d: "dirty_blocks s = set ?l" "distinct ?l" using assms by (simp_all add: transaction_def)
  show "m \<in> dirty_blocks s \<longleftrightarrow> (\<exists>i < nat (lh_n (lh (log s))). logged s i = m)"
    unfolding d(1) in_set_conv_nth l by auto
  show "card (dirty_blocks s) < NBUF" using d l transactionD(4) [OF assms] by (simp add: distinct_card)
qed

lemma transaction_first:
  assumes "transaction me s" and "i < nat (lh_n (lh (log s)))"
  shows "logged s i \<in> dirty_blocks s - set (take i (lh_block (lh (log s))))"
proof -
  let ?n = "nat (lh_n (lh (log s)))" and ?b = "lh_block (lh (log s))"
  have len: "?n \<le> length ?b" using transactionD(5,6) [OF assms(1)] by simp
  have d: "distinct (take ?n ?b)" using assms(1) by (simp add: transaction_def)
  have "?b ! k \<noteq> ?b ! i" if "k < i" for k
    using d assms(2) that len nth_eq_iff_index_eq [OF d, of k i] by simp
  then have "logged s i \<notin> set (take i ?b)" by (auto simp: in_set_conv_nth)
  then show ?thesis using transaction_dirty(1) [OF assms(1)] assms(2) by auto
qed

lemma home_not_log:
  assumes "log_wf s" and "outside s m" and "k \<le> LOGSIZE"
  shows "unat m \<noteq> unat (log_start (log s)) + k"
  using assms by (auto simp: outside_def)

lemma log_home:
  assumes "log_wf s" and "i < nat (lh_n (lh (log s)))"
  shows "data_block s (logged s i)"
  using assms by (simp add: log_wf_def data_block_def)

subsection \<open>Before and after the commit point\<close>

text \<open>Any number of writes to the log itself leave the recovered file system as it was.\<close>

lemma logging_recovers_old:
  assumes "log_wf s" and "j \<le> LOGSIZE" and "L = unat (log_start (log s))" and "head_n (memdisk s ! L) = 0" and "data_block s m"
    and "D = disk_copies (log_area s) v j (memdisk s)"
  shows "recovered L D ! unat m = memdisk s ! unat m"
proof -
  have k: "unat (log_area s i) = L + (i + 1)" if "i < j" for i using unat_log_area(1) [OF assms(1)] that assms(2,3) by simp
  have "D ! L = memdisk s ! L" unfolding assms(6) using k by (intro disk_copies_other) simp
  moreover have "D ! unat m = memdisk s ! unat m"
    unfolding assms(6)
  proof (rule disk_copies_other)
    fix i assume "i < j"
    then show "unat (log_area s i) \<noteq> unat m"
      using home_not_log [OF assms(1), of m "i + 1"] k [of i] assms(2,3,5) by (auto simp: data_block_def)
  qed
  moreover have "unat m \<noteq> L" using home_not_log [OF assms(1), of m 0] assms(3,5) by (simp add: data_block_def)
  ultimately show ?thesis using recovered_old [of D L "unat m"] assms(4) by simp
qed

lemma logging_head_ok:
  assumes "log_wf s" and "j \<le> LOGSIZE" and "L = unat (log_start (log s))" and "head_n (memdisk s ! L) = 0"
  shows "head_ok L (disk_copies (log_area s) v j (memdisk s))"
proof -
  have "disk_copies (log_area s) v j (memdisk s) ! L = memdisk s ! L"
    using unat_log_area(1) [OF assms(1)] assms(2,3) by (intro disk_copies_other) simp
  then show ?thesis using assms(4) by (simp add: head_ok_def)
qed

text \<open>Once the header is written, the recovered file system is the new one, however far the copies have come.\<close>

lemma installing_recovers_new:
  assumes "transaction me s" and "L = unat (log_start (log s))" and "n = nat (lh_n (lh (log s)))" and "j \<le> n" and "length D = disksize s"
    and "D ! L = put_head (memdisk s ! L) (lh (log s))"
    and "\<And>i. i < n \<Longrightarrow> D ! (L + 1 + i) = blk s (logged s i)"
    and "\<And>m. data_block s m \<Longrightarrow> D ! unat m = memdisk s ! unat m"
    and "D' = disk_copies (\<lambda>i. logged s i) (\<lambda>i. blk s (logged s i)) j D" and "data_block s m"
  shows "recovered L D' ! unat m = blk s m" and "D' ! L = D ! L"
    and "j = n \<Longrightarrow> D' ! unat m = blk s m"
proof -
  note T = transactionD [OF assms(1)]
  have home: "unat (logged s i) \<noteq> L + k" if "i < n" "k \<le> LOGSIZE" for i k
    using home_not_log [OF T(2) _ that(2)] log_home [OF T(2)] that(1) assms(2,3) by (simp add: data_block_def)
  have area: "D' ! (L + k) = D ! (L + k)" if "k \<le> LOGSIZE" for k
    unfolding assms(9) using home [OF _ that] assms(4) by (intro disk_copies_other) auto
  show L: "D' ! L = D ! L" using area [of 0] by simp
  have hd: "head_n (D' ! L) = lh_n (lh (log s))" "\<And>i. i < n \<Longrightarrow> head_block (D' ! L) i = logged s i"
    using head_put_head [of "lh (log s)" "memdisk s ! L"] T(2,10) assms(2,3,6) L by (simp_all add: log_wf_def)
  have m: "unat m < disksize s" "unat m \<noteq> L"
    using assms(2,10) home_not_log [OF T(2), of m 0] by (simp_all add: data_block_def)
  have val: "D' ! unat m = (if \<exists>i < j. logged s i = m then blk s m else D ! unat m)"
    unfolding assms(9) using m(1) assms(5) by (intro disk_copies_value) simp_all
  have clean: "D ! unat m = blk s m" if "\<And>i. i < n \<Longrightarrow> logged s i \<noteq> m"
    using that assms(3,8,10) transaction_dirty(1) [OF assms(1), of m] blk_clean [OF T(1), of m] by auto
  show "j = n \<Longrightarrow> D' ! unat m = blk s m" using val clean by auto
  show "recovered L D' ! unat m = blk s m"
  proof (rule recovered_new [OF hd(1)])
    fix i assume i: "i < nat (lh_n (lh (log s)))"
    then have "i + 1 \<le> LOGSIZE" using T(5) by simp
    then show "D' ! (L + 1 + i) = blk s (head_block (D' ! L) i)"
      using area [of "i + 1"] assms(7) [of i] assms(3) hd(2) i by (simp add: add.assoc)
  next
    assume "\<And>i. i < nat (lh_n (lh (log s))) \<Longrightarrow> head_block (D' ! L) i \<noteq> m"
    then show "D' ! unat m = blk s m" using val clean hd(2) assms(3,4) by auto
  qed (use m assms(5,9) in simp_all)
qed

lemma installing_head_ok:
  assumes "transaction me s" and "L = unat (log_start (log s))" and "n = nat (lh_n (lh (log s)))" and "j \<le> n" and "length D = disksize s"
    and "D ! L = put_head (memdisk s ! L) (lh (log s))"
    and "D' = disk_copies (\<lambda>i. logged s i) (\<lambda>i. blk s (logged s i)) j D"
  shows "head_ok L D'" and "length D' = disksize s"
proof -
  note T = transactionD [OF assms(1)]
  show len: "length D' = disksize s" using assms(5,7) by simp
  have "D' ! L = D ! L"
    unfolding assms(7) using home_not_log [OF T(2), of _ 0] log_home [OF T(2)] assms(2-4)
    by (intro disk_copies_other) (auto simp: data_block_def)
  then have "head_n (D' ! L) = lh_n (lh (log s))" "\<And>i. i < n \<Longrightarrow> head_block (D' ! L) i = logged s i"
    using head_put_head [of "lh (log s)" "memdisk s ! L"] T(2,10) assms(2,3,6) by (simp_all add: log_wf_def)
  then show "head_ok L D'" using T(2) len assms(2,3) by (auto simp: head_ok_def log_wf_def outside_def)
qed

subsection \<open>Commit\<close>

lemma write_log_blk:
  assumes "log_wf s" and "n = nat (lh_n (lh (log s)))" and "f = blk_copies (log_area s) (\<lambda>i. blk s (logged s i)) n (blk s)"
    and "D = disk_copies (log_area s) (\<lambda>i. blk s (logged s i)) n (memdisk s)" and "length (memdisk s) = disksize s"
  shows "i < n \<Longrightarrow> f (log_area s i) = blk s (logged s i)"
    and "i < n \<Longrightarrow> D ! (unat (log_start (log s)) + 1 + i) = blk s (logged s i)"
    and "f (log_start (log s)) = blk s (log_start (log s))"
    and "D ! unat (log_start (log s)) = memdisk s ! unat (log_start (log s))"
    and "data_block s m \<Longrightarrow> D ! unat m = memdisk s ! unat m"
proof -
  let ?v = "\<lambda>i. blk s (logged s i)" and ?L = "unat (log_start (log s))"
  have n: "n \<le> LOGSIZE" using assms(1,2) unfolding log_wf_def by linarith
  have k: "unat (log_area s i) = ?L + 1 + i" if "i < n" for i using unat_log_area(1) [OF assms(1), of i] that n by simp
  define g where "g w = ?v (unat w - ?L - 1)" for w :: "32 word"
  have g: "?v i = g (log_area s i)" if "i < n" for i using k [OF that] by (simp add: g_def)
  show "f (log_area s i) = ?v i" if i: "i < n"
  proof -
    have "f (log_area s i) = (if \<exists>k < n. log_area s k = log_area s i then g (log_area s i) else blk s (log_area s i))"
      unfolding assms(3) by (rule blk_copies_value) (rule g)
    then show ?thesis using i unfolding g [OF i] by metis
  qed
  show "f (log_start (log s)) = blk s (log_start (log s))"
    unfolding assms(3) using unat_log_area(4) [OF assms(1)] n by (intro blk_copies_other) auto
  show "D ! (?L + 1 + i) = ?v i" if i: "i < n"
  proof -
    have "unat (log_area s i) < length (memdisk s)" using unat_log_area(2) [OF assms(1), of i] i n assms(5) by simp
    then have "D ! unat (log_area s i) = (if \<exists>k < n. log_area s k = log_area s i then g (log_area s i) else memdisk s ! unat (log_area s i))"
      unfolding assms(4) by (rule disk_copies_value [rotated]) (rule g)
    then show ?thesis using i unfolding g [OF i] k [OF i] by metis
  qed
  show "D ! ?L = memdisk s ! ?L" unfolding assms(4) using k by (intro disk_copies_other) simp
  show "data_block s m \<Longrightarrow> D ! unat m = memdisk s ! unat m"
    unfolding assms(4)
  proof (rule disk_copies_other)
    fix i assume "data_block s m" and "i < n"
    then show "unat (log_area s i) \<noteq> unat m"
      using home_not_log [OF assms(1), of m "1 + i"] k [of i] n by (auto simp: data_block_def)
  qed
qed

definition old_files :: "kworld \<Rightarrow> block list \<Rightarrow> bool" where
  "old_files s D \<longleftrightarrow> (\<forall>m. data_block s m \<longrightarrow> D ! unat m = memdisk s ! unat m)"

definition new_files :: "kworld \<Rightarrow> block list \<Rightarrow> bool" where
  "new_files s D \<longleftrightarrow> (\<forall>m. data_block s m \<longrightarrow> D ! unat m = blk s m)"

text \<open>The crash conditions: the next boot can recover from the disk \<open>D\<close>, to the old or to the new files.\<close>

definition recovers_to :: "(block list \<Rightarrow> bool) \<Rightarrow> kworld \<Rightarrow> block list \<Rightarrow> bool" where
  "recovers_to P s D \<longleftrightarrow> head_ok (unat (log_start (log s))) D \<and> length D = disksize s
     \<and> P (recovered (unat (log_start (log s))) D)"

lemma install_and_clear:
  assumes "transaction me s" and "L = unat (log_start (log s))" and "held me {} t" and "same_rest t s" and "dirty_blocks t = dirty_blocks s"
    and "length (memdisk t) = disksize s" and "memdisk t ! L = put_head (memdisk s ! L) (lh (log s))"
    and "\<And>i. i < nat (lh_n (lh (log s))) \<Longrightarrow> memdisk t ! (L + 1 + i) = blk s (logged s i)"
    and "\<And>m. data_block s m \<Longrightarrow> memdisk t ! unat m = memdisk s ! unat m"
  shows "wpc (kseq install_trans (kseq (set_log_n 0) write_head))
    (\<lambda>_ u. held me {} u \<and> dirty_blocks u = {} \<and> same_rest u (upd_lh (\<lambda>h. h\<lparr>lh_n := 0\<rparr>) s) \<and> head_n (memdisk u ! L) = 0
      \<and> length (memdisk u ! L) = BSIZE \<and> new_files s (memdisk u))
    (recovers_to (new_files s) s) t"
proof -
  let ?n = "nat (lh_n (lh (log s)))" and ?R = "recovers_to (new_files s) s"
  let ?C = "\<lambda>j. disk_copies (\<lambda>i. logged s i) (\<lambda>i. blk s (logged s i)) j (memdisk t)"
  note T = transactionD [OF assms(1)]
  note new = installing_recovers_new [OF assms(1,2) refl _ assms(6-9) refl]
  have lg: "log t = log s" "disksize t = disksize s" using assms(4) by (simp_all add: same_rest_def)
  have wf: "log_wf t" by (rule log_wf_rest [OF assms(4) _ T(2)]) (simp add: assms(5))
  have la: "log_area t = log_area s" by (rule log_area_rest [OF assms(4)])
  have v: "blk t (log_area s i) = blk s (logged s i)" if "i < ?n" for i
  proof -
    have i: "i < LOGSIZE" using that T(5) by simp
    have "log_area s i \<notin> dirty_blocks s" using unat_log_area(3) [OF T(2) i] T(2) by (auto simp: log_wf_def)
    then have "blk t (log_area s i) = memdisk t ! unat (log_area s i)" using blk_clean [OF assms(3)] assms(5) by simp
    then show ?thesis using unat_log_area(1) [OF T(2) i] assms(2,8) that by simp
  qed
  have dc: "disk_copies (\<lambda>i. logged t i) (\<lambda>i. blk t (log_area t i)) j (memdisk t) = ?C j" if "j \<le> ?n" for j
    using v that la lg by (intro disk_copies_cong) simp_all
  have crash: "?R (?C j)" if "j \<le> ?n" for j 
    using new(1) [OF that] installing_head_ok [OF assms(1,2) refl that assms(6,7) refl] assms(2) by (simp add: new_files_def recovers_to_def)
  have "wpc install_trans (\<lambda>_ u. held me {} u \<and> same_rest u t \<and> dirty_blocks u = dirty_blocks t - set (take ?n (lh_block (lh (log t))))
      \<and> memdisk u = disk_copies (\<lambda>i. logged t i) (\<lambda>i. blk t (log_area t i)) ?n (memdisk t)
      \<and> blk u = blk_copies (\<lambda>i. logged t i) (\<lambda>i. blk t (log_area t i)) ?n (blk t)) ?R t"
    using install_trans_spec [OF assms(3) wf, where R = ?R] dc crash transaction_first [OF assms(1)] transaction_dirty(2) [OF assms(1)]
      assms(5) lg by (simp add: pinned_or_room_def)
  then show ?thesis unfolding wpc_seq [of install_trans]
  proof (rule wpc_conseq, elim conjE)
    fix x u
    assume u: "held me {} u" "same_rest u t" "dirty_blocks u = dirty_blocks t - set (take ?n (lh_block (lh (log t))))"
      "memdisk u = disk_copies (\<lambda>i. logged t i) (\<lambda>i. blk t (log_area t i)) ?n (memdisk t)"
    have du: "dirty_blocks u = {}" using u(3) assms(1,5) lg by (simp add: transaction_def)
    have wfu: "log_wf u" by (rule log_wf_rest [OF u(2) _ wf]) (simp add: du)
    have mu: "memdisk u = ?C ?n" using u(4) dc by simp
    have su: "log_start (log u) = log_start (log s)" using u(2) lg by (simp add: same_rest_def)
    have "wpc (kseq (set_log_n 0) write_head) (\<lambda>_ w. held me {} w \<and> dirty_blocks w = dirty_blocks u \<and> same_rest w (upd_lh (\<lambda>h. h\<lparr>lh_n := 0\<rparr>) u)
        \<and> memdisk w = (memdisk u)[L := put32 (blk u (log_start (log s))) 0 0]) ?R u"
      using clear_head [OF u(1) wfu, where R = ?R] crash [of ?n] mu du su assms(2) by simp
    then show "wpc (kseq (set_log_n 0) write_head) (\<lambda>_ w. held me {} w \<and> dirty_blocks w = {} \<and> same_rest w (upd_lh (\<lambda>h. h\<lparr>lh_n := 0\<rparr>) s)
        \<and> head_n (memdisk w ! L) = 0 \<and> length (memdisk w ! L) = BSIZE \<and> new_files s (memdisk w)) ?R u"
    proof (rule wpc_conseq)
      fix y w
      assume w: "held me {} w \<and> dirty_blocks w = dirty_blocks u \<and> same_rest w (upd_lh (\<lambda>h. h\<lparr>lh_n := 0\<rparr>) u)
        \<and> memdisk w = (memdisk u)[L := put32 (blk u (log_start (log s))) 0 0]"
      have far: "L \<noteq> unat m" if "data_block s m" for m
        using that home_not_log [OF T(2), of m 0] assms(2) by (auto simp: data_block_def)
      have lu: "blk u (log_start (log s)) = put_head (memdisk s ! L) (lh (log s))"
      proof -
        have "?C ?n ! L = memdisk t ! L"
          using home_not_log [OF T(2), of _ 0] log_home [OF T(2)] assms(2) by (intro disk_copies_other) (simp add: data_block_def)
        then show ?thesis using blk_clean [OF u(1), of "log_start (log s)"] du mu assms(2,7) by simp
      qed
      have "same_rest w (upd_lh (\<lambda>h. h\<lparr>lh_n := 0\<rparr>) s)"
        using w u(2) assms(4) by (simp add: same_rest_def upd_lh_def)
      moreover have "new_files s (memdisk w)" using w far mu new(3) [OF order.refl] by (simp add: new_files_def)
      moreover have "head_n (memdisk w ! L) = 0 \<and> length (memdisk w ! L) = BSIZE"
        using w lu T(2,10,11) head_put_head(3) [of "lh (log s)" "memdisk s ! L"] assms(2,6) mu by (simp add: head_n_def log_wf_def)
      ultimately show "held me {} w \<and> dirty_blocks w = {} \<and> same_rest w (upd_lh (\<lambda>h. h\<lparr>lh_n := 0\<rparr>) s)
        \<and> head_n (memdisk w ! L) = 0 \<and> length (memdisk w ! L) = BSIZE \<and> new_files s (memdisk w)" using w du by simp
    qed
  qed
qed

lemma commit_spec:
  assumes "transaction me s" and "L = unat (log_start (log s))"
  shows "wpc commit
    (\<lambda>_ t. held me {} t \<and> dirty_blocks t = {} \<and> same_rest t (upd_lh (\<lambda>h. h\<lparr>lh_n := 0\<rparr>) s) \<and> head_n (memdisk t ! L) = 0
      \<and> length (memdisk t ! L) = BSIZE \<and> new_files s (memdisk t))
    (\<lambda>D. recovers_to (old_files s) s D \<or> recovers_to (new_files s) s D) s"
proof -
  let ?n = "nat (lh_n (lh (log s)))" and ?R = "\<lambda>D. recovers_to (old_files s) s D \<or> recovers_to (new_files s) s D"
  let ?v = "\<lambda>i. blk s (logged s i)" and ?hd = "put_head (memdisk s ! L) (lh (log s))"
  let ?Q = "\<lambda>_ t. held me {} t \<and> dirty_blocks t = {} \<and> same_rest t (upd_lh (\<lambda>h. h\<lparr>lh_n := 0\<rparr>) s) \<and> head_n (memdisk t ! L) = 0
      \<and> length (memdisk t ! L) = BSIZE \<and> new_files s (memdisk t)"
  note T = transactionD [OF assms(1)]
  note card = transaction_dirty(2) [OF assms(1)]
  have before: "?R (disk_copies (log_area s) ?v j (memdisk s))" if "j \<le> ?n" for j
    using logging_recovers_old [OF T(2) _ refl T(9), of j] logging_head_ok [OF T(2) _ refl T(9), of j] T(5,7) that
    by (simp add: old_files_def recovers_to_def)
  have "wpc write_log (\<lambda>_ t. held me {} t \<and> same_rest t s \<and> dirty_blocks t = dirty_blocks s
    \<and> memdisk t = disk_copies (log_area s) ?v ?n (memdisk s) \<and> blk t = blk_copies (log_area s) ?v ?n (blk s)) ?R s"
    using transaction_dirty(1) [OF assms(1)]
    by (intro write_log_spec [OF T(1,2) card, where R = ?R] before) (auto simp: pinned_or_room_def)
  then have "wpc write_log (\<lambda>_. wpc (kseq write_head (kseq install_trans (kseq (set_log_n 0) write_head))) ?Q ?R) ?R s"
  proof (rule wpc_conseq, elim conjE)
    fix x t
    assume t: "held me {} t" "same_rest t s" "dirty_blocks t = dirty_blocks s"
      "memdisk t = disk_copies (log_area s) ?v ?n (memdisk s)" "blk t = blk_copies (log_area s) ?v ?n (blk s)"
    note W = write_log_blk [OF T(2) refl t(5,4) T(7)]
    have lg: "log t = log s" using t(2) by (simp add: same_rest_def)
    have wf: "log_wf t" by (rule log_wf_rest [OF t(2) _ T(2)]) (simp add: t(3))
    have hd: "?hd = put_head (blk t (log_start (log t))) (lh (log t))"
      using W(3) blk_clean [OF T(1), of "log_start (log s)"] T(8) lg assms(2) by simp
    have card': "card (dirty_blocks t) < NBUF" using card t(3) by simp
    have Rt: "?R (memdisk t)" using before [of ?n] t(4) by simp
    show "wpc (kseq write_head (kseq install_trans (kseq (set_log_n 0) write_head))) ?Q ?R t"
      unfolding wpc_seq [of write_head]
    proof (rule wpc_conseq [OF write_head_spec [where R = ?R, OF t(1) wf card' Rt hd]], elim conjE)
      fix y u
      assume u: "held me {} u" "same_rest u t" "dirty_blocks u = dirty_blocks t"
        "memdisk u = (memdisk t)[unat (log_start (log t)) := ?hd]"
      have len: "length (memdisk t) = disksize s" using t(4) T(7) by simp
      have mu: "memdisk u = (memdisk t)[L := ?hd]" using u(4) lg assms(2) by simp
      have far: "L \<noteq> unat m" if "data_block s m" for m
        using that home_not_log [OF T(2), of m 0] assms(2) by (auto simp: data_block_def)
      have "wpc (kseq install_trans (kseq (set_log_n 0) write_head)) ?Q (recovers_to (new_files s) s) u"
        by (rule install_and_clear [OF assms u(1) same_rest_trans [OF u(2) t(2)]])
           (use u(3) t(3) mu len W far T(11) assms(2) in auto)
      then show "wpc (kseq install_trans (kseq (set_log_n 0) write_head)) ?Q ?R u"
        by (rule wpc_conseq) auto
    qed
  qed
  then show ?thesis using T(3) unfolding commit_def log_n_def by (simp add: wpc_simps)
qed

subsection \<open>Recording a block\<close>

definition log_ok :: "kworld \<Rightarrow> bool" where
  "log_ok s \<longleftrightarrow> log_wf s \<and> distinct (take (nat (lh_n (lh (log s)))) (lh_block (lh (log s))))
     \<and> set (take (nat (lh_n (lh (log s)))) (lh_block (lh (log s)))) = dirty_blocks s"

lemma log_record_props:
  assumes "0 \<le> lh_n h" and "lh_n h < int LOGSIZE" and "length (lh_block h) = LOGSIZE" and "distinct (take (nat (lh_n h)) (lh_block h))"
  shows "take (nat (lh_n (log_record b h))) (lh_block (log_record b h))
      = (if b \<in> set (take (nat (lh_n h)) (lh_block h)) then take (nat (lh_n h)) (lh_block h) else take (nat (lh_n h)) (lh_block h) @ [b])"
    and "lh_n (log_record b h) = lh_n h + (if b \<in> set (take (nat (lh_n h)) (lh_block h)) then 0 else 1)"
    and "length (lh_block (log_record b h)) = LOGSIZE"
proof -
  let ?n = "nat (lh_n h)" and ?l = "lh_block h"
  have n: "?n < length ?l" using assms(1-3) by simp
  have "log_slot b h < length ?l \<and> (if b \<in> set (take ?n ?l) then log_slot b h < ?n \<and> ?l[log_slot b h := b] = ?l else log_slot b h = ?n)"
  proof (cases "find_idx ((=) b) (take ?n ?l)")
    case None
    then have "b \<notin> set (take ?n ?l)" by (auto simp: find_idx_None)
    then show ?thesis using None n by (simp add: log_slot_def)
  next
    case (Some i)
    then have i: "i < length (take ?n ?l)" "take ?n ?l ! i = b" using find_idx_SomeD [OF Some] by auto
    then have "b \<in> set (take ?n ?l)" by (metis nth_mem)
    moreover have "?l[i := b] = ?l" using i by (metis length_take list_update_id min_less_iff_conj nth_take)
    ultimately show ?thesis using Some i n by (simp add: log_slot_def)
  qed
  then show "take (nat (lh_n (log_record b h))) (lh_block (log_record b h)) = (if b \<in> set (take ?n ?l) then take ?n ?l else take ?n ?l @ [b])"
    "lh_n (log_record b h) = lh_n h + (if b \<in> set (take ?n ?l) then 0 else 1)" "length (lh_block (log_record b h)) = LOGSIZE"
    using n assms(1,3) by (auto simp: log_record_def Let_def nat_add_distrib take_Suc_conv_app_nth split: if_splits)
qed

text \<open>What \<open>log_write\<close> does to the state: the block is in the header, its buffer is dirty.\<close>

definition recorded :: "nat \<Rightarrow> kworld \<Rightarrow> kworld" where
  "recorded b s = upd_buf b (\<lambda>p. p\<lparr>b_dirty := True\<rparr>) (upd_lh (log_record (b_blockno (bufs (bcache s) ! b))) s)"

lemma recorded_sect: "core (recorded b s) = recorded b (core s)" "recorded b (acquired l s) = acquired l (recorded b s)"
  by (simp_all add: recorded_def upd_lh_def upd_buf_sect core_upd acquired_upd)

lemma log_write_run:
  assumes "calm me s" and "lh_n (lh (log s)) < int LOGSIZE" and "lh_n (lh (log s)) < log_size (log s) - 1" and "0 < outstanding (log s)"
  shows "wp (log_write b) (\<lambda>_ t. core t = core (recorded b s)) s"
proof -
  have "wp (kseq (acquire LogLock) (kseq (kmod (recorded b)) (release LogLock))) (\<lambda>_ t. core t = core (recorded b s)) s"
    using calmD(1) [OF assms(1)]
    by (intro section_core [OF refl assms(1)]) (simp_all add: recorded_sect, simp add: recorded_def upd_lh_def)
  then show ?thesis using assms by (simp add: log_write_def wp_simps recorded_def)
qed

lemma held_recorded:
  assumes "held me H s" and "(i, n) \<in> H" and "t = recorded i s"
  shows "held me H t" and "blk t = blk s" and "dirty_blocks t = insert n (dirty_blocks s)"
    and "memdisk t = memdisk s" and "log t = (log s)\<lparr>lh := log_record n (lh (log s))\<rparr>" and "fsys t = fsys s" and "disksize t = disksize s"
    and "slocks t = slocks s" and "power t = power s"
proof -
  have len: "length (bufs (bcache s)) = NBUF" by (rule heldD(3) [OF assms(1)])
  have h: "i < NBUF" "caches n (bufs (bcache s) ! i)" "b_refcnt (bufs (bcache s) ! i) = 1"
    using heldD(5) [OF assms(1,2)] by (simp_all add: has_def)
  have b: "bufs (bcache t) = upd i (\<lambda>p. p\<lparr>b_dirty := True\<rparr>) (bufs (bcache s))"
    by (simp add: assms(3) recorded_def upd_lh_def)
  have f: "slocks t = slocks s" "memdisk t = memdisk s" "disksize t = disksize s" "procs t = procs s" "calm me t = calm me s"
    "fsys t = fsys s" "power t = power s" by (simp_all add: assms(3) recorded_def upd_lh_def)
  show "slocks t = slocks s" "memdisk t = memdisk s" "disksize t = disksize s" "fsys t = fsys s" "power t = power s" by (fact f)+
  show "log t = (log s)\<lparr>lh := log_record n (lh (log s))\<rparr>" using h(2) by (simp add: assms(3) recorded_def upd_lh_def caches_def)
  have ku: "keys_unique (bufs (bcache t))" using heldD(4) [OF assms(1)] by (simp add: b keys_unique_upd)
  have ok: "buf_ok t j" if "j < NBUF" for j
  proof -
    have "buf_ok s j" using heldD(1) [OF assms(1)] that by (simp add: cache_ok_def)
    then show ?thesis using h len by (cases "j = i") (simp_all add: buf_ok_def b f Let_def caches_def)
  qed
  have "ring (bcache t) xs = ring (bcache s) xs" for xs by (simp add: assms(3) recorded_def upd_lh_def ring_def)
  then have "cache_ok t" using heldD(1) [OF assms(1)] ku ok by (simp add: cache_ok_def b f)
  moreover have same: "b_refcnt (bufs (bcache t) ! j) = b_refcnt (bufs (bcache s) ! j)"
    "caches m (bufs (bcache t) ! j) = caches m (bufs (bcache s) ! j)" for j m
    using h len by (cases "j = i"; simp add: b caches_def)+
  moreover have "has me j m t = has me j m s" for j m using same by (simp add: has_def holds_def me_pid_def f)
  ultimately show "held me H t" using assms(1) by (simp add: held_def f)
  show "blk t = blk s"
    using blk_upd_held [OF assms(1,2) ku f(2) b] held_data [OF assms(1,2)] by (simp add: caches_def buf_data_def fun_upd_idem)
  have "b_dirty (bufs (bcache t) ! j) = (j = i \<or> b_dirty (bufs (bcache s) ! j))" if "j < NBUF" for j
    using that len by (cases "j = i") (simp_all add: b)
  then show "dirty_blocks t = insert n (dirty_blocks s)"
    using h same(2) by (auto simp: dirty_blocks_def caches_def)
qed

lemma log_ok_recorded:
  assumes "log_ok s" and "held me H s" and "(i, n) \<in> H" and "data_block s n" and "lh_n (lh (log s)) < int LOGSIZE" and "t = recorded i s"
  shows "log_ok t" and "lh_n (lh (log t)) = lh_n (lh (log s)) + (if n \<in> dirty_blocks s then 0 else 1)"
proof -
  note R = held_recorded [OF assms(2,3,6)]
  have wf: "0 \<le> lh_n (lh (log s))" "length (lh_block (lh (log s))) = LOGSIZE" "log_wf s"
    "distinct (take (nat (lh_n (lh (log s)))) (lh_block (lh (log s))))"
    "set (take (nat (lh_n (lh (log s)))) (lh_block (lh (log s)))) = dirty_blocks s"
    using assms(1) by (simp_all add: log_ok_def log_wf_def)
  note P = log_record_props [OF wf(1) assms(5) wf(2,4), of n]
  show n: "lh_n (lh (log t)) = lh_n (lh (log s)) + (if n \<in> dirty_blocks s then 0 else 1)" using P(2) R(5) wf(5) by simp
  let ?l = "take (nat (lh_n (lh (log t)))) (lh_block (lh (log t)))"
  have d: "distinct ?l" "set ?l = dirty_blocks t" using P(1) R(3,5) wf(4,5) by (auto simp: insert_absorb)
  have out: "outside t m = outside s m" for m using R(5) by (simp add: outside_def)
  have all: "unat m < disksize s \<and> outside s m" if "m \<in> set ?l" for m
  proof -
    have "m \<in> insert n (set (take (nat (lh_n (lh (log s)))) (lh_block (lh (log s)))))" using that d(2) R(3) wf(5) by simp
    then show ?thesis using wf(2,3) assms(4) by (auto simp: log_wf_def data_block_def in_set_conv_nth)
  qed
  have "unat (logged t k) < disksize s \<and> outside s (logged t k)" if "k < nat (lh_n (lh (log t)))" for k
  proof -
    have "nat (lh_n (lh (log t))) \<le> LOGSIZE" using n assms(5) by (cases "n \<in> dirty_blocks s") (simp_all add: nat_le_iff)
    then have "?l ! k \<in> set ?l" using that P(3) R(5) by (intro nth_mem) simp
    then show ?thesis using all [of "?l ! k"] that by simp
  qed
  moreover have "outside s m" if "m \<in> dirty_blocks t" for m using all d(2) that by auto
  ultimately have "log_wf t" using wf(3) n P(3) R(5,7) out assms(5) by (simp add: log_wf_def)
  then show "log_ok t" using d by (simp add: log_ok_def)
qed

subsection \<open>Operations of a transaction\<close>

text \<open>The log between transactions.\<close>

definition log_idle :: "nat \<Rightarrow> kworld \<Rightarrow> bool" where
  "log_idle me s \<longleftrightarrow> held me {} s \<and> log_wf s \<and> dirty_blocks s = {} \<and> lh_n (lh (log s)) = 0 \<and> outstanding (log s) = 0
     \<and> \<not> committing (log s) \<and> head_n (memdisk s ! unat (log_start (log s))) = 0
     \<and> length (memdisk s ! unat (log_start (log s))) = BSIZE"

text \<open>Nothing changed but the header of the log, the buffers and the disk.\<close>

definition same_but_head :: "kworld \<Rightarrow> kworld \<Rightarrow> bool" where
  "same_but_head t s \<longleftrightarrow> (\<exists>h. log t = (log s)\<lparr>lh := h\<rparr>) \<and> fsys t = fsys s \<and> disksize t = disksize s
     \<and> (\<forall>k. slocks t (InodeSleep k) = slocks s (InodeSleep k))"

lemma same_but_head_refl [simp]: "same_but_head s s"
  unfolding same_but_head_def by (intro conjI exI [of _ "lh (log s)"]) simp_all

lemma same_but_head_trans: "same_but_head u t \<Longrightarrow> same_but_head t s \<Longrightarrow> same_but_head u s"
  by (auto simp: same_but_head_def)

lemma same_rest_but_head: "same_rest t s \<Longrightarrow> same_but_head t s"
  unfolding same_but_head_def same_rest_def by (intro conjI exI [of _ "lh (log s)"]) simp_all

lemma same_but_headD:
  assumes "same_but_head t s"
  shows "log_start (log t) = log_start (log s)" and "log_size (log t) = log_size (log s)" and "outstanding (log t) = outstanding (log s)"
    and "committing (log t) = committing (log s)" and "data_block t m = data_block s m" and "log_dev (log t) = log_dev (log s)"
  using assms by (auto simp: same_but_head_def data_block_def outside_def)

lemma log_ok_card:
  assumes "log_ok s"
  shows "card (dirty_blocks s) = nat (lh_n (lh (log s)))"
proof -
  let ?l = "take (nat (lh_n (lh (log s)))) (lh_block (lh (log s)))"
  have "length ?l = nat (lh_n (lh (log s)))" using assms by (simp add: log_ok_def log_wf_def nat_le_iff)
  moreover have "dirty_blocks s = set ?l" "distinct ?l" using assms by (simp_all add: log_ok_def)
  ultimately show ?thesis using distinct_card [of ?l] by simp
qed

lemma log_ok_same:
  assumes "log_ok s" and "lh (log t) = lh (log s)" and "log_start (log t) = log_start (log s)" and "log_dev (log t) = log_dev (log s)"
    and "disksize t = disksize s" and "dirty_blocks t = dirty_blocks s"
  shows "log_ok t"
  using assms by (simp add: log_ok_def log_wf_def outside_def)

lemma held_log_write:
  assumes "held me H s" and "log_ok s" and "(i, n) \<in> H" and "data_block s n" and "lh_n (lh (log s)) < int LOGSIZE"
    and "lh_n (lh (log s)) < log_size (log s) - 1" and "0 < outstanding (log s)"
  shows "wp (log_write i) (\<lambda>_ t. held me H t \<and> log_ok t \<and> blk t = blk s \<and> memdisk t = memdisk s
    \<and> dirty_blocks t = insert n (dirty_blocks s) \<and> same_but_head t s
    \<and> lh_n (lh (log t)) = lh_n (lh (log s)) + (if n \<in> dirty_blocks s then 0 else 1)) s"
proof (rule wp_conseq [OF log_write_run [OF heldD(2) [OF assms(1)] assms(5-7)]])
  fix x t
  assume t: "core t = core (recorded i s)"
  note R = held_recorded [OF assms(1,3) refl] and L = log_ok_recorded [OF assms(2,1,3-5) refl]
  note rest = rest_core [OF t] and data = data_core [OF t]
  have d: "dirty_blocks t = dirty_blocks (recorded i s)" by (rule dirty_core [OF t])
  have "log_ok t" using rest(1,3) d by (intro log_ok_same [OF L(1)]) simp_all
  moreover have "same_but_head t s"
    unfolding same_but_head_def using rest(1,2,3) data(5) R(5-8) by (intro conjI exI [of _ "log_record n (lh (log s))"]) simp_all
  ultimately show "held me H t \<and> log_ok t \<and> blk t = blk s \<and> memdisk t = memdisk s \<and> dirty_blocks t = insert n (dirty_blocks s)
      \<and> same_but_head t s \<and> lh_n (lh (log t)) = lh_n (lh (log s)) + (if n \<in> dirty_blocks s then 0 else 1)"
    using held_core [OF t, of me H] blk_core [OF t] data(2) R(1-4) d L(2) rest(1) by simp
qed

text \<open>The use of \<open>log_write\<close> that the comment above it describes.\<close>

definition op_write :: "32 word \<Rightarrow> block \<Rightarrow> unit kern" where
  "op_write n d =
     kbind (bread 1 n) (\<lambda>bp.
     kseq (kmod (set_data bp d)) (
     kseq (log_write bp) (
     brelse bp)))"

lemma op_write_spec:
  assumes "held me {} s" and "log_ok s" and "data_block s n" and "lh_n (lh (log s)) < int LOGSIZE"
    and "lh_n (lh (log s)) < log_size (log s) - 1" and "0 < outstanding (log s)"
  shows "wp (op_write n d) (\<lambda>_ t. held me {} t \<and> log_ok t \<and> blk t = (blk s)(n := d) \<and> memdisk t = memdisk s
    \<and> same_but_head t s \<and> lh_n (lh (log t)) \<le> lh_n (lh (log s)) + 1) s"
proof -
  have "nat (lh_n (lh (log s))) < NBUF" using assms(4) by linarith
  then have room: "n \<in> dirty_blocks s \<or> card (dirty_blocks s) + card {} < NBUF" using log_ok_card [OF assms(2)] by simp
  have n: "unat n < disksize s" using assms(3) by (simp add: data_block_def)
  show ?thesis unfolding op_write_def wp_bind wp_seq wp_mod
  proof (rule wp_conseq [OF held_bread [OF assms(1) held_can_read [OF assms(1) _ n _ room]]], goal_cases)
    case (4 i t)
    then have t: "held me {(i, n)} t" "blk t = blk s" "memdisk t = memdisk s" "dirty_blocks t = dirty_blocks s" "same_rest t s" by simp_all
    let ?u = "set_data i d t"
    note u = held_set_data [OF t(1), of i n d]
    have lu: "log ?u = log s" "disksize ?u = disksize s" using u(4) t(5) by (simp_all add: same_rest_def)
    have ok: "log_ok ?u" using u(3) t(4) lu by (intro log_ok_same [OF assms(2)]) simp_all
    have db: "data_block ?u n" using assms(3) lu by (simp add: data_block_def outside_def)
    have mem: "(i, n) \<in> {(i, n)}" by simp
    show ?case
    proof (rule wp_conseq [OF held_log_write [OF u(1) ok mem db]], goal_cases)
      case (5 x w)
      then have w: "held me (insert (i, n) {}) w" "n \<in> dirty_blocks w \<or> memdisk w ! unat n = blk w n" by simp_all
      have i: "i \<notin> fst ` ({} :: (nat \<times> 32 word) set)" by simp
      show ?case
      proof (rule wp_conseq [OF held_brelse [OF w(1) i w(2)]], goal_cases)
        case (1 y z)
        have z: "same_rest z w" "dirty_blocks z = dirty_blocks w" "blk z = blk w" "memdisk z = memdisk w" "held me {} z"
          using 1 by simp_all
        have w': "log_ok w" "same_but_head w ?u" "blk w = blk ?u" "memdisk w = memdisk ?u"
          "lh_n (lh (log w)) \<le> lh_n (lh (log ?u)) + 1" using 5 by simp_all
        have "log_ok z" using z(1,2) by (intro log_ok_same [OF w'(1)]) (simp_all add: same_rest_def)
        moreover have "same_but_head z s"
          using same_but_head_trans [OF same_rest_but_head [OF z(1)]] same_but_head_trans [OF w'(2)]
            same_rest_but_head [OF same_rest_trans [OF u(4) t(5)]] by simp
        moreover have "log z = log w" using z(1) by (simp add: same_rest_def)
        ultimately show ?case using z(3-5) w'(3-5) u(2,5) t(2,3) lu(1) by simp
      qed
    qed (use assms lu in simp_all)
  qed simp_all
qed

lemma begin_op_run:
  assumes "calm me s" and "\<not> committing (log s)"
    and "lh_n (lh (log s)) + (outstanding (log s) + 1) * int MAXOPBLOCKS \<le> int LOGSIZE"
  shows "wp begin_op (\<lambda>_ t. core t = core (s\<lparr>log := (log s)\<lparr>outstanding := outstanding (log s) + 1\<rparr>\<rparr>)) s"
proof -
  let ?f = "\<lambda>s. s\<lparr>log := (log s)\<lparr>outstanding := outstanding (log s) + 1\<rparr>\<rparr>"
  have "wp (kseq (acquire LogLock) (kseq (kmod ?f) (release LogLock))) (\<lambda>_ t. core t = core (?f s)) s"
    using calmD(1) [OF assms(1)] by (intro section_core [OF refl assms(1)]) (simp_all add: core_upd acquired_upd)
  moreover have "begin_op_loop (acquired LogLock s) = kseq (kmod ?f) (release LogLock) (acquired LogLock s)"
    using assms(2,3) by (subst begin_op_loop.simps) simp
  ultimately show ?thesis
    using calmD(1) [OF assms(1), of LogLock]
    by (simp add: begin_op_def wp_seq [of "acquire _"] wp_acquire_ready wp_def [of begin_op_loop] wp_def [of "kseq (kmod _) _"])
qed

text \<open>The last process of a transaction commits it.\<close>

lemma wpc_release:
  assumes "core t = core (acquired l s)" and "ready l s" and "\<And>u. core u = core s \<Longrightarrow> Q () u"
  shows "wpc (release l) Q R t"
  by (rule wpc_of_wp [OF wp_leave [OF assms(1,2)]]) (use assms(3) in auto)

lemma wpc_acquire:
  assumes "core t = core s" and "ready l s" and "\<And>u. core u = core (acquired l s) \<Longrightarrow> Q () u"
  shows "wpc (acquire l) Q R t"
proof (rule wpc_of_wp)
  show "wp (acquire l) Q t" using assms by (rule wp_acquire_core)
qed

lemma held_woken: "held me H (s\<lparr>procs := map (woken ch) (procs s)\<rparr>) = held me H s"
proof -
  have "calm me (s\<lparr>procs := map (woken ch) (procs s)\<rparr>) = calm me s"
    by (auto simp: calm_def woken_def split: if_splits)
  moreover have "me_pid me (s\<lparr>procs := map (woken ch) (procs s)\<rparr>) = me_pid me s" if "calm me s"
    using calmD(4,5) [OF that] by (simp add: me_pid_def woken_def)
  moreover have "buf_ok (s\<lparr>procs := map (woken ch) (procs s)\<rparr>) i = buf_ok s i" for i by (simp add: buf_ok_def)
  ultimately show ?thesis by (auto simp: held_def cache_ok_def has_def holds_def)
qed

definition committed :: "nat \<Rightarrow> kworld \<Rightarrow> kworld \<Rightarrow> bool" where
  "committed me s t \<longleftrightarrow> held me {} t \<and> dirty_blocks t = {} \<and> same_rest t (upd_lh (\<lambda>h. h\<lparr>lh_n := 0\<rparr>) s)
     \<and> head_n (memdisk t ! unat (log_start (log s))) = 0 \<and> length (memdisk t ! unat (log_start (log s))) = BSIZE \<and> new_files s (memdisk t)"

lemma commit_any:
  assumes "held me {} s" and "log_ok s" and "lh_n (lh (log s)) < int NBUF"
    and "head_n (memdisk s ! unat (log_start (log s))) = 0" and "length (memdisk s ! unat (log_start (log s))) = BSIZE"
  shows "wpc commit (\<lambda>_ t. committed me s t)
    (\<lambda>D. recovers_to (old_files s) s D \<or> recovers_to (new_files s) s D) s"
proof (cases "0 < lh_n (lh (log s))")
  case True
  then have "transaction me s" using assms by (simp add: transaction_def log_ok_def)
  from commit_spec [OF this refl] show ?thesis by (rule wpc_conseq) (simp_all add: committed_def)
next
  case False
  then have n: "lh_n (lh (log s)) = 0" using assms(2) by (simp add: log_ok_def log_wf_def)
  then have d: "dirty_blocks s = {}" using assms(2) by (simp add: log_ok_def)
  then have "new_files s (memdisk s)" using blk_clean [OF assms(1)] by (simp add: new_files_def)
  moreover have "upd_lh (\<lambda>h. h\<lparr>lh_n := 0\<rparr>) s = s" using n by (simp add: upd_lh_def)
  ultimately have "committed me s s" using assms d by (simp add: committed_def)
  then show ?thesis using n by (simp add: commit_def log_n_def wpc_simps)
qed

lemma finish_op:
  assumes "committed me s t" and "log_ok s" and "outstanding (log s) = 0"
  shows "wpc (kseq (acquire LogLock) (kseq (kmod (\<lambda>s. s\<lparr>log := (log s)\<lparr>committing := False\<rparr>\<rparr>)) (
    kseq (wakeup (Some ChLog)) (release LogLock)))) (\<lambda>_ u. log_idle me u \<and> memdisk u = memdisk t
      \<and> log_start (log u) = log_start (log s) \<and> log_size (log u) = log_size (log s) \<and> disksize u = disksize s) R t"
proof -
  have t: "held me {} t" "dirty_blocks t = {}" "same_rest t (upd_lh (\<lambda>h. h\<lparr>lh_n := 0\<rparr>) s)" using assms(1) by (simp_all add: committed_def)
  have lg: "log t = (log s)\<lparr>lh := (lh (log s))\<lparr>lh_n := 0\<rparr>\<rparr>" "disksize t = disksize s"
    using t(3) by (simp_all add: same_rest_def upd_lh_def)
  have c: "calm me t" by (rule heldD(2) [OF t(1)])
  let ?v = "t\<lparr>log := (log t)\<lparr>committing := False\<rparr>\<rparr>"
  let ?z = "?v\<lparr>procs := map (woken (Some ChLog)) (procs t)\<rparr>"
  have z: "held me {} ?z" "dirty_blocks ?z = {}"
    using held_woken [of me "{}" "Some ChLog" ?v] t(1,2) by (simp_all add: dirty_blocks_def)
  have idle: "log_idle me u" if u: "core u = core ?z" for u
  proof -
    have lu: "log u = (log t)\<lparr>committing := False\<rparr>" "disksize u = disksize t" "memdisk u = memdisk t"
      using rest_core [OF u] data_core(2) [OF u] by simp_all
    have "dirty_blocks u = {}" using dirty_core [OF u] z(2) by simp
    moreover have "log_wf u" using assms(2) lu lg calculation by (simp add: log_ok_def log_wf_def)
    ultimately show ?thesis
      using held_core [OF u] z(1) lu lg assms(1,3) by (simp add: log_idle_def committed_def)
  qed
  have r: "ready l t" "length (procs t) = NPROC" for l using calmD(1,5) [OF c] by simp_all
  show ?thesis unfolding wpc_seq wpc_basic
  proof (rule wpc_acquire [OF refl r(1)])
    fix u1 assume u1: "core u1 = core (acquired LogLock t)"
    have "log u1 = log t" using core_eq_data(20) [OF u1] by simp
    then have u2: "core (u1\<lparr>log := (log u1)\<lparr>committing := False\<rparr>\<rparr>) = core (acquired LogLock ?v)"
      using u1 by (simp add: core_upd acquired_upd [symmetric])
    show "wpc (wakeup (Some ChLog)) (\<lambda>_. wpc (release LogLock) (\<lambda>_ u. log_idle me u \<and> memdisk u = memdisk t
      \<and> log_start (log u) = log_start (log s) \<and> log_size (log u) = log_size (log s) \<and> disksize u = disksize s) R) R
      (u1\<lparr>log := (log u1)\<lparr>committing := False\<rparr>\<rparr>)"
    proof (rule wpc_of_wp [OF wp_wakeup_inside [OF u2]])
      fix u3 assume "core u3 = core (acquired LogLock (?v\<lparr>procs := map (woken (Some ChLog)) (procs ?v)\<rparr>))"
      then have u3: "core u3 = core (acquired LogLock ?z)" by simp
      show "wpc (release LogLock) (\<lambda>_ u. log_idle me u \<and> memdisk u = memdisk t
        \<and> log_start (log u) = log_start (log s) \<and> log_size (log u) = log_size (log s) \<and> disksize u = disksize s) R u3"
      proof (rule wpc_release [OF u3])
        show "ready LogLock ?z" using r(1) by simp
        fix u assume u: "core u = core ?z"
        show "log_idle me u \<and> memdisk u = memdisk t \<and> log_start (log u) = log_start (log s)
          \<and> log_size (log u) = log_size (log s) \<and> disksize u = disksize s"
          using idle [OF u] rest_core [OF u] data_core(2) [OF u] lg by simp
      qed
    qed (use r in simp_all)
  qed
qed

lemma files_cong:
  assumes "log_start (log t) = log_start (log s)" and "disksize t = disksize s" and "memdisk t = memdisk s" and "blk t = blk s"
  shows "old_files t = old_files s" and "new_files t = new_files s" and "recovers_to P t = recovers_to P s"
  using assms by (simp_all add: fun_eq_iff old_files_def new_files_def recovers_to_def data_block_def outside_def)

lemma end_op_spec:
  assumes "held me {} s" and "log_ok s" and "lh_n (lh (log s)) < int NBUF" and "outstanding (log s) = 1" and "\<not> committing (log s)"
    and "head_n (memdisk s ! unat (log_start (log s))) = 0" and "length (memdisk s ! unat (log_start (log s))) = BSIZE"
  shows "wpc end_op (\<lambda>_ t. log_idle me t \<and> new_files s (memdisk t) \<and> log_start (log t) = log_start (log s)
      \<and> log_size (log t) = log_size (log s) \<and> disksize t = disksize s)
    (\<lambda>D. recovers_to (old_files s) s D \<or> recovers_to (new_files s) s D) s"
proof -
  let ?Q = "\<lambda>_ t. log_idle me t \<and> new_files s (memdisk t) \<and> log_start (log t) = log_start (log s)
      \<and> log_size (log t) = log_size (log s) \<and> disksize t = disksize s"
  let ?R = "\<lambda>D. recovers_to (old_files s) s D \<or> recovers_to (new_files s) s D"
  let ?s1 = "s\<lparr>log := (log s)\<lparr>outstanding := 0, committing := True\<rparr>\<rparr>"
  let ?fin = "kseq (acquire LogLock) (kseq (kmod (\<lambda>s. s\<lparr>log := (log s)\<lparr>committing := False\<rparr>\<rparr>)) (
    kseq (wakeup (Some ChLog)) (release LogLock)))"
  have r: "ready l s" for l using calmD(1) [OF heldD(2) [OF assms(1)]] .
  have tail: "wpc (kseq commit ?fin) ?Q ?R t" if c: "core t = core ?s1" for t
  proof -
    have lg: "log t = (log s)\<lparr>outstanding := 0, committing := True\<rparr>" "disksize t = disksize s" "memdisk t = memdisk s"
      using rest_core [OF c] data_core(2) [OF c] by simp_all
    have h: "held me {} t" "dirty_blocks t = dirty_blocks s" "blk t = blk s"
      using held_core [OF c, of me "{}"] dirty_core [OF c] blk_core [OF c] assms(1) by simp_all
    have ok: "log_ok t" using lg h(2) by (intro log_ok_same [OF assms(2)]) simp_all
    have fc: "old_files t = old_files s" "new_files t = new_files s" "\<And>P. recovers_to P t = recovers_to P s"
      using lg h(3) by (intro files_cong; simp)+
    have "wpc commit (\<lambda>_ u. committed me t u) ?R t"
      using commit_any [OF h(1) ok] lg fc assms(3,6,7) by simp
    then show ?thesis unfolding wpc_seq [of commit]
    proof (rule wpc_conseq)
      fix x u assume u: "committed me t u"
      have "outstanding (log t) = 0" using lg by simp
      from finish_op [OF u ok this, of ?R] show "wpc ?fin ?Q ?R u"
        by (rule wpc_conseq) (use u lg fc in \<open>simp_all add: committed_def\<close>)
    qed
  qed
  show ?thesis unfolding end_op_def wpc_seq [of "acquire _"]
  proof (rule wpc_acquire [OF refl r])
    fix u assume u: "core u = core (acquired LogLock s)"
    have lu: "log u = log s" using core_eq_data(20) [OF u] by simp
    have "core (u\<lparr>log := (log s)\<lparr>outstanding := 0, committing := True\<rparr>\<rparr>) = core (acquired LogLock ?s1)"
      using u by (simp add: core_upd acquired_upd [symmetric])
    then have "wpc (release LogLock) (\<lambda>_. wpc (kseq commit ?fin) ?Q ?R) ?R (u\<lparr>log := (log s)\<lparr>outstanding := 0, committing := True\<rparr>\<rparr>)"
      by (rule wpc_release) (use r tail in simp_all)
    then show "wpc (kseq (kmod (\<lambda>s. s\<lparr>log := (log s)\<lparr>outstanding := outstanding (log s) - 1\<rparr>\<rparr>)) (
       kbind (kget (\<lambda>s. (committing (log s), outstanding (log s)))) (\<lambda>(c, o').
       if c then kpanic ''log.committing''
       else
         kseq (if o' = 0 then kmod (\<lambda>s. s\<lparr>log := (log s)\<lparr>committing := True\<rparr>\<rparr>) else wakeup (Some ChLog)) (
         kseq (release LogLock) (kwhen (o' = 0) (kseq commit ?fin)))))) ?Q ?R u"
      using lu assms(4,5) by (simp add: wpc_simps)
  qed
qed

subsection \<open>Whole transactions\<close>

definition run_op :: "(32 word \<times> block) list \<Rightarrow> unit kern" where
  "run_op us = kseq begin_op (kseq (kfor us (\<lambda>(n, d). op_write n d)) end_op)"

definition after :: "(32 word \<times> block) list \<Rightarrow> (32 word \<Rightarrow> block) \<Rightarrow> 32 word \<Rightarrow> block" where
  "after us f = fold (\<lambda>(n, d) f. f(n := d)) us f"

lemma op_writes_spec:
  assumes "held me {} s" and "log_ok s" and "lh_n (lh (log s)) + int (length us) < int LOGSIZE"
    and "lh_n (lh (log s)) + int (length us) < log_size (log s)" and "0 < outstanding (log s)" and "\<forall>(n, d) \<in> set us. data_block s n"
  shows "wp (kfor us (\<lambda>(n, d). op_write n d)) (\<lambda>_ t. held me {} t \<and> log_ok t \<and> blk t = after us (blk s) \<and> memdisk t = memdisk s
    \<and> same_but_head t s \<and> lh_n (lh (log t)) \<le> lh_n (lh (log s)) + int (length us)) s"
  using assms
proof (induction us arbitrary: s)
  case Nil
  then show ?case by (simp add: wp_simps after_def)
next
  case (Cons u us)
  obtain n d where u: "u = (n, d)" by force
  have "wp (op_write n d) (\<lambda>_ t. held me {} t \<and> log_ok t \<and> blk t = (blk s)(n := d) \<and> memdisk t = memdisk s
    \<and> same_but_head t s \<and> lh_n (lh (log t)) \<le> lh_n (lh (log s)) + 1) s"
    using Cons.prems u by (intro op_write_spec) auto
  then show ?case unfolding kfor.simps wp_seq u prod.case
  proof (rule wp_conseq, elim conjE)
    fix x t
    assume t: "held me {} t" "log_ok t" "blk t = (blk s)(n := d)" "memdisk t = memdisk s" "same_but_head t s"
      "lh_n (lh (log t)) \<le> lh_n (lh (log s)) + 1"
    note sb = same_but_headD [OF t(5)]
    have "wp (kfor us (\<lambda>(n, d). op_write n d)) (\<lambda>_ v. held me {} v \<and> log_ok v \<and> blk v = after us (blk t) \<and> memdisk v = memdisk t
      \<and> same_but_head v t \<and> lh_n (lh (log v)) \<le> lh_n (lh (log t)) + int (length us)) t"
      using Cons.prems t sb by (intro Cons.IH) auto
    then show "wp (kfor us (\<lambda>(n, d). op_write n d)) (\<lambda>_ v. held me {} v \<and> log_ok v \<and> blk v = after ((n, d) # us) (blk s)
      \<and> memdisk v = memdisk s \<and> same_but_head v s \<and> lh_n (lh (log v)) \<le> lh_n (lh (log s)) + int (length ((n, d) # us))) t"
      by (rule wp_conseq) (use t same_but_head_trans in \<open>auto simp: after_def\<close>)
  qed
qed

lemma log_upd_idle:
  assumes "held me {} s" and "dirty_blocks s = {}"
  shows "blk s = (\<lambda>m. memdisk s ! unat m)"
  using blk_clean [OF assms(1)] assms(2) by (simp add: fun_eq_iff)

subsection \<open>Reservation\<close>

lemma begin_op_loop_admits:
  "begin_op_loop s = Done x t \<Longrightarrow> \<not> committing (log t) \<and> lh_n (lh (log t)) + outstanding (log t) * int MAXOPBLOCKS \<le> int LOGSIZE"
proof (induction s rule: begin_op_loop.induct)
  case (1 s)
  have frame: "release l u = Done y v \<Longrightarrow> log v = log u" for l u y v
    by (auto simp: release_def holding_def pushcli_def popcli_def mycpu_def cli_def sti_def kbind_eq_Done
        kseq_eq_Done upd_lock_def upd_cpu_def split: option.splits if_splits)
  show ?case using "1.prems" "1.IH"
    by (subst (asm) begin_op_loop.simps) (auto simp: kseq_eq_Done dest!: frame split: if_splits)
qed

subsection \<open>A disk to exercise the theorems\<close>

definition demo_disk :: "block list \<Rightarrow> kworld" where
  "demo_disk D = disk_demo\<lparr>memdisk := D, disksize := length D,
     log := zero_log\<lparr>log_start := 2, log_size := 30, log_dev := 1\<rparr>\<rparr>"

lemma demo_disk_fields [simp]:
  "memdisk (demo_disk D) = D" "disksize (demo_disk D) = length D" "slocks (demo_disk D) = slocks disk_demo"
  "log (demo_disk D) = zero_log\<lparr>log_start := 2, log_size := 30, log_dev := 1\<rparr>"
  "bufs (bcache (demo_disk D)) = replicate NBUF zero_buf"
  using disk_demo_ok(3) by (simp_all add: demo_disk_def)

lemma demo_disk_held: "held 0 {} (demo_disk D)" "dirty_blocks (demo_disk D) = {}"
proof -
  have "curproc (disksize_update f s) = curproc s" for f s
    by (simp add: curproc_def this_cpu_def cpu_index_def lapicid_def)
  then have c: "calm 0 (demo_disk D)" using disk_demo_ok(2) by (simp add: calm_def demo_disk_def)
  have "cache_ok (demo_disk D)"
    using disk_demo_ok(1,3) by (simp add: cache_ok_def keys_unique_def buf_ok_def zero_buf_def) (simp add: demo_disk_def)
  then show "held 0 {} (demo_disk D)" using c by (simp add: held_def zero_buf_def)
  show "dirty_blocks (demo_disk D) = {}" by (auto simp: dirty_blocks_def zero_buf_def)
qed

definition log_demo :: kworld where
  "log_demo = demo_disk (replicate 40 (replicate BSIZE 0))"

lemma log_demo_idle: "log_idle 0 log_demo"
proof -
  have "head_n (replicate BSIZE 0) = 0" by (simp add: head_n_def get32_def word_of_bytes_def)
  then show ?thesis using demo_disk_held by (simp add: log_idle_def log_demo_def log_wf_def zero_log_def)
qed

text \<open>A disk left by a crash after the commit point: the header names block 35, its new content is in the log.\<close>

definition crashed_demo :: "block list" where
  "crashed_demo = (replicate 40 (replicate BSIZE 0))
     [2 := put_head (replicate BSIZE 0) \<lparr>lh_n = 1, lh_block = [35]\<rparr>, 3 := replicate BSIZE 9]"

lemma crashed_demo_ok: "head_ok 2 crashed_demo" "length crashed_demo = 40" "recovered 2 crashed_demo ! 35 = replicate BSIZE 9"
proof -
  let ?h = "\<lparr>lh_n = 1, lh_block = [35]\<rparr> :: logheader"
  have h: "crashed_demo ! 2 = put_head (replicate BSIZE 0) ?h" "crashed_demo ! 3 = replicate BSIZE 9"
    by (simp_all add: crashed_demo_def)
  show len: "length crashed_demo = 40" by (simp add: crashed_demo_def)
  have n: "head_n (crashed_demo ! 2) = 1" "head_block (crashed_demo ! 2) 0 = 35"
    using head_put_head(1,2) [of ?h "replicate BSIZE 0"] h by simp_all
  show "head_ok 2 crashed_demo" using n len by (simp add: head_ok_def)
  show "recovered 2 crashed_demo ! 35 = replicate BSIZE 9" using n h len by (simp add: recovered_def)
qed

subsection \<open>Properties\<close>



text \<open>
  C7. Recovery: \<open>recover_from_log\<close> copies a committed transaction to its blocks, clears the header and
  returns; when the power fails during recovery, the disk it leaves behind recovers to the same disk
  at the next boot, so that any number of interrupted recoveries changes nothing.
\<close>

theorem recovery_idempotent:
  assumes "held me {} s" and "dirty_blocks s = {}" and "log_dev (log s) = 1" and "length (lh_block (lh (log s))) = LOGSIZE"
    and "L = unat (log_start (log s))" and "L + LOGSIZE < disksize s" and "disksize s \<le> 2 ^ 32" and "head_ok L (memdisk s)"
  shows "wpc recover_from_log
    (\<lambda>_ t. held me {} t \<and> dirty_blocks t = {} \<and> lh_n (lh (log t)) = 0 \<and> memdisk t = recovered L (memdisk s))
    (\<lambda>D. recovered L D = recovered L (memdisk s) \<and> head_ok L D \<and> length D = length (memdisk s)) s"
  using assms by (rule recover_spec)

theorem recovery_idempotent_witness:
  "wpc recover_from_log (\<lambda>_ t. memdisk t = recovered 2 crashed_demo \<and> memdisk t ! 35 = replicate BSIZE 9)
    (\<lambda>D. recovered 2 D ! 35 = replicate BSIZE 9) (demo_disk crashed_demo)"
proof -
  have "wpc recover_from_log
    (\<lambda>_ t. held 0 {} t \<and> dirty_blocks t = {} \<and> lh_n (lh (log t)) = 0 \<and> memdisk t = recovered 2 (memdisk (demo_disk crashed_demo)))
    (\<lambda>D. recovered 2 D = recovered 2 (memdisk (demo_disk crashed_demo)) \<and> head_ok 2 D \<and> length D = length (memdisk (demo_disk crashed_demo)))
    (demo_disk crashed_demo)"
    by (rule recovery_idempotent [OF demo_disk_held]) (simp_all add: crashed_demo_ok zero_log_def)
  then show ?thesis by (rule wpc_conseq) (simp_all add: crashed_demo_ok)
qed



end
