(* ===== verification/Digits.thy ===== *)
theory Digits
  imports Prelude
begin

section \<open>Number printing shared by the kernel's and the user's printf\<close>

text \<open>
  Both \<open>printint\<close> functions (console.c, printf.c) fill a buffer with the digits of a \<open>uint\<close>, least
  significant first, and then print the buffer backwards.  The loop is a \<open>partial_function\<close>: it would
  not end for base 1.  For the bases the code uses it ends within the 16 bytes of the buffer, and
  the digits denote the number.
\<close>

definition digit_char :: "string \<Rightarrow> nat \<Rightarrow> char" where
  "digit_char digits d = digits ! d"

partial_function (option) digits_loop :: "string \<Rightarrow> nat \<Rightarrow> nat \<Rightarrow> string \<Rightarrow> string option" where
  "digits_loop digits base x buf =
     (let buf' = buf @ [digit_char digits (x mod base)] in
      if x div base = 0 then Some buf' else digits_loop digits base (x div base) buf')"

text \<open>The reference: the digits of \<open>x\<close>, least significant first.\<close>

function digits_of :: "nat \<Rightarrow> nat \<Rightarrow> nat list" where
  "digits_of b x = (if b < 2 \<or> x < b then [x] else (x mod b) # digits_of b (x div b))"
  by auto
termination
  by (relation "measure snd") auto

declare digits_of.simps [simp del]

lemma digits_loop_eq:
  "2 \<le> b \<Longrightarrow> digits_loop ds b x buf = Some (buf @ map (digit_char ds) (digits_of b x))"
proof (induction b x arbitrary: buf rule: digits_of.induct)
  case (1 b x)
  show ?case
  proof (cases "x < b")
    case True
    then show ?thesis by (simp add: digits_loop.simps [of ds b x] digits_of.simps [of b x] Let_def)
  next
    case False
    then have "x div b \<noteq> 0" using 1(2) by (simp add: div_eq_0_iff)
    then show ?thesis using False 1
      by (simp add: digits_loop.simps [of ds b x] digits_of.simps [of b x] Let_def)
  qed
qed

text \<open>The number a digit list denotes, least significant digit first.\<close>

fun digits_value :: "nat \<Rightarrow> nat list \<Rightarrow> nat" where
  "digits_value b [] = 0"
| "digits_value b (d # ds) = d + b * digits_value b ds"

lemma digits_of_value: "digits_value b (digits_of b x) = x"
  by (induction b x rule: digits_of.induct) (subst digits_of.simps, auto)

lemma digits_of_less: "2 \<le> b \<Longrightarrow> d \<in> set (digits_of b x) \<Longrightarrow> d < b"
proof (induction b x rule: digits_of.induct)
  case (1 b x)
  then show ?case by (subst (asm) (2) digits_of.simps) (auto split: if_splits)
qed

lemma digits_of_length: "2 \<le> b \<Longrightarrow> x < b ^ n \<Longrightarrow> 0 < n \<Longrightarrow> length (digits_of b x) \<le> n"
proof (induction b x arbitrary: n rule: digits_of.induct)
  case (1 b x)
  show ?case
  proof (cases "x < b")
    case False
    then have "n \<noteq> 1" using 1(3) by auto
    then obtain m where n: "n = Suc m" "0 < m"
      using 1(4) by (cases n) auto
    have "x div b < b ^ m" using 1(2,3) n by (simp add: less_mult_imp_div_less mult.commute)
    then show ?thesis using 1(1) [of m] 1(2) False n by (subst digits_of.simps) simp
  qed (use 1 in \<open>subst digits_of.simps, simp\<close>)
qed

lemma digits_of_no_zero: "2 \<le> b \<Longrightarrow> 0 < x \<Longrightarrow> last (digits_of b x) \<noteq> 0"
proof (induction b x rule: digits_of.induct)
  case (1 b x)
  have ne: "digits_of b (x div b) \<noteq> []" by (subst digits_of.simps) simp
  show ?case
  proof (cases "x < b")
    case False
    then have "0 < x div b" using 1(2) by (simp add: div_greater_zero_iff)
    then show ?thesis using 1 False ne by (subst digits_of.simps) simp
  qed (use 1 in \<open>subst digits_of.simps, simp\<close>)
qed

lemma digits_of_inj: "digits_of b x = digits_of b y \<Longrightarrow> x = y"
  using digits_of_value by metis

subsection \<open>Reading the characters back\<close>

definition char_digit :: "string \<Rightarrow> char \<Rightarrow> nat" where
  "char_digit ds c = the (find_idx ((=) c) ds)"

lemma char_digit_digit_char:
  assumes "distinct ds" and "d < length ds"
  shows "char_digit ds (digit_char ds d) = d"
proof -
  have "find_idx ((=) (ds ! d)) ds = Some d"
    using assms by (auto simp: find_idx_Some nth_eq_iff_index_eq)
  then show ?thesis by (simp add: char_digit_def digit_char_def)
qed

lemma digits_read_back:
  assumes "2 \<le> b" and "distinct ds" and "b \<le> length ds"
  shows "digits_value b (map (char_digit ds) (map (digit_char ds) (digits_of b x))) = x"
proof -
  have "map (\<lambda>d. char_digit ds (digit_char ds d)) (digits_of b x) = digits_of b x"
    using digits_of_less [OF assms(1)] char_digit_digit_char [OF assms(2)] assms(3)
    by (intro map_idI) fastforce
  then show ?thesis by (simp add: digits_of_value comp_def)
qed

end
