(* ===== verification/Printf.thy ===== *)
theory Printf
  imports Digits
begin

section \<open>printf of the user programs (printf.c)\<close>

text \<open>
  \<open>putc\<close> makes one \<open>write\<close> system call per character, so the output is the sequence of characters
  written with their file descriptor.  The arguments are the \<open>uint\<close> words on the stack above the
  format; taking one that was not passed is \<open>None\<close>.  The string at an address is the parameter
  \<open>str_at\<close>: the characters up to the terminating zero byte.
\<close>

type_synonym uoutput = "(int \<times> char) list"

definition putc :: "int \<Rightarrow> char \<Rightarrow> uoutput \<Rightarrow> uoutput" where
  "putc fd c out = out @ [(fd, c)]"

definition printint :: "int \<Rightarrow> 32 word \<Rightarrow> nat \<Rightarrow> bool \<Rightarrow> uoutput \<Rightarrow> uoutput option" where
  "printint fd xx base sgnd out =
     (let neg = (sgnd \<and> sint xx < 0);
          x = (if neg then - xx else xx) in
      case digits_loop ''0123456789ABCDEF'' base (unat x) [] of
        None \<Rightarrow> None
      | Some buf \<Rightarrow>
          let buf' = (if neg then buf @ ''-'' else buf) in
          Some (fold (putc fd) (rev buf') out))"

fun printf_loop :: "(32 word \<Rightarrow> string) \<Rightarrow> int \<Rightarrow> string \<Rightarrow> bool \<Rightarrow> 32 word list \<Rightarrow> uoutput \<Rightarrow> uoutput option" where
  "printf_loop str_at fd [] state ap out = Some out"
| "printf_loop str_at fd (c # fmt) state ap out =
     (if \<not> state then
        if c = CHR ''%'' then printf_loop str_at fd fmt True ap out
        else printf_loop str_at fd fmt False ap (putc fd c out)
      else if c = CHR ''d'' then
        (case ap of [] \<Rightarrow> None | a # ap' \<Rightarrow>
           (case printint fd a 10 True out of None \<Rightarrow> None | Some out' \<Rightarrow> printf_loop str_at fd fmt False ap' out'))
      else if c = CHR ''x'' \<or> c = CHR ''p'' then
        (case ap of [] \<Rightarrow> None | a # ap' \<Rightarrow>
           (case printint fd a 16 False out of None \<Rightarrow> None | Some out' \<Rightarrow> printf_loop str_at fd fmt False ap' out'))
      else if c = CHR ''s'' then
        (case ap of [] \<Rightarrow> None | a # ap' \<Rightarrow>
           printf_loop str_at fd fmt False ap'
             (fold (putc fd) (if a = 0 then ''(null)'' else str_at a) out))
      else if c = CHR ''c'' then
        (case ap of [] \<Rightarrow> None | a # ap' \<Rightarrow>
           printf_loop str_at fd fmt False ap' (putc fd (char_of (unat a)) out))
      else if c = CHR ''%'' then printf_loop str_at fd fmt False ap (putc fd c out)
      else printf_loop str_at fd fmt False ap (putc fd c (putc fd (CHR ''%'') out)))"

definition printf :: "(32 word \<Rightarrow> string) \<Rightarrow> int \<Rightarrow> string \<Rightarrow> 32 word list \<Rightarrow> uoutput \<Rightarrow> uoutput option" where
  "printf str_at fd fmt args out = printf_loop str_at fd fmt False args out"

subsection \<open>What a number looks like\<close>

lemma fold_putc: "fold (putc fd) s out = out @ map (Pair fd) s"
  by (induction s arbitrary: out) (simp_all add: putc_def)

definition number_text :: "nat \<Rightarrow> nat \<Rightarrow> string" where
  "number_text b x = rev (map (digit_char ''0123456789ABCDEF'') (digits_of b x))"

definition int_text :: "int \<Rightarrow> string" where
  "int_text i = (if i < 0 then ''-'' else []) @ number_text 10 (nat \<bar>i\<bar>)"

definition read_number :: "nat \<Rightarrow> string \<Rightarrow> nat" where
  "read_number b s = digits_value b (map (char_digit ''0123456789ABCDEF'') (rev s))"

definition read_int :: "string \<Rightarrow> int" where
  "read_int s = (if s \<noteq> [] \<and> hd s = CHR ''-'' then - int (read_number 10 (tl s)) else int (read_number 10 s))"

lemma read_number_text: "2 \<le> b \<Longrightarrow> b \<le> 16 \<Longrightarrow> read_number b (number_text b x) = x"
  using digits_read_back [of b "''0123456789ABCDEF''" x]
  by (simp add: read_number_def number_text_def rev_map)

lemma number_text_set:
  assumes "2 \<le> b" and "b \<le> 16" and "c \<in> set (number_text b x)"
  shows "c \<in> set ''0123456789ABCDEF''"
proof -
  obtain d where "d \<in> set (digits_of b x)" and c: "c = ''0123456789ABCDEF'' ! d"
    using assms(3) by (auto simp: number_text_def digit_char_def)
  then have "d < length ''0123456789ABCDEF''" using digits_of_less [OF assms(1)] assms(2) by fastforce
  then show ?thesis unfolding c by (rule nth_mem)
qed

lemma read_int_text: "read_int (int_text i) = i"
proof -
  have ne: "number_text 10 x \<noteq> []" for x by (subst number_text_def, subst digits_of.simps) simp
  have minus: "CHR ''-'' \<notin> set ''0123456789ABCDEF''" by simp
  have "hd (number_text 10 x) \<noteq> CHR ''-''" for x
  proof
    assume h: "hd (number_text 10 x) = CHR ''-''"
    have "hd (number_text 10 x) \<in> set ''0123456789ABCDEF''"
      by (rule number_text_set [OF _ _ hd_in_set [OF ne]]) simp_all
    with h minus show False by (simp only:)
  qed
  then show ?thesis using ne by (simp add: read_int_def int_text_def read_number_text)
qed

lemma length_number_text: "2 \<le> b \<Longrightarrow> x < b ^ n \<Longrightarrow> 0 < n \<Longrightarrow> length (number_text b x) \<le> n"
  by (simp add: number_text_def digits_of_length)

lemma length_int_text:
  assumes "- (2 ^ 31) \<le> i" and "i < 2 ^ 31"
  shows "length (int_text i) \<le> 11"
proof -
  have "nat \<bar>i\<bar> < 10 ^ 10" using assms by (simp add: nat_less_iff)
  then have "length (number_text 10 (nat \<bar>i\<bar>)) \<le> 10" by (intro length_number_text) simp_all
  then show ?thesis by (auto simp: int_text_def)
qed

lemma unat_neg:
  fixes w :: "32 word"
  assumes "sint w < 0"
  shows "unat (- w) = nat (- sint w)"
proof -
  have "0 \<le> - sint w" and "- sint w < 2 ^ 32" using assms sint_ge [of w] by simp_all
  then have "uint (word_of_int (- sint w) :: 32 word) = - sint w"
    by (simp only: uint_word_of_int) simp
  then show ?thesis by (simp add: unat_eq_nat_uint)
qed

lemma unat_nonneg:
  fixes w :: "32 word"
  assumes "\<not> sint w < 0"
  shows "unat w = nat (sint w)"
proof -
  have "0 \<le> sint w" and "sint w < 2 ^ 32" using assms sint_lt [of w] by simp_all
  then have "uint (word_of_int (sint w) :: 32 word) = sint w"
    by (simp only: uint_word_of_int) simp
  then show ?thesis by (simp add: unat_eq_nat_uint)
qed

lemma printint_signed: "printint fd xx 10 True out = Some (out @ map (Pair fd) (int_text (sint xx)))"
proof (cases "sint xx < 0")
  case True
  have "unat (- xx) = nat \<bar>sint xx\<bar>" using unat_neg [OF True] True by simp
  then show ?thesis using True
    by (simp add: printint_def digits_loop_eq fold_putc int_text_def number_text_def Let_def)
next
  case False
  have "unat xx = nat \<bar>sint xx\<bar>" using unat_nonneg [OF False] False by simp
  then show ?thesis using False
    by (simp add: printint_def digits_loop_eq fold_putc int_text_def number_text_def Let_def)
qed

lemma printint_unsigned: "printint fd xx 16 False out = Some (out @ map (Pair fd) (number_text 16 (unat xx)))"
  by (simp add: printint_def digits_loop_eq fold_putc number_text_def Let_def)

subsection \<open>Formats as lists of directives\<close>

datatype directive = Lit string | Decimal | Hex | Str | Chr

fun directives :: "string \<Rightarrow> directive list" where
  "directives [] = []"
| "directives [c] = (if c = CHR ''%'' then [] else [Lit [c]])"
| "directives (c # d # fmt) =
     (if c \<noteq> CHR ''%'' then Lit [c] # directives (d # fmt)
      else if d = CHR ''d'' then Decimal # directives fmt
      else if d = CHR ''x'' \<or> d = CHR ''p'' then Hex # directives fmt
      else if d = CHR ''s'' then Str # directives fmt
      else if d = CHR ''c'' then Chr # directives fmt
      else if d = CHR ''%'' then Lit ''%'' # directives fmt
      else Lit [c, d] # directives fmt)"

fun render :: "(32 word \<Rightarrow> string) \<Rightarrow> directive list \<Rightarrow> 32 word list \<Rightarrow> string option" where
  "render str_at [] ap = Some []"
| "render str_at (Lit s # ds) ap = map_option ((@) s) (render str_at ds ap)"
| "render str_at (_ # ds) [] = None"
| "render str_at (Decimal # ds) (a # ap) = map_option ((@) (int_text (sint a))) (render str_at ds ap)"
| "render str_at (Hex # ds) (a # ap) = map_option ((@) (number_text 16 (unat a))) (render str_at ds ap)"
| "render str_at (Str # ds) (a # ap) = map_option ((@) (if a = 0 then ''(null)'' else str_at a)) (render str_at ds ap)"
| "render str_at (Chr # ds) (a # ap) = map_option ((@) [char_of (unat a)]) (render str_at ds ap)"

lemma printf_loop_render:
  "printf_loop str_at fd fmt False ap out
    = map_option (\<lambda>s. out @ map (Pair fd) s) (render str_at (directives fmt) ap)"
proof (induction fmt arbitrary: ap out rule: directives.induct)
  case (3 c d fmt)
  note IH = 3
  show ?case
  proof (cases "c = CHR ''%''")
    case c: True
    consider "d = CHR ''d''" | "d = CHR ''x'' \<or> d = CHR ''p''" | "d = CHR ''s''" | "d = CHR ''c''" | "d = CHR ''%''"
      | "d \<notin> {CHR ''d'', CHR ''x'', CHR ''p'', CHR ''s'', CHR ''c'', CHR ''%''}" by blast
    then show ?thesis
    proof cases
      case 1
      then show ?thesis using c IH(2)
        by (cases ap) (simp_all add: printint_signed option.map_comp comp_def)
    next
      case 2
      then show ?thesis using c IH(3)
        by (cases ap) (auto simp add: printint_unsigned option.map_comp comp_def)
    next
      case 3
      then show ?thesis using c IH(4)
        by (cases ap) (simp_all add: fold_putc option.map_comp comp_def)
    next
      case 4
      then show ?thesis using c IH(5)
        by (cases ap) (simp_all add: putc_def option.map_comp comp_def)
    next
      case 5
      then show ?thesis using c IH(6)
        by (simp add: putc_def option.map_comp comp_def)
    next
      case 6
      then show ?thesis using c IH(7)
        by (simp add: putc_def option.map_comp comp_def)
    qed
  next
    case False
    have eq: "printf_loop str_at fd (c # d # fmt) False ap out = printf_loop str_at fd (d # fmt) False ap (putc fd c out)"
      "directives (c # d # fmt) = Lit [c] # directives (d # fmt)"
      using False by simp_all
    show ?thesis unfolding eq IH(1) [OF False] by (simp add: putc_def option.map_comp comp_def)
  qed
qed (simp_all add: putc_def)

subsection \<open>Properties\<close>


text \<open>
  C25. \<open>printint\<close> ends, never needs more than 11 of the 16 bytes of its buffer, and what it prints
  reads back as the number it was given, the most negative \<open>int\<close> included.
\<close>

theorem printint_roundtrip:
  "\<exists>s. printint fd xx 10 True [] = Some (map (Pair fd) s) \<and> read_int s = sint xx \<and> length s \<le> 11
    \<and> (\<exists>h. printint fd xx 16 False [] = Some (map (Pair fd) h) \<and> read_number 16 h = unat xx \<and> length h \<le> 8)"
proof -
  have "length (int_text (sint xx)) \<le> 11" using sint_ge [of xx] sint_lt [of xx] by (intro length_int_text) simp_all
  moreover have "length (number_text 16 (unat xx)) \<le> 8"
    using unsigned_less [of xx, where 'a = nat] by (intro length_number_text) simp_all
  ultimately show ?thesis
    by (intro exI [of _ "int_text (sint xx)"] exI [of _ "number_text 16 (unat xx)"] conjI)
      (simp_all add: printint_signed printint_unsigned read_int_text read_number_text)
qed

end
