(* ===== verification/Cons_Out.thy ===== *)
theory Cons_Out
  imports Scheduler Printf Bio
begin

section \<open>Console output (console.c) and the printing functions of proc.c\<close>

text \<open>
  Every character goes to the serial port and to the display.  \<open>uartputc\<close> is not part of the
  repository: the model records the characters passed to it (\<open>console_out\<close>).  The display is the
  \<open>25 * 80\<close> cells at \<open>crt\<close>; a store outside them is a fault.  \<open>inb\<close> and \<open>outb\<close> on the CRT
  controller read and write its cursor position, a pair of byte registers.
  An argument of \<open>cprintf\<close> is a word or a string pointer, the latter represented by the string it
  points to (\<open>None\<close> for a null pointer).  \<open>printspaces\<close> and \<open>digitcount\<close> of the missing utils.c are
  parameters.
\<close>

subsection \<open>Definitions: the display\<close>

abbreviation (input) BACKSPACE :: int where "BACKSPACE \<equiv> 0x100"

definition upd_cons :: "(cons_state \<Rightarrow> cons_state) \<Rightarrow> kworld \<Rightarrow> kworld" where
  "upd_cons f s = s\<lparr>cons := f (cons s)\<rparr>"

definition cell :: "int \<Rightarrow> 16 word" where
  "cell c = word_of_int (c mod 256) OR 0x0700"

definition cgaputc :: "int \<Rightarrow> unit kern" where
  "cgaputc c =
     kbind (kget (\<lambda>s. crt_pos (cons s))) (\<lambda>pos0.
     kbind
       (if c = 10 then kret (pos0 + (80 - pos0 mod 80))
        else if c = BACKSPACE then kret (if pos0 > 0 then pos0 - 1 else pos0)
        else if CRT_CELLS \<le> pos0 then kfault
        else kseq (kmod (upd_cons (\<lambda>k. k\<lparr>crt := (crt k)[pos0 := cell c]\<rparr>))) (kret (pos0 + 1))) (\<lambda>pos1.
     if pos1 > 25 * 80 then kpanic ''pos under/overflow''
     else
       kbind
         (if pos1 div 80 \<ge> 24 then
            kseq (kmod (upd_cons (\<lambda>k. k\<lparr>crt := take (23 * 80) (drop 80 (crt k)) @ drop (23 * 80) (crt k)\<rparr>))) (
            kseq (kmod (upd_cons (\<lambda>k. k\<lparr>crt := take (pos1 - 80) (crt k) @ replicate (24 * 80 - (pos1 - 80)) 0 @ drop (24 * 80) (crt k)\<rparr>))) (
            kret (pos1 - 80)))
          else kret pos1) (\<lambda>pos2.
       kseq (kmod (upd_cons (\<lambda>k. k\<lparr>crt_pos := pos2 mod 65536\<rparr>))) (
       kmod (upd_cons (\<lambda>k. k\<lparr>crt := (crt k)[pos2 := cell 32]\<rparr>))))))"

definition uartputc :: "int \<Rightarrow> unit kern" where
  "uartputc c = kmod (\<lambda>s. s\<lparr>console_out := console_out s @ [c]\<rparr>)"

definition consputc :: "int \<Rightarrow> unit kern" where
  "consputc c =
     kbind (kget (\<lambda>s. panicked (cons s))) (\<lambda>p.
     if p then kseq cli kblock
     else
       kseq (if c = BACKSPACE then kseq (uartputc 8) (kseq (uartputc 32) (uartputc 8)) else uartputc c) (
       cgaputc c))"

subsection \<open>Definitions: cprintf and panic\<close>

datatype carg = CInt "32 word" | CStr "string option"

text \<open>A \<open>char\<close> is signed: passed on as an \<open>int\<close> it is negative from 128 on.\<close>

definition schar :: "char \<Rightarrow> int" where
  "schar c = (if of_char c < (128 :: int) then of_char c else of_char c - 256)"

definition cprintint :: "32 word \<Rightarrow> nat \<Rightarrow> bool \<Rightarrow> unit kern" where
  "cprintint xx base sgnd =
     (let neg = (sgnd \<and> sint xx < 0);
          x = (if neg then - xx else xx) in
      case digits_loop ''0123456789abcdef'' base (unat x) [] of
        None \<Rightarrow> kblock
      | Some buf \<Rightarrow>
          let buf' = (if neg then buf @ ''-'' else buf) in
          kfor (rev buf') (\<lambda>c. consputc (of_char c)))"

fun cprintf_loop :: "string \<Rightarrow> carg list \<Rightarrow> unit kern" where
  "cprintf_loop [] ap = kret ()"
| "cprintf_loop (c # fmt) ap =
     (if c \<noteq> CHR ''%'' then kseq (consputc (of_char c)) (cprintf_loop fmt ap)
      else
        case fmt of
          [] \<Rightarrow> kret ()
        | d # fmt' \<Rightarrow>
            if d = CHR ''d'' then
              (case ap of CInt a # ap' \<Rightarrow> kseq (cprintint a 10 True) (cprintf_loop fmt' ap') | _ \<Rightarrow> kfault)
            else if d = CHR ''x'' \<or> d = CHR ''p'' then
              (case ap of CInt a # ap' \<Rightarrow> kseq (cprintint a 16 False) (cprintf_loop fmt' ap') | _ \<Rightarrow> kfault)
            else if d = CHR ''s'' then
              (case ap of
                 CStr p # ap' \<Rightarrow>
                   kseq (kfor (case p of None \<Rightarrow> ''(null)'' | Some t \<Rightarrow> t) (\<lambda>c. consputc (schar c))) (cprintf_loop fmt' ap')
               | _ \<Rightarrow> kfault)
            else if d = CHR ''%'' then kseq (consputc (of_char d)) (cprintf_loop fmt' ap)
            else kseq (consputc (of_char (CHR ''%''))) (kseq (consputc (of_char d)) (cprintf_loop fmt' ap)))"

definition cprintf :: "string option \<Rightarrow> carg list \<Rightarrow> unit kern" where
  "cprintf fmt ap =
     kbind (kget (\<lambda>s. cons_locking (cons s))) (\<lambda>locking.
     kseq (kwhen locking (acquire ConsLock)) (
     case fmt of
       None \<Rightarrow> kpanic ''null fmt''
     | Some f \<Rightarrow>
         kseq (cprintf_loop f ap) (
         kwhen locking (release ConsLock))))"

definition newline :: string where
  "newline = [CHR 0x0A]"

definition panic :: "string \<Rightarrow> unit kern" where
  "panic msg =
     kseq cli (
     kseq (kmod (upd_cons (\<lambda>k. k\<lparr>cons_locking := False\<rparr>))) (
     kbind (kget lapicid) (\<lambda>i.
     kseq (cprintf (Some ''lapicid %d: panic: '') [CInt i]) (
     kseq (cprintf (Some msg) []) (
     kseq (cprintf (Some newline) []) (
     kbind (kget (\<lambda>s. getcallerpcs (ram s) (argp s))) (\<lambda>pcs.
     kseq (kfor pcs (\<lambda>pc. cprintf (Some '' %p'') [CInt pc])) (
     kseq (kmod (upd_cons (\<lambda>k. k\<lparr>panicked := True\<rparr>))) (
     kpanic msg)))))))))"

subsection \<open>Definitions: process listings and the system-call history (proc.c)\<close>

fun state_name :: "procstate \<Rightarrow> string" where
  "state_name UNUSED = ''unused''"
| "state_name EMBRYO = ''embryo''"
| "state_name SLEEPING = ''sleep ''"
| "state_name RUNNABLE = ''runble''"
| "state_name RUNNING = ''run   ''"
| "state_name ZOMBIE = ''zombie''"

definition procdump :: "unit kern" where
  "procdump = kfor [0 ..< NPROC] (\<lambda>i.
     kbind (kget (\<lambda>s. procs s ! i)) (\<lambda>p.
     kwhen (pstate p \<noteq> UNUSED) (
       kseq (cprintf (Some ''%d %s %s'') [CInt (word_of_int (pid p)), CStr (Some (state_name (pstate p))), CStr (Some (pname p))]) (
       kseq (kwhen (pstate p = SLEEPING) (
               kbind (kget (\<lambda>s. getcallerpcs (ram s) (load32 (ram s) (context_ptr p + 12) + 8))) (\<lambda>pc.
               kfor (takeWhile (\<lambda>a. a \<noteq> 0) pc) (\<lambda>a. cprintf (Some '' %p'') [CInt a])))) (
       cprintf (Some newline) [])))))"

definition push_p_hist :: "int \<Rightarrow> nat \<Rightarrow> unit kern" where
  "push_p_hist n k =
     (if SYS_CALL_NUM \<le> k then kfault
      else kmod (\<lambda>s. s\<lparr>p_hist := upd k (\<lambda>h.
        \<lparr>hist_pids = (hist_pids h)[nat (hist_size h mod int PROC_HIST_SIZE) := n], hist_size = hist_size h + 1\<rparr>) (p_hist s)\<rparr>))"

text \<open>The endless loop of \<open>get_callers\<close>; it would not end for a \<open>limit\<close> outside the buffer.\<close>

function get_callers_loop :: "nat \<Rightarrow> nat \<Rightarrow> nat \<Rightarrow> unit kern" where
  "get_callers_loop k limit i =
     (if PROC_HIST_SIZE \<le> limit \<or> PROC_HIST_SIZE \<le> i then kblock
      else
        kbind (kget (\<lambda>s. hist_pids (p_hist s ! k) ! i)) (\<lambda>n.
        kseq (cprintf (Some ''%d'') [CInt (word_of_int n)]) (
        let i' = (i + 1) mod PROC_HIST_SIZE in
        if i' = limit then kret ()
        else kseq (cprintf (Some '', '') []) (get_callers_loop k limit i'))))"
  by pat_completeness auto
termination
proof (relation "measure (\<lambda>(k, limit, i). if i < limit then limit - i else limit + 1000 - i)", goal_cases)
  case (2 k limit i x xa)
  then have "limit < 1000" "i < 1000" "xa \<noteq> limit" "xa = (if i = 999 then 0 else i + 1)" by auto
  then show ?case by (auto split: if_splits)
qed simp

declare get_callers_loop.simps [simp del]

definition get_callers :: "nat \<Rightarrow> unit kern" where
  "get_callers k =
     (if SYS_CALL_NUM \<le> k then kfault
      else
        kbind (kget (\<lambda>s. nat (hist_size (p_hist s ! k)))) (\<lambda>limit.
        if limit = 0
        then cprintf (Some (''No process has called system call number %d.'' @ newline)) [CInt (of_nat k)]
        else
          kseq (get_callers_loop k (limit mod PROC_HIST_SIZE) (if limit > PROC_HIST_SIZE then limit mod PROC_HIST_SIZE else 0)) (
          cprintf (Some newline) [])))"

subsection \<open>What one character does\<close>

text \<open>The cursor stays in the first 24 lines; the last line of the display is only scrolled from.\<close>

definition screen_ok :: "cons_state \<Rightarrow> bool" where
  "screen_ok k \<longleftrightarrow> length (crt k) = CRT_CELLS \<and> crt_pos k < 24 * 80"

definition next_pos :: "int \<Rightarrow> nat \<Rightarrow> nat" where
  "next_pos c pos = (if c = 10 then pos + (80 - pos mod 80) else if c = BACKSPACE then pos - 1 else pos + 1)"

definition shown :: "int \<Rightarrow> nat \<Rightarrow> 16 word list \<Rightarrow> 16 word list" where
  "shown c pos cells = (if c = 10 \<or> c = BACKSPACE then cells else cells[pos := cell c])"

definition scroll :: "nat \<Rightarrow> 16 word list \<Rightarrow> 16 word list" where
  "scroll pos cells = take pos (drop 80 (take (24 * 80) cells)) @ replicate (24 * 80 - pos) 0 @ drop (24 * 80) cells"

definition cga :: "int \<Rightarrow> cons_state \<Rightarrow> cons_state" where
  "cga c k =
     (let pos1 = next_pos c (crt_pos k); cells = shown c (crt_pos k) (crt k) in
      if 24 * 80 \<le> pos1 then k\<lparr>crt := (scroll (pos1 - 80) cells)[pos1 - 80 := cell 32], crt_pos := pos1 - 80\<rparr>
      else k\<lparr>crt := cells[pos1 := cell 32], crt_pos := pos1\<rparr>)"

lemma next_pos_bound: "pos < 24 * 80 \<Longrightarrow> next_pos c pos \<le> 24 * 80"
proof -
  assume p: "pos < 24 * 80"
  have "pos div 80 \<le> 23" using p by (simp add: less_mult_imp_div_less less_Suc_eq_le [symmetric])
  then have "80 * (pos div 80) \<le> 80 * 23" by simp
  then have "pos + (80 - pos mod 80) \<le> 24 * 80"
    using div_mult_mod_eq [of pos 80] mod_less_divisor [of 80 pos] by linarith
  then show ?thesis using p by (auto simp: next_pos_def)
qed

lemma cga_fields [simp]:
  "cons_locking (cga c k) = cons_locking k" "panicked (cga c k) = panicked k" "input (cga c k) = input k" "hist (cga c k) = hist k"
  by (simp_all add: cga_def Let_def)

lemma screen_ok_cga:
  assumes "screen_ok k"
  shows "screen_ok (cga c k)"
  using assms next_pos_bound [of "crt_pos k" c]
  by (simp add: screen_ok_def cga_def Let_def shown_def scroll_def)

lemma take_scroll_gen:
  assumes "a + w \<le> length cells"
  shows "take a (take a (drop w cells) @ drop a cells) @ replicate (a + w - a) z
      @ drop (a + w) (take a (drop w cells) @ drop a cells)
    = take a (drop w (take (a + w) cells)) @ replicate (a + w - a) z @ drop (a + w) cells"
  using assms by (simp add: drop_take add.commute)

lemma take_scroll:
  assumes "length cells = CRT_CELLS"
  shows "take 1840 (take 1840 (drop 80 cells) @ drop 1840 cells) @ replicate 80 0
      @ drop 1920 (take 1840 (drop 80 cells) @ drop 1840 cells) = scroll 1840 cells"
  using take_scroll_gen [of 1840 80 cells] assms by (simp only: scroll_def) simp

lemma cgaputc_run:
  assumes "screen_ok (cons s)"
  shows "cgaputc c s = Done () (upd_cons (cga c) s)"
proof -
  let ?pos = "crt_pos (cons s)" and ?p1 = "next_pos c (crt_pos (cons s))"
  have p: "?pos < 24 * 80" "length (crt (cons s)) = CRT_CELLS" using assms by (simp_all add: screen_ok_def)
  have b: "?p1 \<le> 24 * 80" by (rule next_pos_bound [OF p(1)])
  have first: "(if c = 10 then kret (?pos + (80 - ?pos mod 80))
        else if c = BACKSPACE then kret (if ?pos > 0 then ?pos - 1 else ?pos)
        else if CRT_CELLS \<le> ?pos then kfault
        else kseq (kmod (upd_cons (\<lambda>k. k\<lparr>crt := (crt k)[?pos := cell c]\<rparr>))) (kret (?pos + 1))) s
      = Done ?p1 (upd_cons (\<lambda>k. k\<lparr>crt := shown c ?pos (crt k)\<rparr>) s)"
    using p by (simp add: next_pos_def shown_def kseq_app upd_cons_def)
  have div: "24 \<le> ?p1 div 80 \<longleftrightarrow> ?p1 = 24 * 80" using b by (auto simp: less_eq_div_iff_mult_less_eq)
  show ?thesis
  proof (cases "?p1 = 24 * 80")
    case True
    have "length (shown c ?pos (crt (cons s))) = CRT_CELLS" using p by (simp add: shown_def)
    from take_scroll [OF this] show ?thesis
      using first True div
      by (simp add: cgaputc_def kbind_app kseq_app upd_cons_def cga_def Let_def)
  next
    case False
    then show ?thesis using first b div
      by (simp add: cgaputc_def kbind_app kseq_app upd_cons_def cga_def Let_def)
  qed
qed

definition uart :: "int \<Rightarrow> int list" where
  "uart c = (if c = BACKSPACE then [8, 32, 8] else [c])"

definition emit :: "int \<Rightarrow> kworld \<Rightarrow> kworld" where
  "emit c s = s\<lparr>console_out := console_out s @ uart c, cons := cga c (cons s)\<rparr>"

definition can_print :: "kworld \<Rightarrow> bool" where
  "can_print s \<longleftrightarrow> \<not> panicked (cons s) \<and> screen_ok (cons s)"

lemma consputc_run: "can_print s \<Longrightarrow> consputc c s = Done () (emit c s)"
  using cgaputc_run by (simp add: can_print_def consputc_def kbind_app kseq_app uartputc_def emit_def uart_def upd_cons_def)

lemma can_print_emit [simp]: "can_print s \<Longrightarrow> can_print (emit c s)"
  by (simp add: can_print_def emit_def screen_ok_cga)

text \<open>Printing a list of characters.\<close>

definition emits :: "int list \<Rightarrow> kworld \<Rightarrow> kworld" where
  "emits t s = fold emit t s"

lemma emits_simps [simp]: "emits [] s = s" "emits (c # t) s = emits t (emit c s)" "emits (t @ u) s = emits u (emits t s)"
  by (simp_all add: emits_def)

lemma can_print_emits [simp]: "can_print s \<Longrightarrow> can_print (emits t s)"
  by (induction t arbitrary: s) simp_all

lemma text_run: "can_print s \<Longrightarrow> kfor t (\<lambda>c. consputc (f c)) s = Done () (emits (map f t) s)"
  by (induction t arbitrary: s) (simp_all add: kseq_app consputc_run)

lemma console_out_emits: "BACKSPACE \<notin> set t \<Longrightarrow> console_out (emits t s) = console_out s @ t"
  by (induction t arbitrary: s) (simp_all add: emit_def uart_def)

lemma char_not_backspace: "of_char c \<noteq> BACKSPACE" "schar c \<noteq> BACKSPACE"
proof -
  have "(of_char c :: nat) < 256" using range_nat_of_char by (metis atLeastLessThan_iff rangeI)
  then have "int (of_char c) < 256" by simp
  then have "of_char c < (256 :: int)" by (simp only: of_nat_of_char)
  then show "of_char c \<noteq> BACKSPACE" "schar c \<noteq> BACKSPACE" by (simp_all add: schar_def)
qed

lemma no_backspace [simp]: "BACKSPACE \<notin> of_char ` A" "BACKSPACE \<notin> schar ` A" "BACKSPACE \<noteq> of_char c" "of_char c \<noteq> BACKSPACE"
  using char_not_backspace by (metis imageE)+

lemma emit_sect: "core (emit c s) = emit c (core s)" "emit c (acquired l s) = acquired l (emit c s)"
  by (simp_all add: emit_def core_upd acquired_upd)

lemma emits_sect: "core (emits t s) = emits t (core s)" "emits t (acquired l s) = acquired l (emits t s)"
  by (induction t arbitrary: s) (simp_all add: emit_sect)

lemma emit_fields [simp]: "p_hist (emit c s) = p_hist s" "procs (emit c s) = procs s" "ready l (emit c s) = ready l s"
  "cons_locking (cons (emit c s)) = cons_locking (cons s)" "sems (emit c s) = sems s" "fsys (emit c s) = fsys s"
  "input (cons (emit c s)) = input (cons s)" "hist (cons (emit c s)) = hist (cons s)"
  by (simp_all add: emit_def)

lemma emits_fields [simp]: "p_hist (emits t s) = p_hist s" "procs (emits t s) = procs s" "ready l (emits t s) = ready l s"
  "cons_locking (cons (emits t s)) = cons_locking (cons s)" "sems (emits t s) = sems s" "fsys (emits t s) = fsys s"
  "input (cons (emits t s)) = input (cons s)" "hist (cons (emits t s)) = hist (cons s)"
  by (induction t arbitrary: s) simp_all

subsection \<open>cprintf\<close>

definition hex_text :: "nat \<Rightarrow> string" where
  "hex_text x = rev (map (digit_char ''0123456789abcdef'') (digits_of 16 x))"

lemma decimal_digits: "map (digit_char ''0123456789abcdef'') (digits_of 10 x) = map (digit_char ''0123456789ABCDEF'') (digits_of 10 x)"
proof (rule map_cong [OF refl])
  fix d
  assume "d \<in> set (digits_of 10 x)"
  then have "d < 10" by (intro digits_of_less) simp_all
  then have "d \<in> {0, 1, 2, 3, 4, 5, 6, 7, 8, 9}" by auto
  then show "digit_char ''0123456789abcdef'' d = digit_char ''0123456789ABCDEF'' d" by (auto simp: digit_char_def)
qed

lemma cprintint_run:
  assumes "can_print s"
  shows "cprintint a 10 True s = Done () (emits (map of_char (int_text (sint a))) s)"
    and "cprintint a 16 False s = Done () (emits (map of_char (hex_text (unat a))) s)"
proof -
  have "unat (- a) = nat \<bar>sint a\<bar>" if "sint a < 0" using unat_neg [OF that] that by simp
  moreover have "unat a = nat \<bar>sint a\<bar>" if "\<not> sint a < 0" using unat_nonneg [OF that] that by simp
  ultimately show "cprintint a 10 True s = Done () (emits (map of_char (int_text (sint a))) s)"
    by (simp add: cprintint_def digits_loop_eq Let_def int_text_def number_text_def decimal_digits kseq_app consputc_run text_run assms)
  show "cprintint a 16 False s = Done () (emits (map of_char (hex_text (unat a))) s)"
    using text_run [OF assms] by (simp add: cprintint_def digits_loop_eq Let_def hex_text_def)
qed

abbreviation (input) says :: "string \<Rightarrow> kworld \<Rightarrow> kworld" where
  "says t \<equiv> emits (map of_char t)"

text \<open>The text a format stands for; \<open>None\<close> when an argument is missing or of the wrong sort.\<close>

fun krender :: "string \<Rightarrow> carg list \<Rightarrow> int list option" where
  "krender [] ap = Some []"
| "krender [c] ap = (if c = CHR ''%'' then Some [] else Some [of_char c])"
| "krender (c # d # fmt) ap =
     (if c \<noteq> CHR ''%'' then map_option ((#) (of_char c)) (krender (d # fmt) ap)
      else if d = CHR ''d'' then
        (case ap of CInt a # ap' \<Rightarrow> map_option ((@) (map of_char (int_text (sint a)))) (krender fmt ap') | _ \<Rightarrow> None)
      else if d = CHR ''x'' \<or> d = CHR ''p'' then
        (case ap of CInt a # ap' \<Rightarrow> map_option ((@) (map of_char (hex_text (unat a)))) (krender fmt ap') | _ \<Rightarrow> None)
      else if d = CHR ''s'' then
        (case ap of
           CStr p # ap' \<Rightarrow> map_option ((@) (map schar (case p of None \<Rightarrow> ''(null)'' | Some t \<Rightarrow> t))) (krender fmt ap')
         | _ \<Rightarrow> None)
      else if d = CHR ''%'' then map_option ((#) (of_char d)) (krender fmt ap)
      else map_option (\<lambda>t. of_char (CHR ''%'') # of_char d # t) (krender fmt ap))"

lemma krender_no_backspace: "krender fmt ap = Some t \<Longrightarrow> BACKSPACE \<notin> set t"
proof (induction fmt ap arbitrary: t rule: krender.induct)
  case (3 c d fmt ap)
  show ?case
  proof (cases "c = CHR ''%''")
    case True
    then show ?thesis using "3.prems" "3.IH" by (auto split: if_splits list.splits carg.splits)
  next
    case False
    then show ?thesis using "3.prems" "3.IH"(1) by (auto simp del: krender.simps simp add: krender.simps(3))
  qed
qed (auto split: if_splits)

lemma cprintf_loop_run: "can_print s \<Longrightarrow> krender fmt ap = Some t \<Longrightarrow> cprintf_loop fmt ap s = Done () (emits t s)"
proof (induction fmt ap arbitrary: s t rule: krender.induct)
  case (3 c d fmt ap)
  show ?case
  proof (cases "c = CHR ''%''")
    case True
    then show ?thesis using "3.prems" "3.IH"
      by (auto simp: kseq_app consputc_run cprintint_run text_run split: if_splits list.splits carg.splits)
  next
    case False
    then show ?thesis using 3 by (auto simp: kseq_app consputc_run simp del: krender.simps cprintf_loop.simps simp add: krender.simps(3) cprintf_loop.simps(2) [of c])
  qed
qed (auto simp: kseq_app consputc_run split: if_splits)

lemma cprintf_run:
  assumes "can_print s" and "ready ConsLock s" and "krender fmt ap = Some t"
  shows "wp (cprintf (Some fmt) ap) (\<lambda>_ u. core u = core (emits t s)) s"
proof (cases "cons_locking (cons s)")
  case True
  have "can_print (acquired ConsLock s)" using assms(1) by (simp add: can_print_def)
  then have "cprintf_loop fmt ap (acquired ConsLock s) = Done () (acquired ConsLock (emits t s))"
    using cprintf_loop_run assms(3) by (simp add: emits_sect)
  then show ?thesis using True assms(2)
    by (simp add: cprintf_def wp_simps wp_acquire_ready wp_def [of "cprintf_loop _ _"] wp_leave)
next
  case False
  then show ?thesis using cprintf_loop_run [OF assms(1,3)] by (simp add: cprintf_def wp_simps wp_def [of "cprintf_loop _ _"])
qed

lemma cprintf_core:
  assumes "core t = core s" and "can_print s" and "ready ConsLock s" and "krender fmt ap = Some x"
    and "\<And>u. core u = core (emits x s) \<Longrightarrow> Q () u"
  shows "wp (cprintf (Some fmt) ap) Q t"
proof -
  have "can_print t" using assms(2) core_eq_data(23) [OF assms(1)] by (simp add: can_print_def)
  moreover have "ready ConsLock t" using assms(3) core_eq_locks(5) [OF assms(1)] by simp
  moreover have "core (emits x t) = core (emits x s)" using assms(1) by (simp add: emits_sect)
  ultimately show ?thesis using cprintf_run [OF _ _ assms(4), of t] assms(5) by (auto elim!: wp_conseq)
qed

subsection \<open>The history of a system call\<close>

definition pid_text :: "int \<Rightarrow> string" where
  "pid_text n = int_text (sint (word_of_int n :: 32 word))"

fun callers_text :: "int list \<Rightarrow> string" where
  "callers_text [] = []"
| "callers_text [n] = pid_text n"
| "callers_text (n # ns) = pid_text n @ '', '' @ callers_text ns"

text \<open>The ring buffer stands for the list of all callers so far, of which it keeps the last \<open>PROC_HIST_SIZE\<close>.\<close>

definition hist_rep :: "int list \<Rightarrow> syscall_hist \<Rightarrow> bool" where
  "hist_rep xs h \<longleftrightarrow> hist_size h = int (length xs) \<and> length (hist_pids h) = PROC_HIST_SIZE
     \<and> (\<forall>j < length xs. length xs \<le> j + PROC_HIST_SIZE \<longrightarrow> hist_pids h ! (j mod PROC_HIST_SIZE) = xs ! j)"

definition recent :: "int list \<Rightarrow> int list" where
  "recent xs = drop (length xs - PROC_HIST_SIZE) xs"

lemma mod_apart:
  fixes j n m :: nat
  assumes "j < n" and "n < j + m"
  shows "j mod m \<noteq> n mod m"
proof
  assume "j mod m = n mod m"
  then have "m dvd n - j" using assms(1) mod_eq_dvd_iff_nat [of j n m] by simp
  then have "m \<le> n - j" using assms(1) by (intro dvd_imp_le) simp_all
  then show False using assms by simp
qed

lemma hist_rep_push:
  assumes "hist_rep xs h"
  shows "hist_rep (xs @ [n]) \<lparr>hist_pids = (hist_pids h)[nat (hist_size h mod int PROC_HIST_SIZE) := n], hist_size = hist_size h + 1\<rparr>"
proof -
  have h: "hist_size h = int (length xs)" "length (hist_pids h) = PROC_HIST_SIZE" using assms by (simp_all add: hist_rep_def)
  have i: "nat (hist_size h mod int PROC_HIST_SIZE) = length xs mod PROC_HIST_SIZE" using h(1) by (simp add: nat_mod_as_int)
  have "(hist_pids h)[length xs mod PROC_HIST_SIZE := n] ! (j mod PROC_HIST_SIZE) = (xs @ [n]) ! j"
    if j: "j < Suc (length xs)" "Suc (length xs) \<le> j + PROC_HIST_SIZE" for j
  proof (cases "j = length xs")
    case True
    then show ?thesis using h(2) by simp
  next
    case False
    then have "j mod PROC_HIST_SIZE \<noteq> length xs mod PROC_HIST_SIZE" using j by (intro mod_apart) simp_all
    then show ?thesis using assms False j by (simp add: hist_rep_def nth_append)
  qed
  then show ?thesis using h i by (simp add: hist_rep_def)
qed

definition span :: "nat \<Rightarrow> nat \<Rightarrow> nat" where
  "span limit i = (if i < limit then limit - i else limit + PROC_HIST_SIZE - i)"

lemma span_step:
  assumes "limit < PROC_HIST_SIZE" and "i < PROC_HIST_SIZE"
  shows "span limit i = (if (i + 1) mod PROC_HIST_SIZE = limit then 1 else Suc (span limit ((i + 1) mod PROC_HIST_SIZE)))"
proof -
  have "(i + 1) mod PROC_HIST_SIZE = (if i = 999 then 0 else i + 1)" using assms(2) by auto
  then show ?thesis using assms by (auto simp: span_def)
qed

lemma get_callers_loop_run:
  assumes "limit < PROC_HIST_SIZE" and "i < PROC_HIST_SIZE" and "core t = core s" and "can_print s" and "ready ConsLock s"
  shows "wp (get_callers_loop k limit i) (\<lambda>_ u. core u = core (says (callers_text
    (map (\<lambda>j. hist_pids (p_hist s ! k) ! ((i + j) mod PROC_HIST_SIZE)) [0 ..< span limit i])) s)) t"
  using assms
proof (induction k limit i arbitrary: s t rule: get_callers_loop.induct)
  case (1 k limit i)
  let ?p = "hist_pids (p_hist s ! k)" and ?i = "(i + 1) mod PROC_HIST_SIZE"
  have ph: "p_hist t = p_hist s" by (rule core_eq_data(11) [OF "1.prems"(3)])
  have first: "map (\<lambda>j. ?p ! ((i + j) mod PROC_HIST_SIZE)) [0 ..< Suc m]
      = ?p ! i # map (\<lambda>j. ?p ! ((?i + j) mod PROC_HIST_SIZE)) [0 ..< m]" for m
    using "1.prems"(2) by (simp add: upt_conv_Cons map_Suc_upt [symmetric] mod_simps comp_def del: upt_Suc)
  have cp: "core t = core s" "can_print s" "ready ConsLock s" using "1.prems" by simp_all
  have body: "wp (kseq (cprintf (Some ''%d'') [CInt (word_of_int (?p ! i))]) (
        if ?i = limit then kret () else kseq (cprintf (Some '', '') []) (get_callers_loop k limit ?i)))
      (\<lambda>_ u. core u = core (says (callers_text (map (\<lambda>j. ?p ! ((i + j) mod PROC_HIST_SIZE)) [0 ..< span limit i])) s)) t"
    unfolding wp_seq
  proof (rule cprintf_core [OF cp, of _ _ "map of_char (pid_text (?p ! i))"])
    show "krender ''%d'' [CInt (word_of_int (?p ! i))] = Some (map of_char (pid_text (?p ! i)))" by (simp add: pid_text_def)
    fix u
    assume u: "core u = core (says (pid_text (?p ! i)) s)"
    show "wp (if ?i = limit then kret () else kseq (cprintf (Some '', '') []) (get_callers_loop k limit ?i))
        (\<lambda>_ u. core u = core (says (callers_text (map (\<lambda>j. ?p ! ((i + j) mod PROC_HIST_SIZE)) [0 ..< span limit i])) s)) u"
    proof (cases "?i = limit")
      case True
      then have "span limit i = Suc 0" using span_step [OF "1.prems"(1,2)] by simp
      then show ?thesis using True u first [of 0] by (simp add: wp_simps)
    next
      case False
      then have sp: "span limit i = Suc (span limit ?i)" using span_step [OF "1.prems"(1,2)] by simp
      have ne: "0 < span limit ?i" using "1.prems"(1) by (auto simp: span_def)
      let ?s2 = "says '', '' (says (pid_text (?p ! i)) s)"
      have "wp (cprintf (Some '', '') []) (\<lambda>_. wp (get_callers_loop k limit ?i)
          (\<lambda>_ u. core u = core (says (callers_text (map (\<lambda>j. ?p ! ((?i + j) mod PROC_HIST_SIZE)) [0 ..< span limit ?i])) ?s2))) u"
      proof (rule cprintf_core [OF u, of _ _ "map of_char '', ''"])
        fix v
        assume v: "core v = core ?s2"
        show "wp (get_callers_loop k limit ?i) (\<lambda>_ u. core u = core (says (callers_text
            (map (\<lambda>j. ?p ! ((?i + j) mod PROC_HIST_SIZE)) [0 ..< span limit ?i])) ?s2)) v"
          using "1.IH" [of "(i + 1) mod PROC_HIST_SIZE" v ?s2] "1.prems" False v by simp
      qed (use cp in simp_all)
      moreover have "says (callers_text (map (\<lambda>j. ?p ! ((i + j) mod PROC_HIST_SIZE)) [0 ..< span limit i])) s
          = says (callers_text (map (\<lambda>j. ?p ! ((?i + j) mod PROC_HIST_SIZE)) [0 ..< span limit ?i])) ?s2"
        unfolding sp first using ne by (cases "map (\<lambda>j. ?p ! ((?i + j) mod PROC_HIST_SIZE)) [0 ..< span limit ?i]") simp_all
      ultimately show ?thesis using False by (simp add: wp_seq)
    qed
  qed
  have "get_callers_loop k limit i t = kseq (cprintf (Some ''%d'') [CInt (word_of_int (?p ! i))]) (
        if ?i = limit then kret () else kseq (cprintf (Some '', '') []) (get_callers_loop k limit ?i)) t"
    by (subst get_callers_loop.simps) (use "1.prems"(1,2) ph in \<open>simp add: Let_def kbind_app\<close>)
  then show ?case using body by (simp only: wp_def)
qed

lemma recent_ring:
  assumes "hist_rep xs h" and "xs \<noteq> []" and "i = (if length xs > PROC_HIST_SIZE then length xs mod PROC_HIST_SIZE else 0)"
  shows "map (\<lambda>j. hist_pids h ! ((i + j) mod PROC_HIST_SIZE)) [0 ..< span (length xs mod PROC_HIST_SIZE) i] = recent xs"
proof -
  let ?n = "length xs"
  have h: "hist_pids h ! (j mod PROC_HIST_SIZE) = xs ! j" if "j < ?n" "?n \<le> j + PROC_HIST_SIZE" for j
    using assms(1) that by (simp add: hist_rep_def)
  have sp: "span (?n mod PROC_HIST_SIZE) i = ?n - (?n - PROC_HIST_SIZE)"
  proof (cases "?n < PROC_HIST_SIZE")
    case True
    then show ?thesis using assms(2,3) by (simp add: span_def)
  next
    case False
    then show ?thesis using assms(3) by (auto simp: span_def)
  qed
  have "hist_pids h ! ((i + j) mod PROC_HIST_SIZE) = xs ! (?n - PROC_HIST_SIZE + j)" if j: "j < ?n - (?n - PROC_HIST_SIZE)" for j
  proof -
    have "(i + j) mod PROC_HIST_SIZE = (?n - PROC_HIST_SIZE + j) mod PROC_HIST_SIZE"
    proof (cases "?n > PROC_HIST_SIZE")
      case True
      then have "(?n - PROC_HIST_SIZE) mod PROC_HIST_SIZE = ?n mod PROC_HIST_SIZE" by (simp add: le_mod_geq)
      then show ?thesis using True assms(3) by (metis mod_add_left_eq mod_mod_trivial)
    next
      case False
      then show ?thesis using assms(3) by simp
    qed
    moreover have "?n - PROC_HIST_SIZE + j < ?n" "?n \<le> ?n - PROC_HIST_SIZE + j + PROC_HIST_SIZE" using j by linarith+
    ultimately show ?thesis using h [of "?n - PROC_HIST_SIZE + j"] by simp
  qed
  then show ?thesis unfolding sp recent_def by (intro nth_equalityI) simp_all
qed

lemma get_callers_run:
  assumes "can_print s" and "ready ConsLock s" and "k < SYS_CALL_NUM" and "hist_rep xs (p_hist s ! k)" and "xs \<noteq> []"
  shows "wp (get_callers k) (\<lambda>_ t. core t = core (says (callers_text (recent xs) @ newline) s)) s"
proof -
  let ?n = "length xs"
  let ?i = "if ?n > PROC_HIST_SIZE then ?n mod PROC_HIST_SIZE else 0"
  have n: "hist_size (p_hist s ! k) = int ?n" using assms(4) by (simp add: hist_rep_def)
  have "wp (get_callers_loop k (?n mod PROC_HIST_SIZE) ?i) (\<lambda>_ u. core u = core (says (callers_text (recent xs)) s)) s"
    using get_callers_loop_run [of "?n mod PROC_HIST_SIZE" ?i s s k] recent_ring [OF assms(4,5) refl] assms(1,2) by simp
  then have "wp (get_callers_loop k (?n mod PROC_HIST_SIZE) ?i) (\<lambda>_. wp (cprintf (Some newline) [])
      (\<lambda>_ t. core t = core (says (callers_text (recent xs) @ newline) s))) s"
  proof (rule wp_conseq)
    fix x u
    assume u: "core u = core (says (callers_text (recent xs)) s)"
    show "wp (cprintf (Some newline) []) (\<lambda>_ t. core t = core (says (callers_text (recent xs) @ newline) s)) u"
      using assms(1,2) by (intro cprintf_core [OF u, of _ _ "map of_char newline"]) (simp_all add: newline_def)
  qed
  then show ?thesis using assms(3,5) n by (cases "PROC_HIST_SIZE < ?n") (simp_all add: get_callers_def wp_simps)
qed

subsection \<open>Properties\<close>

text \<open>
  C31. Console output: \<open>cprintf\<close> sends exactly the text of its format to the serial line, whether or
  not it takes the console lock, and every character it draws stays on the display: the cursor is
  left in the first 24 lines.
\<close>

theorem cprintf_spec:
  assumes "\<not> panicked (cons s)" and "screen_ok (cons s)" and "ready ConsLock s" and "krender fmt args = Some out"
  shows "wp (cprintf (Some fmt) args) (\<lambda>_ t. console_out t = console_out s @ out \<and> screen_ok (cons t)
    \<and> core t = core (s\<lparr>console_out := console_out t, cons := cons t\<rparr>)) s"
proof -
  have p: "can_print s" using assms(1,2) by (simp add: can_print_def)
  have others: "\<exists>k. emits out s = s\<lparr>console_out := console_out s @ out, cons := k\<rparr>"
  proof -
    have "\<exists>o' k. emits t s = s\<lparr>console_out := o', cons := k\<rparr>" for t and s :: kworld
    proof (induction t arbitrary: s)
      case Nil
      have "emits [] s = s\<lparr>console_out := console_out s, cons := cons s\<rparr>" by simp
      then show ?case by blast
    next
      case (Cons c t)
      obtain o' k where "emits t (emit c s) = (emit c s)\<lparr>console_out := o', cons := k\<rparr>" using Cons by blast
      then have "emits (c # t) s = s\<lparr>console_out := o', cons := k\<rparr>" by (simp add: emit_def)
      then show ?case by blast
    qed
    then obtain o' k where "emits out s = s\<lparr>console_out := o', cons := k\<rparr>" by blast
    then show ?thesis using console_out_emits [OF krender_no_backspace [OF assms(4)], of s] by (intro exI [of _ k]) simp
  qed
  show ?thesis
  proof (rule wp_conseq [OF cprintf_run [OF p assms(3,4)]])
    fix x t
    assume t: "core t = core (emits out s)"
    obtain k where k: "emits out s = s\<lparr>console_out := console_out s @ out, cons := k\<rparr>" using others by blast
    have "screen_ok k" using can_print_emits [OF p, of out] k by (simp add: can_print_def)
    then show "console_out t = console_out s @ out \<and> screen_ok (cons t)
        \<and> core t = core (s\<lparr>console_out := console_out t, cons := cons t\<rparr>)"
      using core_eq_data(23,24) [OF t] t k by simp
  qed
qed

theorem cprintf_spec_witness:
  "wp (cprintf (Some ''%d %s %x'') [CInt (- 7), CStr None, CInt 255])
    (\<lambda>_ t. console_out t = map of_char ''-7 (null) ff'' \<and> screen_ok (cons t)
      \<and> core t = core (demo\<lparr>console_out := console_out t, cons := cons t\<rparr>)) demo"
proof -
  have "digits_of 16 255 = [15, 15]" "digits_of 10 7 = [7]" by (simp_all add: digits_of.simps)
  then have r: "krender ''%d %s %x'' [CInt (- 7), CStr None, CInt 255] = Some (map of_char ''-7 (null) ff'')"
    by (simp add: int_text_def number_text_def hex_text_def digit_char_def schar_def)
  have "cons demo = zero_cons" "console_out demo = []" by (simp_all add: demo_def upd_cpu_def)
  then show ?thesis using cprintf_spec [OF _ _ _ r, of demo] by (simp add: zero_cons_def screen_ok_def)
qed


definition hist_demo :: kworld where
  "hist_demo = demo\<lparr>p_hist := upd 3 (\<lambda>h. \<lparr>hist_pids = (hist_pids h)[0 := 5, 1 := 4], hist_size = 2\<rparr>) (p_hist demo)\<rparr>"


end
