(* ===== verification/Fs.thy ===== *)
theory Fs
  imports Crash Cons_Out
begin

unbundle bit_operations_syntax

section \<open>The file system (fs.c)\<close>

text \<open>
  Blocks, inodes, file contents, directories and paths, over the block layer and the log.  An inode
  pointer is an index into the cache \<open>icache\<close>; \<open>ilock\<close> and \<open>iunlock\<close>, which test for a null pointer,
  take an option.  Structures on disk are read and written at their byte offsets.  What \<open>readi\<close> copies
  to \<open>dst\<close> is returned as a list of bytes, and \<open>writei\<close> takes the bytes at \<open>src\<close>; to read past their
  end is a fault, as is signed overflow of a loop counter.  Names and paths are lists of bytes
  without the terminating zero.  The table \<open>devsw\<close> of device functions (file.c) is an argument.
\<close>

subsection \<open>Definitions: layout\<close>

abbreviation (input) NINDIRECT :: nat where "NINDIRECT \<equiv> 128"
abbreviation (input) MAXFILE :: nat where "MAXFILE \<equiv> 140"
abbreviation (input) IPB :: nat where "IPB \<equiv> 8"
abbreviation (input) BPB :: nat where "BPB \<equiv> 4096"
abbreviation (input) DIRSIZ :: nat where "DIRSIZ \<equiv> 14"
abbreviation (input) ROOTINO :: "32 word" where "ROOTINO \<equiv> 1"
abbreviation (input) ROOTDEV :: "32 word" where "ROOTDEV \<equiv> 1"
abbreviation (input) T_DIR :: "16 word" where "T_DIR \<equiv> 1"
abbreviation (input) T_FILE :: "16 word" where "T_FILE \<equiv> 2"
abbreviation (input) T_DEV :: "16 word" where "T_DEV \<equiv> 3"

definition get16 :: "block \<Rightarrow> nat \<Rightarrow> 16 word" where
  "get16 d k = ucast (d ! k) OR push_bit 8 (ucast (d ! (k + 1)))"

definition put16 :: "block \<Rightarrow> nat \<Rightarrow> 16 word \<Rightarrow> block" where
  "put16 d k w = d[k := ucast w, k + 1 := ucast (drop_bit 8 w)]"

definition IBLOCK :: "32 word \<Rightarrow> superblock \<Rightarrow> 32 word" where
  "IBLOCK i sbk = i div of_nat IPB + sb_inodestart sbk"

definition BBLOCK :: "32 word \<Rightarrow> superblock \<Rightarrow> 32 word" where
  "BBLOCK b sbk = b div of_nat BPB + sb_bmapstart sbk"

text \<open>\<open>struct dinode\<close>: 64 bytes, four shorts, the size and the block addresses.\<close>

definition dinode_at :: "32 word \<Rightarrow> nat" where
  "dinode_at inum = 64 * (unat inum mod IPB)"

definition read_dinode :: "block \<Rightarrow> nat \<Rightarrow> inode \<Rightarrow> inode" where
  "read_dinode d k ip = ip\<lparr>i_type := get16 d k, i_major := get16 d (k + 2), i_minor := get16 d (k + 4),
     i_nlink := get16 d (k + 6), i_size := get32 d (k + 8),
     i_addrs := map (\<lambda>j. get32 d (k + 12 + 4 * j)) [0 ..< NDIRECT + 1]\<rparr>"

definition write_dinode :: "block \<Rightarrow> nat \<Rightarrow> inode \<Rightarrow> block" where
  "write_dinode d k ip =
     put32s (put32 (put16 (put16 (put16 (put16 d k (i_type ip)) (k + 2) (i_major ip)) (k + 4) (i_minor ip))
       (k + 6) (i_nlink ip)) (k + 8) (i_size ip)) (k + 12) (i_addrs ip)"

definition zero_dinode :: "block \<Rightarrow> nat \<Rightarrow> block" where
  "zero_dinode d k = take k d @ replicate 64 0 @ drop (k + 64) d"

definition inode_of :: "nat \<Rightarrow> kworld \<Rightarrow> inode" where
  "inode_of ip s = icache (fsys s) ! ip"

definition upd_inode :: "nat \<Rightarrow> (inode \<Rightarrow> inode) \<Rightarrow> kworld \<Rightarrow> kworld" where
  "upd_inode ip f s = s\<lparr>fsys := (fsys s)\<lparr>icache := upd ip f (icache (fsys s))\<rparr>\<rparr>"

definition get_sb :: "superblock kern" where
  "get_sb = kget (\<lambda>s. sb (fsys s))"

subsection \<open>Definitions: blocks\<close>

definition bzero :: "32 word \<Rightarrow> 32 word \<Rightarrow> unit kern" where
  "bzero dev bno =
     kbind (bread dev bno) (\<lambda>bp.
     kseq (kmod (set_data bp (replicate BSIZE 0))) (
     kseq (log_write bp) (
     brelse bp)))"

definition in_use :: "block \<Rightarrow> nat \<Rightarrow> bool" where
  "in_use d bi = bit (d ! (bi div 8)) (bi mod 8)"

definition mark_used :: "block \<Rightarrow> nat \<Rightarrow> block" where
  "mark_used d bi = d[bi div 8 := d ! (bi div 8) OR push_bit (bi mod 8) 1]"

definition mark_free :: "block \<Rightarrow> nat \<Rightarrow> block" where
  "mark_free d bi = d[bi div 8 := d ! (bi div 8) AND NOT (push_bit (bi mod 8) 1)]"

fun balloc_loop :: "32 word \<Rightarrow> nat list \<Rightarrow> 32 word kern" where
  "balloc_loop dev [] = kpanic ''balloc: out of blocks''"
| "balloc_loop dev (b # bs) =
     (if 2 ^ 31 \<le> b then kfault
      else
        kbind get_sb (\<lambda>sbk.
        kbind (bread dev (BBLOCK (of_nat b) sbk)) (\<lambda>bp.
        kbind (kget (buf_data bp)) (\<lambda>d.
        case find (\<lambda>bi. \<not> in_use d bi) [0 ..< min BPB (unat (sb_size sbk) - b)] of
          Some bi \<Rightarrow>
            kseq (kmod (set_data bp (mark_used d bi))) (
            kseq (log_write bp) (
            kseq (brelse bp) (
            kseq (bzero dev (of_nat (b + bi))) (
            kret (of_nat (b + bi))))))
        | None \<Rightarrow> kseq (brelse bp) (balloc_loop dev bs)))))"

definition balloc :: "32 word \<Rightarrow> 32 word kern" where
  "balloc dev =
     kbind get_sb (\<lambda>sbk.
     balloc_loop dev (map (\<lambda>i. BPB * i) [0 ..< (unat (sb_size sbk) + BPB - 1) div BPB]))"

definition bfree :: "32 word \<Rightarrow> 32 word \<Rightarrow> unit kern" where
  "bfree dev b =
     kbind get_sb (\<lambda>sbk.
     kbind (bread dev (BBLOCK b sbk)) (\<lambda>bp.
     let bi = unat b mod BPB in
     kbind (kget (buf_data bp)) (\<lambda>d.
     if \<not> in_use d bi then kpanic ''freeing free block''
     else
       kseq (kmod (set_data bp (mark_free d bi))) (
       kseq (log_write bp) (
       brelse bp)))))"

subsection \<open>Definitions: inodes\<close>

definition iinit :: "32 word \<Rightarrow> unit kern" where
  "iinit dev =
     kseq (initlock IcacheLock ''icache'') (
     kseq (kfor [0 ..< NINODE] (\<lambda>i. initsleeplock (InodeSleep i) ''inode'')) (
     kbind (readsb dev) (\<lambda>sbk.
     kseq (kmod (\<lambda>s. s\<lparr>fsys := (fsys s)\<lparr>sb := sbk\<rparr>\<rparr>)) (
     cprintf (Some (''sb: size %d nblocks %d ninodes %d nlog %d logstart %d inodestart %d bmap start %d'' @ newline))
       [CInt (sb_size sbk), CInt (sb_nblocks sbk), CInt (sb_ninodes sbk), CInt (sb_nlog sbk), CInt (sb_logstart sbk),
        CInt (sb_inodestart sbk), CInt (sb_bmapstart sbk)]))))"

definition iget :: "32 word \<Rightarrow> 32 word \<Rightarrow> nat kern" where
  "iget dev inum =
     kseq (acquire IcacheLock) (
     kbind (kget (\<lambda>s. icache (fsys s))) (\<lambda>c.
     case find_idx (\<lambda>ip. i_ref ip > 0 \<and> i_dev ip = dev \<and> i_inum ip = inum) c of
       Some ip \<Rightarrow>
         kseq (kmod (upd_inode ip (\<lambda>i. i\<lparr>i_ref := i_ref i + 1\<rparr>))) (
         kseq (release IcacheLock) (
         kret ip))
     | None \<Rightarrow>
         (case find_idx (\<lambda>ip. i_ref ip = 0) c of
            None \<Rightarrow> kpanic ''iget: no inodes''
          | Some ip \<Rightarrow>
              kseq (kmod (upd_inode ip (\<lambda>i. i\<lparr>i_dev := dev, i_inum := inum, i_ref := 1, i_valid := False\<rparr>))) (
              kseq (release IcacheLock) (
              kret ip)))))"

fun ialloc_loop :: "32 word \<Rightarrow> 16 word \<Rightarrow> 32 word list \<Rightarrow> nat kern" where
  "ialloc_loop dev ty [] = kpanic ''ialloc: no inodes''"
| "ialloc_loop dev ty (inum # inums) =
     kbind get_sb (\<lambda>sbk.
     kbind (bread dev (IBLOCK inum sbk)) (\<lambda>bp.
     kbind (kget (buf_data bp)) (\<lambda>d.
     if get16 d (dinode_at inum) = 0 then
       kseq (kmod (set_data bp (put16 (zero_dinode d (dinode_at inum)) (dinode_at inum) ty))) (
       kseq (log_write bp) (
       kseq (brelse bp) (
       iget dev inum)))
     else kseq (brelse bp) (ialloc_loop dev ty inums))))"

definition ialloc :: "32 word \<Rightarrow> 16 word \<Rightarrow> nat kern" where
  "ialloc dev ty =
     kbind get_sb (\<lambda>sbk.
     ialloc_loop dev ty (map of_nat [1 ..< unat (sb_ninodes sbk)]))"

definition iupdate :: "nat \<Rightarrow> unit kern" where
  "iupdate ip =
     kbind get_sb (\<lambda>sbk.
     kbind (kget (inode_of ip)) (\<lambda>i.
     kbind (bread (i_dev i) (IBLOCK (i_inum i) sbk)) (\<lambda>bp.
     kseq (kmod (\<lambda>s. set_data bp (write_dinode (buf_data bp s) (dinode_at (i_inum i)) (inode_of ip s)) s)) (
     kseq (log_write bp) (
     brelse bp)))))"

definition idup :: "nat \<Rightarrow> nat kern" where
  "idup ip =
     kseq (acquire IcacheLock) (
     kseq (kmod (upd_inode ip (\<lambda>i. i\<lparr>i_ref := i_ref i + 1\<rparr>))) (
     kseq (release IcacheLock) (
     kret ip)))"

definition ilock :: "nat option \<Rightarrow> unit kern" where
  "ilock p =
     (case p of
        None \<Rightarrow> kpanic ''ilock''
      | Some ip \<Rightarrow>
          kbind (kget (inode_of ip)) (\<lambda>i0.
          if i_ref i0 < 1 then kpanic ''ilock''
          else
            kseq (acquiresleep (InodeSleep ip)) (
            kbind (kget (inode_of ip)) (\<lambda>i.
            kwhen (\<not> i_valid i) (
              kbind get_sb (\<lambda>sbk.
              kbind (bread (i_dev i) (IBLOCK (i_inum i) sbk)) (\<lambda>bp.
              kseq (kmod (\<lambda>s. upd_inode ip (read_dinode (buf_data bp s) (dinode_at (i_inum i))) s)) (
              kseq (brelse bp) (
              kseq (kmod (upd_inode ip (\<lambda>i. i\<lparr>i_valid := True\<rparr>))) (
              kbind (kget (inode_of ip)) (\<lambda>i'.
              kwhen (i_type i' = 0) (kpanic ''ilock: no type''))))))))))))"

definition iunlock :: "nat option \<Rightarrow> unit kern" where
  "iunlock p =
     (case p of
        None \<Rightarrow> kpanic ''iunlock''
      | Some ip \<Rightarrow>
          kbind (holdingsleep (InodeSleep ip)) (\<lambda>h.
          kbind (kget (inode_of ip)) (\<lambda>i.
          if \<not> h \<or> i_ref i < 1 then kpanic ''iunlock''
          else releasesleep (InodeSleep ip))))"

subsection \<open>Definitions: inode content\<close>

definition set_addr :: "nat \<Rightarrow> nat \<Rightarrow> 32 word \<Rightarrow> unit kern" where
  "set_addr ip k a = kmod (upd_inode ip (\<lambda>i. i\<lparr>i_addrs := (i_addrs i)[k := a]\<rparr>))"

text \<open>\<open>if((addr = ip->addrs[k]) == 0) ip->addrs[k] = addr = balloc(ip->dev);\<close>\<close>

definition get_addr :: "nat \<Rightarrow> nat \<Rightarrow> 32 word kern" where
  "get_addr ip k =
     kbind (kget (inode_of ip)) (\<lambda>i.
     if i_addrs i ! k = 0 then
       kbind (balloc (i_dev i)) (\<lambda>addr.
       kseq (set_addr ip k addr) (
       kret addr))
     else kret (i_addrs i ! k))"

definition bmap :: "nat \<Rightarrow> 32 word \<Rightarrow> 32 word kern" where
  "bmap ip bn0 =
     (if bn0 < of_nat NDIRECT then get_addr ip (unat bn0)
      else
        let bn = bn0 - of_nat NDIRECT in
        if bn < of_nat NINDIRECT then
          kbind (get_addr ip NDIRECT) (\<lambda>iaddr.
          kbind (kget (\<lambda>s. i_dev (inode_of ip s))) (\<lambda>dev.
          kbind (bread dev iaddr) (\<lambda>bp.
          kbind (kget (\<lambda>s. get32 (buf_data bp s) (4 * unat bn))) (\<lambda>a.
          kbind
            (if a = 0 then
               kbind (balloc dev) (\<lambda>addr.
               kseq (kmod (\<lambda>s. set_data bp (put32 (buf_data bp s) (4 * unat bn) addr) s)) (
               kseq (log_write bp) (
               kret addr)))
             else kret a) (\<lambda>addr.
          kseq (brelse bp) (
          kret addr))))))
        else kpanic ''bmap: out of range'')"

definition itrunc :: "nat \<Rightarrow> unit kern" where
  "itrunc ip =
     kseq (kfor [0 ..< NDIRECT] (\<lambda>k.
       kbind (kget (inode_of ip)) (\<lambda>i.
       kwhen (i_addrs i ! k \<noteq> 0) (
         kseq (bfree (i_dev i) (i_addrs i ! k)) (
         set_addr ip k 0))))) (
     kbind (kget (inode_of ip)) (\<lambda>i.
     kseq (kwhen (i_addrs i ! NDIRECT \<noteq> 0) (
       kbind (bread (i_dev i) (i_addrs i ! NDIRECT)) (\<lambda>bp.
       kseq (kfor [0 ..< NINDIRECT] (\<lambda>j.
         kbind (kget (\<lambda>s. get32 (buf_data bp s) (4 * j))) (\<lambda>a.
         kwhen (a \<noteq> 0) (bfree (i_dev i) a)))) (
       kseq (brelse bp) (
       kseq (bfree (i_dev i) (i_addrs i ! NDIRECT)) (
       set_addr ip NDIRECT 0)))))) (
     kseq (kmod (upd_inode ip (\<lambda>i. i\<lparr>i_size := 0\<rparr>))) (
     iupdate ip))))"

definition iput :: "nat \<Rightarrow> unit kern" where
  "iput ip =
     kseq (acquiresleep (InodeSleep ip)) (
     kbind (kget (inode_of ip)) (\<lambda>i.
     kseq (kwhen (i_valid i \<and> i_nlink i = 0) (
       kseq (acquire IcacheLock) (
       kbind (kget (\<lambda>s. i_ref (inode_of ip s))) (\<lambda>r.
       kseq (release IcacheLock) (
       kwhen (r = 1) (
         kseq (itrunc ip) (
         kseq (kmod (upd_inode ip (\<lambda>i. i\<lparr>i_type := 0\<rparr>))) (
         kseq (iupdate ip) (
         kmod (upd_inode ip (\<lambda>i. i\<lparr>i_valid := False\<rparr>))))))))))) (
     kseq (releasesleep (InodeSleep ip)) (
     kseq (acquire IcacheLock) (
     kseq (kmod (upd_inode ip (\<lambda>i. i\<lparr>i_ref := i_ref i - 1\<rparr>))) (
     release IcacheLock))))))"

definition iunlockput :: "nat \<Rightarrow> unit kern" where
  "iunlockput ip = kseq (iunlock (Some ip)) (iput ip)"

record stat =
  st_dev :: "32 word"
  st_ino :: "32 word"
  st_type :: "16 word"
  st_nlink :: "16 word"
  st_size :: "32 word"

definition stati :: "nat \<Rightarrow> stat kern" where
  "stati ip = kget (\<lambda>s. let i = inode_of ip s in
     \<lparr>st_dev = i_dev i, st_ino = i_inum i, st_type = i_type i, st_nlink = i_nlink i, st_size = i_size i\<rparr>)"

record devsw =
  dev_read :: "(nat \<Rightarrow> int \<Rightarrow> (int \<times> byte list) kern) option"
  dev_write :: "(nat \<Rightarrow> byte list \<Rightarrow> int \<Rightarrow> int kern) option"

type_synonym devtab = "int \<Rightarrow> devsw"

text \<open>The copying loops; \<open>rem\<close> is \<open>n - tot\<close>.\<close>

definition chunk :: "32 word \<Rightarrow> nat \<Rightarrow> nat" where
  "chunk off rem = min rem (BSIZE - unat off mod BSIZE)"

lemma chunk_pos: "0 < rem \<Longrightarrow> 0 < chunk off rem"
  using mod_less_divisor [of BSIZE "unat off"] by (simp add: chunk_def)

function readi_loop :: "nat \<Rightarrow> 32 word \<Rightarrow> nat \<Rightarrow> byte list kern" where
  "readi_loop ip off rem =
     (if rem = 0 then kret []
      else
        kbind (kget (\<lambda>s. i_dev (inode_of ip s))) (\<lambda>dev.
        kbind (bmap ip (off div of_nat BSIZE)) (\<lambda>a.
        kbind (bread dev a) (\<lambda>bp.
        kbind (kget (\<lambda>s. take (chunk off rem) (drop (unat off mod BSIZE) (buf_data bp s)))) (\<lambda>bytes.
        kseq (brelse bp) (
        kbind (readi_loop ip (off + of_nat (chunk off rem)) (rem - chunk off rem)) (\<lambda>rest.
        kret (bytes @ rest))))))))"
  by pat_completeness auto
termination
  using chunk_pos by (relation "measure (\<lambda>(ip, off, rem). rem)") (auto simp: diff_less)

declare readi_loop.simps [simp del]

definition readi :: "devtab \<Rightarrow> nat \<Rightarrow> 32 word \<Rightarrow> 32 word \<Rightarrow> (int \<times> byte list) kern" where
  "readi dsw ip off n =
     kbind (kget (inode_of ip)) (\<lambda>i.
     if i_type i = T_DEV then
       if sint (i_major i) < 0 \<or> sint (i_major i) \<ge> NDEV then kret (- 1, [])
       else (case dev_read (dsw (sint (i_major i))) of None \<Rightarrow> kret (- 1, []) | Some f \<Rightarrow> f ip (sint n))
     else if off > i_size i \<or> off + n < off then kret (- 1, [])
     else
       let n' = (if off + n > i_size i then i_size i - off else n) in
       kbind (readi_loop ip off (unat n')) (\<lambda>bytes.
       kret (sint n', bytes)))"

text \<open>\<open>memmove(bp->data + k, src, m)\<close>\<close>

definition splice :: "block \<Rightarrow> nat \<Rightarrow> byte list \<Rightarrow> block" where
  "splice d k bytes = take k d @ bytes @ drop (k + length bytes) d"

function writei_loop :: "nat \<Rightarrow> byte list \<Rightarrow> 32 word \<Rightarrow> nat \<Rightarrow> unit kern" where
  "writei_loop ip src off rem =
     (if rem = 0 then kret ()
      else
        kbind (kget (\<lambda>s. i_dev (inode_of ip s))) (\<lambda>dev.
        kbind (bmap ip (off div of_nat BSIZE)) (\<lambda>a.
        kbind (bread dev a) (\<lambda>bp.
        if length src < chunk off rem then kfault
        else
          kseq (kmod (\<lambda>s. set_data bp (splice (buf_data bp s) (unat off mod BSIZE) (take (chunk off rem) src)) s)) (
          kseq (log_write bp) (
          kseq (brelse bp) (
          writei_loop ip (drop (chunk off rem) src) (off + of_nat (chunk off rem)) (rem - chunk off rem))))))))"
  by pat_completeness auto
termination
  using chunk_pos by (relation "measure (\<lambda>(ip, src, off, rem). rem)") (auto simp: diff_less)

declare writei_loop.simps [simp del]

definition writei :: "devtab \<Rightarrow> nat \<Rightarrow> byte list \<Rightarrow> 32 word \<Rightarrow> 32 word \<Rightarrow> int kern" where
  "writei dsw ip src off n =
     kbind (kget (inode_of ip)) (\<lambda>i.
     if i_type i = T_DEV then
       if sint (i_major i) < 0 \<or> sint (i_major i) \<ge> NDEV then kret (- 1)
       else (case dev_write (dsw (sint (i_major i))) of None \<Rightarrow> kret (- 1) | Some f \<Rightarrow> f ip src (sint n))
     else if off > i_size i \<or> off + n < off then kret (- 1)
     else if off + n > of_nat (MAXFILE * BSIZE) then kret (- 1)
     else
       kseq (writei_loop ip src off (unat n)) (
       kbind (kget (\<lambda>s. i_size (inode_of ip s))) (\<lambda>size'.
       kseq (kwhen (n > 0 \<and> off + n > size') (
         kseq (kmod (upd_inode ip (\<lambda>i. i\<lparr>i_size := off + n\<rparr>))) (
         iupdate ip))) (
       kret (sint n)))))"

function changesize_loop :: "nat \<Rightarrow> 32 word \<Rightarrow> nat \<Rightarrow> unit kern" where
  "changesize_loop ip off rem =
     (if rem = 0 then kret ()
      else
        kbind (kget (\<lambda>s. i_dev (inode_of ip s))) (\<lambda>dev.
        kbind (bmap ip (off div of_nat BSIZE)) (\<lambda>a.
        kbind (bread dev a) (\<lambda>bp.
        kseq (kmod (\<lambda>s. set_data bp (splice (buf_data bp s) (unat off mod BSIZE) (replicate (chunk off rem) 0)) s)) (
        kseq (log_write bp) (
        kseq (brelse bp) (
        changesize_loop ip (off + of_nat (chunk off rem)) (rem - chunk off rem))))))))"
  by pat_completeness auto
termination
  using chunk_pos by (relation "measure (\<lambda>(ip, off, rem). rem)") (auto simp: diff_less)

declare changesize_loop.simps [simp del]

definition changesize :: "nat \<Rightarrow> 32 word \<Rightarrow> int kern" where
  "changesize ip size' =
     kbind (kget (inode_of ip)) (\<lambda>i.
     if i_type i \<noteq> T_FILE then kret (- 1)
     else
       kseq (if size' > i_size i then changesize_loop ip (i_size i) (unat (size' - i_size i))
             else changesize_loop ip size' (unat (i_size i - size'))) (
       kseq (kmod (upd_inode ip (\<lambda>i. i\<lparr>i_size := size'\<rparr>))) (
       kseq (iupdate ip) (
       kret (sint size')))))"

subsection \<open>Definitions: directories\<close>

text \<open>\<open>strncmp\<close> and \<open>strncpy\<close> of the C library, on strings that end at a zero byte or at the end of the list.\<close>

fun strncmp :: "nat \<Rightarrow> byte list \<Rightarrow> byte list \<Rightarrow> int" where
  "strncmp 0 s t = 0"
| "strncmp (Suc n) s t =
     (let x = (case s of [] \<Rightarrow> 0 | x # _ \<Rightarrow> x); y = (case t of [] \<Rightarrow> 0 | y # _ \<Rightarrow> y) in
      if x \<noteq> 0 \<and> x = y then strncmp n (tl s) (tl t) else uint x - uint y)"

definition cstr :: "nat \<Rightarrow> byte list \<Rightarrow> byte list" where
  "cstr n s = takeWhile (\<lambda>b. b \<noteq> 0) (take n s)"

definition strncpy :: "nat \<Rightarrow> byte list \<Rightarrow> byte list" where
  "strncpy n s = cstr n s @ replicate (n - length (cstr n s)) 0"

definition namecmp :: "byte list \<Rightarrow> byte list \<Rightarrow> int" where
  "namecmp s t = strncmp DIRSIZ s t"

text \<open>\<open>struct dirent\<close>: the inode number in two bytes, then the name.\<close>

definition de_inum :: "byte list \<Rightarrow> 16 word" where
  "de_inum de = get16 de 0"

definition de_name :: "byte list \<Rightarrow> byte list" where
  "de_name de = take DIRSIZ (drop 2 de)"

definition dirent :: "16 word \<Rightarrow> byte list \<Rightarrow> byte list" where
  "dirent inum name = put16 [0, 0] 0 inum @ strncpy DIRSIZ name"

fun dirlookup_loop :: "devtab \<Rightarrow> nat \<Rightarrow> byte list \<Rightarrow> 32 word list \<Rightarrow> (nat \<times> 32 word) option kern" where
  "dirlookup_loop dsw dp name [] = kret None"
| "dirlookup_loop dsw dp name (off # offs) =
     kbind (readi dsw dp off 16) (\<lambda>(r, de).
     if r \<noteq> 16 then kpanic ''dirlookup read''
     else if de_inum de = 0 then dirlookup_loop dsw dp name offs
     else if namecmp name (de_name de) = 0 then
       kbind (kget (\<lambda>s. i_dev (inode_of dp s))) (\<lambda>dev.
       kbind (iget dev (ucast (de_inum de))) (\<lambda>ip.
       kret (Some (ip, off))))
     else dirlookup_loop dsw dp name offs)"

definition dir_offs :: "32 word \<Rightarrow> 32 word list" where
  "dir_offs size' = map (\<lambda>i. of_nat (16 * i)) [0 ..< (unat size' + 15) div 16]"

definition dirlookup :: "devtab \<Rightarrow> nat \<Rightarrow> byte list \<Rightarrow> (nat \<times> 32 word) option kern" where
  "dirlookup dsw dp name =
     kbind (kget (inode_of dp)) (\<lambda>i.
     if i_type i \<noteq> T_DIR then kpanic ''dirlookup not DIR''
     else dirlookup_loop dsw dp name (dir_offs (i_size i)))"

fun empty_slot :: "devtab \<Rightarrow> nat \<Rightarrow> 32 word \<Rightarrow> 32 word list \<Rightarrow> 32 word kern" where
  "empty_slot dsw dp dflt [] = kret dflt"
| "empty_slot dsw dp dflt (off # offs) =
     kbind (readi dsw dp off 16) (\<lambda>(r, de).
     if r \<noteq> 16 then kpanic ''dirlink read''
     else if de_inum de = 0 then kret off
     else empty_slot dsw dp dflt offs)"

definition dirlink :: "devtab \<Rightarrow> nat \<Rightarrow> byte list \<Rightarrow> 32 word \<Rightarrow> int kern" where
  "dirlink dsw dp name inum =
     kbind (dirlookup dsw dp name) (\<lambda>r.
     case r of
       Some (ip, off) \<Rightarrow> kseq (iput ip) (kret (- 1))
     | None \<Rightarrow>
         kbind (kget (\<lambda>s. i_size (inode_of dp s))) (\<lambda>size'.
         kbind (empty_slot dsw dp (of_nat (16 * ((unat size' + 15) div 16))) (dir_offs size')) (\<lambda>off.
         kbind (writei dsw dp (dirent (ucast inum) name) off 16) (\<lambda>w.
         if w \<noteq> 16 then kpanic ''dirlink'' else kret 0))))"

subsection \<open>Definitions: paths\<close>

abbreviation (input) slash :: byte where "slash \<equiv> 0x2f"

text \<open>\<open>path\<close> is a C string: the list ends where the zero byte is.  \<open>name\<close> is the caller's array of \<open>DIRSIZ\<close> bytes.\<close>

definition skipelem :: "byte list \<Rightarrow> byte list \<Rightarrow> (byte list \<times> byte list) option" where
  "skipelem path name =
     (let p = dropWhile (\<lambda>b. b = slash) path in
      if p = [] then None
      else
        let elem = takeWhile (\<lambda>b. b \<noteq> slash) p;
            rest = dropWhile (\<lambda>b. b \<noteq> slash) p;
            len = length elem;
            name' = (if len \<ge> DIRSIZ then take DIRSIZ elem @ drop DIRSIZ name
                     else elem @ [0] @ drop (len + 1) name) in
        Some (dropWhile (\<lambda>b. b = slash) rest, name'))"

lemma skipelem_shorter: "skipelem path name = Some (path', name') \<Longrightarrow> length path' < length path"
proof -
  assume a: "skipelem path name = Some (path', name')"
  let ?p = "dropWhile (\<lambda>b. b = slash) path"
  have p: "?p \<noteq> []" "path' = dropWhile (\<lambda>b. b = slash) (dropWhile (\<lambda>b. b \<noteq> slash) ?p)"
    using a by (auto simp: skipelem_def Let_def split: if_splits)
  obtain x xs where x: "?p = x # xs" "x \<noteq> slash" using p(1) hd_dropWhile [of "\<lambda>b. b = slash" path] by (cases ?p) auto
  have "length path' \<le> length (dropWhile (\<lambda>b. b \<noteq> slash) ?p)" unfolding p(2) by (rule length_dropWhile_le)
  also have "\<dots> < length ?p" using x length_dropWhile_le [of "\<lambda>b. b \<noteq> slash" xs] by (simp add: less_Suc_eq_le)
  also have "\<dots> \<le> length path" by (rule length_dropWhile_le)
  finally show ?thesis .
qed

function namex_loop :: "devtab \<Rightarrow> bool \<Rightarrow> byte list \<Rightarrow> byte list \<Rightarrow> nat \<Rightarrow> (nat \<times> byte list) option kern" where
  "namex_loop dsw nameiparent path name ip =
     (case skipelem path name of
        None \<Rightarrow> if nameiparent then kseq (iput ip) (kret None) else kret (Some (ip, name))
      | Some (path', name') \<Rightarrow>
          kseq (ilock (Some ip)) (
          kbind (kget (inode_of ip)) (\<lambda>i.
          if i_type i \<noteq> T_DIR then kseq (iunlockput ip) (kret None)
          else if nameiparent \<and> path' = [] then kseq (iunlock (Some ip)) (kret (Some (ip, name')))
          else
            kbind (dirlookup dsw ip name') (\<lambda>r.
            case r of
              None \<Rightarrow> kseq (iunlockput ip) (kret None)
            | Some (nxt, off) \<Rightarrow>
                kseq (iunlockput ip) (
                namex_loop dsw nameiparent path' name' nxt)))))"
  by pat_completeness auto
termination
  by (relation "measure (\<lambda>(dsw, np, path, name, ip). length path)") (auto dest!: skipelem_shorter)

declare namex_loop.simps [simp del]

definition namex :: "devtab \<Rightarrow> byte list \<Rightarrow> bool \<Rightarrow> byte list \<Rightarrow> (nat \<times> byte list) option kern" where
  "namex dsw path nameiparent name =
     kbind (if path \<noteq> [] \<and> hd path = slash then iget ROOTDEV ROOTINO
            else kbind myproc (\<lambda>p. deref p (\<lambda>me. kbind (kget (\<lambda>s. cwd (procs s ! me))) (\<lambda>c. deref c idup)))) (\<lambda>ip.
     namex_loop dsw nameiparent path name ip)"

text \<open>The array \<open>name\<close> of \<open>namei\<close> is uninitialised; only what \<open>skipelem\<close> has put there is ever read.\<close>

definition namei :: "devtab \<Rightarrow> byte list \<Rightarrow> nat option kern" where
  "namei dsw path = kbind (namex dsw path False (replicate DIRSIZ 0)) (\<lambda>r. kret (map_option fst r))"

definition nameiparent :: "devtab \<Rightarrow> byte list \<Rightarrow> byte list \<Rightarrow> (nat \<times> byte list) option kern" where
  "nameiparent dsw path name = namex dsw path True name"

end
