(* ===== verification/Fs_Names.thy ===== *)
theory Fs_Names
  imports Fs
begin

section \<open>Structures on disk, names and paths\<close>

text \<open>
  The byte-level layout of inodes and directory entries reads back what was written and keeps the
  neighbours in the same block; names compare by their first \<open>DIRSIZ\<close> bytes; \<open>skipelem\<close> takes a path
  apart at its slashes.
\<close>

subsection \<open>Shorts in a block\<close>

lemma length_put16 [simp]: "length (put16 d k w) = length d"
  by (simp add: put16_def)

lemma get16_bytes:
  fixes w :: "16 word"
  shows "ucast (ucast w :: 8 word) OR push_bit 8 (ucast (ucast (drop_bit 8 w) :: 8 word)) = w"
proof (rule bit_word_eqI)
  fix n
  assume "n < LENGTH(16)"
  then consider "n < 8" | "8 \<le> n" "n < 16" by fastforce
  then show "bit (ucast (ucast w :: 8 word) OR push_bit 8 (ucast (ucast (drop_bit 8 w) :: 8 word)) :: 16 word) n = bit w n"
    by cases (auto simp: bit_simps)
qed

lemma get16_put16_same [simp]: "k + 1 < length d \<Longrightarrow> get16 (put16 d k w) k = w"
  by (simp add: get16_def put16_def get16_bytes)

lemma nth_put16_other [simp]: "j < k \<or> k + 2 \<le> j \<Longrightarrow> put16 d k w ! j = d ! j"
  by (auto simp: put16_def)

lemma get16_put16_other [simp]: "j + 2 \<le> k \<or> k + 2 \<le> j \<Longrightarrow> get16 (put16 d k w) j = get16 d j"
  by (auto simp: get16_def)

lemma get16_put32_other [simp]: "j + 2 \<le> k \<or> k + 4 \<le> j \<Longrightarrow> get16 (put32 d k w) j = get16 d j"
  by (auto simp: get16_def nth_put32_other)

lemma get32_put16_other [simp]: "j + 4 \<le> k \<or> k + 2 \<le> j \<Longrightarrow> get32 (put16 d k w) j = get32 d j"
  by (auto simp: get32_def)

lemma nth_put32s_other: "j < k \<or> k + 4 * length ws \<le> j \<Longrightarrow> put32s d k ws ! j = d ! j"
  by (induction ws arbitrary: d k) (auto simp: nth_put32_other)

lemma get16_put32s_other [simp]: "j + 2 \<le> k \<or> k + 4 * length ws \<le> j \<Longrightarrow> get16 (put32s d k ws) j = get16 d j"
  by (auto simp: get16_def nth_put32s_other)

lemma get32_put32s_other: "j + 4 \<le> k \<or> k + 4 * length ws \<le> j \<Longrightarrow> get32 (put32s d k ws) j = get32 d j"
  by (auto simp: get32_def nth_put32s_other)

subsection \<open>Inodes on disk\<close>

lemma length_write_dinode [simp]: "length (write_dinode d k ip) = length d"
  by (simp add: write_dinode_def)

lemma read_write_dinode:
  assumes "k + 64 \<le> length d" and "length (i_addrs ip) = NDIRECT + 1"
  shows "read_dinode (write_dinode d k ip) k ip0 = ip0\<lparr>i_type := i_type ip, i_major := i_major ip, i_minor := i_minor ip,
    i_nlink := i_nlink ip, i_size := i_size ip, i_addrs := i_addrs ip\<rparr>"
proof -
  let ?d4 = "put32 (put16 (put16 (put16 (put16 d k (i_type ip)) (k + 2) (i_major ip)) (k + 4) (i_minor ip)) (k + 6) (i_nlink ip)) (k + 8) (i_size ip)"
  have addrs: "map (\<lambda>j. get32 (write_dinode d k ip) (k + 12 + 4 * j)) [0 ..< NDIRECT + 1] = i_addrs ip"
  proof (rule nth_equalityI)
    show "length (map (\<lambda>j. get32 (write_dinode d k ip) (k + 12 + 4 * j)) [0 ..< NDIRECT + 1]) = length (i_addrs ip)"
      using assms(2) by simp
    fix j
    assume "j < length (map (\<lambda>j. get32 (write_dinode d k ip) (k + 12 + 4 * j)) [0 ..< NDIRECT + 1])"
    then have j: "j < 13" by simp
    have "get32 (put32s ?d4 (k + 12) (i_addrs ip)) (k + 12 + 4 * j) = i_addrs ip ! j"
      using j assms by (intro get32_put32s) simp_all
    then show "map (\<lambda>j. get32 (write_dinode d k ip) (k + 12 + 4 * j)) [0 ..< NDIRECT + 1] ! j = i_addrs ip ! j"
      using j by (simp add: write_dinode_def del: upt_Suc)
  qed
  have "get16 (write_dinode d k ip) k = i_type ip" "get16 (write_dinode d k ip) (k + 2) = i_major ip"
    "get16 (write_dinode d k ip) (k + 4) = i_minor ip" "get16 (write_dinode d k ip) (k + 6) = i_nlink ip"
    "get32 (write_dinode d k ip) (k + 8) = i_size ip"
    using assms by (simp_all add: write_dinode_def get32_put32s_other)
  then show ?thesis unfolding read_dinode_def addrs by simp
qed

lemma write_dinode_other:
  assumes "j + 64 \<le> k \<or> k + 64 \<le> j" and "length (i_addrs ip) = NDIRECT + 1"
  shows "read_dinode (write_dinode d k ip) j ip0 = read_dinode d j ip0"
proof -
  have n: "write_dinode d k ip ! m = d ! m" if "m < k \<or> k + 64 \<le> m" for m
    using that assms(2) by (auto simp: write_dinode_def nth_put32s_other nth_put32_other)
  have "get16 (write_dinode d k ip) m = get16 d m" if "j \<le> m" "m + 2 \<le> j + 64" for m
    using that assms(1) by (auto simp: get16_def n)
  moreover have "get32 (write_dinode d k ip) m = get32 d m" if "j \<le> m" "m + 4 \<le> j + 64" for m
    using that assms(1) by (auto simp: get32_def n)
  ultimately show ?thesis by (simp add: read_dinode_def)
qed

subsection \<open>Names\<close>

lemma cstr_simps: "cstr 0 s = []" "cstr (Suc n) [] = []" "cstr (Suc n) (x # s) = (if x = 0 then [] else x # cstr n s)"
  by (simp_all add: cstr_def)

lemma strncmp_zero: "strncmp n s t = 0 \<longleftrightarrow> cstr n s = cstr n t"
proof (induction n arbitrary: s t)
  case (Suc n)
  show ?case using Suc.IH by (cases s; cases t) (auto simp: cstr_simps Let_def word_uint_eq_iff [symmetric] unsigned_eq_0_iff)
qed (simp add: cstr_simps)

lemma length_cstr: "length (cstr n s) \<le> n"
  unfolding cstr_def using length_takeWhile_le [of "\<lambda>b. b \<noteq> 0" "take n s"] by (simp add: le_trans)

lemma cstr_nonzero: "b \<in> set (cstr n s) \<Longrightarrow> b \<noteq> 0"
  unfolding cstr_def by (auto dest: set_takeWhileD)

lemma cstr_all: "\<forall>b \<in> set s. b \<noteq> 0 \<Longrightarrow> cstr n s = take n s"
  unfolding cstr_def by (auto simp: takeWhile_eq_all_conv dest: in_set_takeD)

lemma cstr_end: "\<forall>b \<in> set s. b \<noteq> 0 \<Longrightarrow> length s < n \<Longrightarrow> cstr n (s @ 0 # t) = s"
proof -
  assume s: "\<forall>b \<in> set s. b \<noteq> 0" and n: "length s < n"
  then obtain m where "n - length s = Suc m" by (metis Suc_diff_Suc)
  then show ?thesis using s n by (simp add: cstr_def takeWhile_append2)
qed

lemma cstr_append: "\<forall>b \<in> set s. b \<noteq> 0 \<Longrightarrow> n \<le> length s \<Longrightarrow> cstr n (s @ t) = take n s"
  using cstr_all [of s n] by (simp add: cstr_def)

lemma cstr_strncpy: "cstr n (strncpy n s) = cstr n s" and length_strncpy: "length (strncpy n s) = n"
proof -
  show "length (strncpy n s) = n" using length_cstr [of n s] by (simp add: strncpy_def)
  have nz: "\<forall>b \<in> set (cstr n s). b \<noteq> 0" using cstr_nonzero by blast
  show "cstr n (strncpy n s) = cstr n s"
  proof (cases "length (cstr n s) = n")
    case True
    then show ?thesis using cstr_all [OF nz, of n] by (simp add: strncpy_def)
  next
    case False
    then obtain m where "n - length (cstr n s) = Suc m" using length_cstr [of n s] by (metis Suc_diff_Suc le_neq_implies_less)
    then show ?thesis using cstr_end [OF nz, of n "replicate m 0"] False length_cstr [of n s] by (simp add: strncpy_def)
  qed
qed

lemma dirent_read: "de_inum (dirent inum name) = inum" "cstr DIRSIZ (de_name (dirent inum name)) = cstr DIRSIZ name"
  "length (dirent inum name) = 16"
proof -
  have l: "length (put16 [0, 0] 0 inum) = 2" by simp
  have "get16 (put16 [0, 0] 0 inum @ x) 0 = get16 (put16 [0, 0] 0 inum) 0" for x
    using l by (simp add: get16_def nth_append)
  then show "de_inum (dirent inum name) = inum" by (simp add: de_inum_def dirent_def)
  show "cstr DIRSIZ (de_name (dirent inum name)) = cstr DIRSIZ name" "length (dirent inum name) = 16"
    using l by (simp_all add: de_name_def dirent_def cstr_strncpy length_strncpy)
qed

subsection \<open>Paths\<close>

text \<open>The reference: the non-empty parts of a path between slashes.\<close>

fun parts :: "byte list \<Rightarrow> byte list \<times> byte list list" where
  "parts [] = ([], [])"
| "parts (b # bs) = (case parts bs of (w, ws) \<Rightarrow>
     if b = slash then ([], if w = [] then ws else w # ws) else (b # w, ws))"

definition elements :: "byte list \<Rightarrow> byte list list" where
  "elements path = (case parts path of (w, ws) \<Rightarrow> if w = [] then ws else w # ws)"

lemma elements_Nil [simp]: "elements [] = []"
  by (simp add: elements_def)

lemma elements_slash: "elements (slash # bs) = elements bs"
  by (simp add: elements_def split: prod.split)

lemma elements_skip: "elements (dropWhile (\<lambda>b. b = slash) path) = elements path"
  by (induction path) (simp_all add: elements_slash)

lemma parts_word: "parts bs = (takeWhile (\<lambda>b. b \<noteq> slash) bs, elements (dropWhile (\<lambda>b. b \<noteq> slash) bs))"
proof (induction bs)
  case (Cons b bs)
  then show ?case by (cases "b = slash") (simp_all add: elements_def split: prod.split)
qed simp

lemma elements_word:
  assumes "p \<noteq> []" and "hd p \<noteq> slash"
  shows "elements p = takeWhile (\<lambda>b. b \<noteq> slash) p # elements (dropWhile (\<lambda>b. b \<noteq> slash) p)"
  unfolding elements_def [of p] parts_word using assms by (cases p) simp_all

lemma elements_empty: "elements p = [] \<longleftrightarrow> dropWhile (\<lambda>b. b = slash) p = []"
proof
  assume e: "elements p = []"
  show "dropWhile (\<lambda>b. b = slash) p = []"
  proof (rule ccontr)
    assume "dropWhile (\<lambda>b. b = slash) p \<noteq> []"
    then show False using e elements_skip [of p] elements_word hd_dropWhile [of "\<lambda>b. b = slash" p] by auto
  qed
next
  assume "dropWhile (\<lambda>b. b = slash) p = []"
  then show "elements p = []" using elements_skip [of p] by (simp only: elements_Nil)
qed

lemma name_field:
  assumes e: "\<forall>b \<in> set e. b \<noteq> 0" and n: "length name = n"
  shows "length (if n \<le> length e then take n e @ drop n name else e @ [0] @ drop (length e + 1) name) = n
    \<and> cstr n (if n \<le> length e then take n e @ drop n name else e @ [0] @ drop (length e + 1) name) = take n e"
proof (cases "n \<le> length e")
  case True
  have "\<forall>b \<in> set (take n e). b \<noteq> 0" using e in_set_takeD by fast
  then show ?thesis using True n cstr_all [of "take n e" n] by simp
next
  case False
  then show ?thesis using n cstr_end [OF e, of n "drop (length e + 1) name"] by simp
qed

subsection \<open>Properties\<close>

text \<open>
  C35. Names on disk: \<open>namecmp\<close> is equality of the first \<open>DIRSIZ\<close> bytes up to a zero; a directory entry
  made of a name and an inode number is 16 bytes that give back both; and an inode written to its
  64 bytes of a block reads back with all its fields while every other inode of the block is kept.
\<close>

theorem disk_format_roundtrip:
  assumes "k mod 64 = 0" and "k + 64 \<le> length d" and "length (i_addrs ip) = NDIRECT + 1" and "j mod 64 = 0" and "j \<noteq> k"
  shows "read_dinode (write_dinode d k ip) k ip0 = ip0\<lparr>i_type := i_type ip, i_major := i_major ip, i_minor := i_minor ip,
      i_nlink := i_nlink ip, i_size := i_size ip, i_addrs := i_addrs ip\<rparr>
    \<and> read_dinode (write_dinode d k ip) j ip0 = read_dinode d j ip0
    \<and> (namecmp s t = 0 \<longleftrightarrow> cstr DIRSIZ s = cstr DIRSIZ t)
    \<and> de_inum (dirent inum s) = inum \<and> namecmp s (de_name (dirent inum s)) = 0 \<and> length (dirent inum s) = 16"
proof -
  have "j + 64 \<le> k \<or> k + 64 \<le> j" using assms(1,4,5) by presburger
  then show ?thesis
    using read_write_dinode [OF assms(2,3)] write_dinode_other [OF _ assms(3)] dirent_read
    by (simp add: namecmp_def strncmp_zero)
qed

theorem disk_format_roundtrip_witness:
  "read_dinode (write_dinode (replicate BSIZE 0) 64 (zero_inode\<lparr>i_size := 300\<rparr>)) 64 zero_inode = zero_inode\<lparr>i_size := 300\<rparr>"
  using disk_format_roundtrip [of 64 "replicate BSIZE 0" "zero_inode\<lparr>i_size := 300\<rparr>" 0 zero_inode "[]" "[]" 0]
  by (simp add: zero_inode_def)

text \<open>
  C36. Paths: \<open>skipelem\<close> returns nothing exactly when the path has no element left; otherwise it puts
  the first element, cut to \<open>DIRSIZ\<close> bytes, into the name and returns a path of the remaining elements
  that is empty exactly when this was the last one, which is what \<open>namex\<close> tests.
\<close>

theorem skipelem_spec:
  assumes "length name = DIRSIZ" and "0 \<notin> set path"
  shows "case elements path of
      [] \<Rightarrow> skipelem path name = None
    | e # es \<Rightarrow> (\<exists>path' name'. skipelem path name = Some (path', name') \<and> elements path' = es \<and> (path' = [] \<longleftrightarrow> es = [])
        \<and> length name' = DIRSIZ \<and> cstr DIRSIZ name' = take DIRSIZ e)"
proof (cases "dropWhile (\<lambda>b. b = slash) path = []")
  case True
  then show ?thesis using elements_empty [of path] by (simp add: skipelem_def)
next
  case False
  let ?p = "dropWhile (\<lambda>b. b = slash) path"
  let ?e = "takeWhile (\<lambda>b. b \<noteq> slash) ?p" and ?r = "dropWhile (\<lambda>b. b \<noteq> slash) ?p"
  define name' where "name' = (if DIRSIZ \<le> length ?e then take DIRSIZ ?e @ drop DIRSIZ name else ?e @ [0] @ drop (length ?e + 1) name)"
  define path' where "path' = dropWhile (\<lambda>b. b = slash) ?r"
  have el: "elements path = ?e # elements ?r"
    using elements_word [OF False] hd_dropWhile [OF False] elements_skip [of path] by simp
  have sk: "skipelem path name = Some (path', name')"
    unfolding skipelem_def Let_def path'_def name'_def by (simp only: False if_False)
  have nz: "\<forall>b \<in> set ?e. b \<noteq> 0" using assms(2) by (auto dest!: set_takeWhileD set_dropWhileD)
  have p: "elements path' = elements ?r" "(path' = []) = (elements ?r = [])"
    unfolding path'_def by (rule elements_skip, simp only: elements_empty)
  have n: "length name' = DIRSIZ \<and> cstr DIRSIZ name' = take DIRSIZ ?e"
    unfolding name'_def by (rule name_field [OF nz assms(1)])
  show ?thesis
    unfolding el list.case by (intro exI [of _ path'] exI [of _ name'] conjI sk p n [THEN conjunct1] n [THEN conjunct2])
qed

theorem skipelem_spec_witness:
  "\<exists>path' name'. skipelem [47, 97, 47, 47, 98] (replicate DIRSIZ 0) = Some (path', name') \<and> elements path' = [[98]]
    \<and> (path' = [] \<longleftrightarrow> [[98 :: byte]] = []) \<and> length name' = DIRSIZ \<and> cstr DIRSIZ name' = take DIRSIZ [97]"
  using skipelem_spec [of "replicate DIRSIZ 0" "[47, 97, 47, 47, 98]"] by (simp add: elements_def)

end
