(* ===== verification/Grep.thy ===== *)
theory Grep
  imports Prelude
begin

section \<open>grep (grep.c)\<close>

text \<open>
  The regular-expression matcher and the loop that splits the input into lines.  A C string is the
  list of its characters before the terminating zero byte.  \<open>matchhere\<close> and \<open>matchstar\<close> call each
  other; \<open>match\<close> and \<open>matchstar\<close> are do-while loops over the text.

  \<open>grep\<close> reads into a buffer of 1024 bytes.  What the successive \<open>read\<close> calls return is the argument
  \<open>reads\<close>; the list ends where \<open>read\<close> returns 0 or an error.  \<open>None\<close> marks a \<open>read\<close> that returns more
  than it was asked for.
\<close>

function matchhere :: "string \<Rightarrow> string \<Rightarrow> bool" and matchstar :: "char \<Rightarrow> string \<Rightarrow> string \<Rightarrow> bool" where
  "matchhere re text =
     (if re = [] then True
      else if tl re \<noteq> [] \<and> hd (tl re) = CHR ''*'' then matchstar (hd re) (tl (tl re)) text
      else if hd re = CHR ''$'' \<and> tl re = [] then text = []
      else if text \<noteq> [] \<and> (hd re = CHR ''.'' \<or> hd re = hd text) then matchhere (tl re) (tl text)
      else False)"
| "matchstar c re text =
     (if matchhere re text then True
      else if text \<noteq> [] \<and> (hd text = c \<or> c = CHR ''.'') then matchstar c re (tl text)
      else False)"
  by pat_completeness auto
termination
proof (relation "measure (\<lambda>x. case x of Inl (re, text) \<Rightarrow> 2 * length re + length text
    | Inr (c, re, text) \<Rightarrow> Suc (2 * length re + length text))", goal_cases)
  case (2 re t)
  then show ?case by (cases re; cases "tl re") auto
next
  case (3 re t)
  then show ?case by (cases re; cases t) auto
next
  case (5 c re t)
  then show ?case by (cases t) auto
qed simp_all

declare matchhere.simps [simp del] matchstar.simps [simp del]

fun match_loop :: "string \<Rightarrow> string \<Rightarrow> bool" where
  "match_loop re [] = matchhere re []"
| "match_loop re (t # text) = (if matchhere re (t # text) then True else match_loop re text)"

definition match :: "string \<Rightarrow> string \<Rightarrow> bool" where
  "match re text = (if re \<noteq> [] \<and> hd re = CHR ''^'' then matchhere (tl re) text else match_loop re text)"

text \<open>\<open>strchr(p, c)\<close>: the offset of the first \<open>c\<close> of the string, which ends at the first zero byte.\<close>

fun strchr :: "string \<Rightarrow> char \<Rightarrow> nat option" where
  "strchr [] c = None"
| "strchr (x # s) c = (if x = c then Some 0 else if x = CHR 0x00 then None else map_option Suc (strchr s c))"

lemma strchr_less: "strchr s c = Some q \<Longrightarrow> q < length s"
  by (induction s arbitrary: q) (auto split: if_splits)

text \<open>The inner loop: from \<open>p\<close> on, handle every line that has its newline in the buffer.\<close>

function grep_lines :: "string \<Rightarrow> string \<Rightarrow> string \<times> string" where
  "grep_lines pattern p =
     (case strchr p (CHR ''\<newline>'') of
        None \<Rightarrow> ([], p)
      | Some q \<Rightarrow>
          let (out, rest) = grep_lines pattern (drop (Suc q) p) in
          ((if match pattern (take q p) then take (Suc q) p else []) @ out, rest))"
  by pat_completeness auto
termination
  by (relation "measure (\<lambda>(pattern, p). length p)") (auto dest: strchr_less)

declare grep_lines.simps [simp del]

fun grep_loop :: "string \<Rightarrow> string list \<Rightarrow> string \<Rightarrow> string option" where
  "grep_loop pattern [] buf = Some []"
| "grep_loop pattern (chunk # reads) buf =
     (if length chunk > 1024 - length buf - 1 then None
      else if chunk = [] then Some []
      else
        let (out, p) = grep_lines pattern (buf @ chunk);
            buf' = (if length p = length (buf @ chunk) then [] else p) in
        map_option ((@) out) (grep_loop pattern reads buf'))"

definition grep :: "string \<Rightarrow> string list \<Rightarrow> string option" where
  "grep pattern reads = grep_loop pattern reads []"

subsection \<open>The language of a pattern\<close>

datatype ritem = One char | Star char

fun items :: "string \<Rightarrow> ritem list \<times> bool" where
  "items [] = ([], False)"
| "items [c] = (if c = CHR ''$'' then ([], True) else ([One c], False))"
| "items (c # d # re) =
     (if d = CHR ''*'' then (let (is, e) = items re in (Star c # is, e))
      else (let (is, e) = items (d # re) in (One c # is, e)))"

definition accepts :: "char \<Rightarrow> char \<Rightarrow> bool" where
  "accepts c x \<longleftrightarrow> c = CHR ''.'' \<or> c = x"

fun lang :: "ritem list \<Rightarrow> string set" where
  "lang [] = {[]}"
| "lang (One c # is) = {x # w | x w. accepts c x \<and> w \<in> lang is}"
| "lang (Star c # is) = {xs @ w | xs w. list_all (accepts c) xs \<and> w \<in> lang is}"

text \<open>\<open>text\<close> starts with a word of the pattern, or is one if the pattern ends in \<open>$\<close>.\<close>

definition here_lang :: "string \<Rightarrow> string \<Rightarrow> bool" where
  "here_lang re t \<longleftrightarrow> (\<exists>u v. t = u @ v \<and> u \<in> lang (fst (items re)) \<and> (snd (items re) \<longrightarrow> v = []))"

lemma here_lang_Nil: "here_lang [] t"
  by (simp add: here_lang_def)

lemma here_lang_End: "here_lang ''$'' t \<longleftrightarrow> t = []"
  by (simp add: here_lang_def)

lemma split_cons:
  "(\<exists>u v. t = u @ v \<and> (\<exists>x w. u = x # w \<and> A x \<and> L w) \<and> R v)
    \<longleftrightarrow> t \<noteq> [] \<and> A (hd t) \<and> (\<exists>u v. tl t = u @ v \<and> L u \<and> R v)"
proof
  assume "t \<noteq> [] \<and> A (hd t) \<and> (\<exists>u v. tl t = u @ v \<and> L u \<and> R v)"
  then obtain u v where "t \<noteq> []" "A (hd t)" "tl t = u @ v" "L u" "R v" by blast
  then have "t = (hd t # u) @ v" by (metis append_Cons list.collapse)
  with \<open>A (hd t)\<close> \<open>L u\<close> \<open>R v\<close> show "\<exists>u v. t = u @ v \<and> (\<exists>x w. u = x # w \<and> A x \<and> L w) \<and> R v"
    by blast
next
  assume "\<exists>u v. t = u @ v \<and> (\<exists>x w. u = x # w \<and> A x \<and> L w) \<and> R v"
  then obtain x w v where "t = x # (w @ v)" "A x" "L w" "R v" by force
  then show "t \<noteq> [] \<and> A (hd t) \<and> (\<exists>u v. tl t = u @ v \<and> L u \<and> R v)" by (metis list.sel(1,3) list.discI)
qed

lemma split_append:
  "(\<exists>u v. t = u @ v \<and> (\<exists>xs w. u = xs @ w \<and> A xs \<and> L w) \<and> R v)
    \<longleftrightarrow> (\<exists>xs w. t = xs @ w \<and> A xs \<and> (\<exists>u v. w = u @ v \<and> L u \<and> R v))"
  (is "?l \<longleftrightarrow> ?r")
proof
  assume ?l
  then obtain v xs w where "t = xs @ (w @ v)" "A xs" "L w" "R v" by force
  then show ?r by blast
next
  assume ?r
  then obtain v xs w where "t = (xs @ w) @ v" "A xs" "L w" "R v" by force
  then show ?l by blast
qed

lemma here_lang_One:
  assumes "re = [] \<or> hd re \<noteq> CHR ''*''" and "\<not> (c = CHR ''$'' \<and> re = [])"
  shows "here_lang (c # re) t \<longleftrightarrow> t \<noteq> [] \<and> accepts c (hd t) \<and> here_lang re (tl t)"
proof -
  have i: "fst (items (c # re)) = One c # fst (items re)" "snd (items (c # re)) = snd (items re)"
    using assms by (cases re; simp add: case_prod_unfold Let_def)+
  show ?thesis unfolding here_lang_def i lang.simps mem_Collect_eq by (rule split_cons)
qed

lemma here_lang_Star:
  "here_lang (c # CHR ''*'' # re) t \<longleftrightarrow> (\<exists>xs w. t = xs @ w \<and> list_all (accepts c) xs \<and> here_lang re w)"
proof -
  have i: "fst (items (c # CHR ''*'' # re)) = Star c # fst (items re)"
    "snd (items (c # CHR ''*'' # re)) = snd (items re)"
    by (simp_all add: case_prod_unfold Let_def)
  show ?thesis unfolding here_lang_def i lang.simps mem_Collect_eq by (rule split_append)
qed

lemma here_lang_Star_unfold:
  "(\<exists>xs w. t = xs @ w \<and> list_all (accepts c) xs \<and> P w) \<longleftrightarrow>
     P t \<or> (t \<noteq> [] \<and> accepts c (hd t) \<and> (\<exists>xs w. tl t = xs @ w \<and> list_all (accepts c) xs \<and> P w))"
proof (cases t)
  case (Cons x t')
  show ?thesis unfolding Cons
  proof
    assume "\<exists>xs w. x # t' = xs @ w \<and> list_all (accepts c) xs \<and> P w"
    then obtain xs w where "x # t' = xs @ w" "list_all (accepts c) xs" "P w" by blast
    then show "P (x # t') \<or> x # t' \<noteq> [] \<and> accepts c (hd (x # t')) \<and>
        (\<exists>xs w. tl (x # t') = xs @ w \<and> list_all (accepts c) xs \<and> P w)"
      by (cases xs) auto
  next
    assume "P (x # t') \<or> x # t' \<noteq> [] \<and> accepts c (hd (x # t')) \<and>
        (\<exists>xs w. tl (x # t') = xs @ w \<and> list_all (accepts c) xs \<and> P w)"
    then show "\<exists>xs w. x # t' = xs @ w \<and> list_all (accepts c) xs \<and> P w"
    proof (elim disjE conjE exE)
      assume "P (x # t')"
      then show ?thesis by (intro exI [of _ "[]"] exI [of _ "x # t'"]) simp
    next
      fix xs w
      assume "accepts c (hd (x # t'))" "tl (x # t') = xs @ w" "list_all (accepts c) xs" "P w"
      then show ?thesis by (intro exI [of _ "x # xs"] exI [of _ w]) simp
    qed
  qed
qed auto

lemma matchhere_lang:
  "matchhere re t = here_lang re t"
  "matchstar c re' t' = (\<exists>xs w. t' = xs @ w \<and> list_all (accepts c) xs \<and> here_lang re' w)"
proof (induction re t and c re' t' rule: matchhere_matchstar.induct)
  case (1 re t)
  consider "re = []" | c re' where "re = c # CHR ''*'' # re'" | "re = ''$''"
    | c re' where "re = c # re'" "re' = [] \<or> hd re' \<noteq> CHR ''*''" "\<not> (c = CHR ''$'' \<and> re' = [])"
    by (metis list.collapse)
  then show ?case
  proof cases
    case 2
    then have "matchhere re t = matchstar c re' t" by (subst matchhere.simps) simp
    then show ?thesis using 1(1) 2 by (simp add: here_lang_Star)
  next
    case 4
    then have "matchhere re t = (t \<noteq> [] \<and> accepts c (hd t) \<and> matchhere re' (tl t))"
      by (subst matchhere.simps) (auto simp: accepts_def)
    moreover have "matchhere re' (tl t) = here_lang re' (tl t)" if "t \<noteq> []" "accepts c (hd t)"
      using 1(2) 4 that by (auto simp: accepts_def)
    ultimately show ?thesis using 4 here_lang_One by blast
  qed (simp_all add: matchhere.simps [of "[]"] matchhere.simps [of "''$''"] here_lang_Nil here_lang_End)
next
  case (2 c re t)
  have a: "accepts c (hd t) \<longleftrightarrow> hd t = c \<or> c = CHR ''.''" by (auto simp: accepts_def)
  show ?case
    by (subst here_lang_Star_unfold, subst matchstar.simps) (use 2 in \<open>simp add: a\<close>)
qed

lemma match_loop_lang: "match_loop re t \<longleftrightarrow> (\<exists>p w. t = p @ w \<and> here_lang re w)"
proof (induction t)
  case (Cons x t)
  then show ?case by (auto simp: matchhere_lang Cons_eq_append_conv)
qed (simp add: matchhere_lang)

subsection \<open>Splitting into lines\<close>

text \<open>The reference: the complete lines of a text, each with its newline, and what is left.\<close>

fun split_lines :: "string \<Rightarrow> string list \<times> string" where
  "split_lines [] = ([], [])"
| "split_lines (x # s) =
     (let (ls, r) = split_lines s in
      if x = CHR ''\<newline>'' then ([x] # ls, r)
      else case ls of [] \<Rightarrow> ([], x # r) | l # ls' \<Rightarrow> ((x # l) # ls', r))"

definition matching_lines :: "string \<Rightarrow> string \<Rightarrow> string" where
  "matching_lines pattern s = concat (filter (\<lambda>l. match pattern (butlast l)) (fst (split_lines s)))"

lemma strchr_split:
  assumes "CHR 0x00 \<notin> set p"
  shows "split_lines p = (case strchr p (CHR ''\<newline>'') of
      None \<Rightarrow> ([], p)
    | Some q \<Rightarrow> (take (Suc q) p # fst (split_lines (drop (Suc q) p)), snd (split_lines (drop (Suc q) p))))"
  using assms
  by (induction p) (auto simp: Let_def split: prod.splits option.splits list.splits)

lemma grep_lines_split:
  assumes "CHR 0x00 \<notin> set p"
  shows "grep_lines pattern p = (matching_lines pattern p, snd (split_lines p))"
  using assms
proof (induction pattern p rule: grep_lines.induct)
  case (1 pattern p)
  show ?case
  proof (cases "strchr p (CHR ''\<newline>'')")
    case None
    then show ?thesis by (simp add: grep_lines.simps [of pattern p] matching_lines_def strchr_split [OF 1(2)])
  next
    case (Some q)
    have "CHR 0x00 \<notin> set (drop (Suc q) p)" using 1(2) by (meson in_set_dropD)
    moreover have "butlast (take (Suc q) p) = take q p"
      using strchr_less [OF Some] by (simp add: butlast_take)
    ultimately show ?thesis using 1(1) [OF Some] Some
      by (simp add: grep_lines.simps [of pattern p] matching_lines_def strchr_split [OF 1(2)])
  qed
qed

lemma split_lines_append:
  "split_lines (a @ b) = (fst (split_lines a) @ fst (split_lines (snd (split_lines a) @ b)),
     snd (split_lines (snd (split_lines a) @ b)))"
  by (induction a) (auto simp: Let_def split: prod.splits list.splits)

lemma split_lines_rest: "CHR ''\<newline>'' \<notin> set (snd (split_lines s))" "set (snd (split_lines s)) \<subseteq> set s"
  by (induction s) (auto simp: Let_def split: prod.splits list.splits)

lemma split_lines_shorter:
  "CHR ''\<newline>'' \<in> set s \<Longrightarrow> length (snd (split_lines s)) < length s"
  "length (snd (split_lines s)) \<le> length s"
  by (induction s) (auto simp: Let_def split: prod.splits list.splits)

text \<open>
  The reads \<open>grep\<close> can cope with: each brings something, at most as much as was asked for, and after
  each the buffer holds at least one newline.
\<close>

fun reads_ok :: "string \<Rightarrow> string list \<Rightarrow> bool" where
  "reads_ok buf [] = True"
| "reads_ok buf (chunk # reads) =
     (chunk \<noteq> [] \<and> length chunk \<le> 1024 - length buf - 1 \<and> CHR 0x00 \<notin> set chunk
      \<and> CHR ''\<newline>'' \<in> set (buf @ chunk) \<and> reads_ok (snd (split_lines (buf @ chunk))) reads)"

lemma grep_loop_lines:
  assumes "reads_ok buf reads" and "CHR 0x00 \<notin> set buf" and "CHR ''\<newline>'' \<notin> set buf"
  shows "grep_loop pattern reads buf = Some (matching_lines pattern (buf @ concat reads))"
  using assms
proof (induction reads arbitrary: buf)
  case Nil
  then have "strchr buf (CHR ''\<newline>'') = None" by (induction buf) auto
  then show ?case using strchr_split [OF Nil(2)] by (simp add: matching_lines_def)
next
  case (Cons chunk reads)
  let ?b = "buf @ chunk"
  have z: "CHR 0x00 \<notin> set ?b" using Cons.prems by simp
  have "length (snd (split_lines ?b)) \<noteq> length ?b" using split_lines_shorter(1) [of ?b] Cons.prems(1) by auto
  then have "grep_loop pattern (chunk # reads) buf
      = map_option ((@) (matching_lines pattern ?b)) (grep_loop pattern reads (snd (split_lines ?b)))"
    using Cons.prems(1) by (simp add: grep_lines_split [OF z])
  also have "\<dots> = Some (matching_lines pattern ?b @ matching_lines pattern (snd (split_lines ?b) @ concat reads))"
    using Cons.IH [of "snd (split_lines ?b)"] Cons.prems(1) z split_lines_rest [of ?b] by auto
  also have "\<dots> = Some (matching_lines pattern (?b @ concat reads))"
    by (simp only: matching_lines_def split_lines_append [of ?b "concat reads"] fst_conv filter_append concat_append)
  finally show ?case by simp
qed

subsection \<open>Properties\<close>

text \<open>
  C10. \<open>match\<close> decides the language of the pattern: a text matches when some part of it is a word of
  the pattern, at the start of the text if the pattern begins with \<open>^\<close>, at its end if it ends in \<open>$\<close>.
\<close>

theorem match_language:
  "match re t \<longleftrightarrow>
     (let anchored = (re \<noteq> [] \<and> hd re = CHR ''^'');
          (is, at_end) = items (if anchored then tl re else re) in
      \<exists>p u v. t = p @ u @ v \<and> u \<in> lang is \<and> (anchored \<longrightarrow> p = []) \<and> (at_end \<longrightarrow> v = []))"
proof -
  have "match_loop re t \<longleftrightarrow> (\<exists>p u v. t = p @ u @ v \<and> u \<in> lang (fst (items re)) \<and> (snd (items re) \<longrightarrow> v = []))"
    unfolding match_loop_lang here_lang_def by blast
  then show ?thesis
    by (simp add: match_def matchhere_lang here_lang_def Let_def case_prod_unfold)
qed

theorem match_language_witness:
  "match ''^a*b$'' ''aab'' \<and> \<not> match ''^a*b$'' ''aabc''"
  using match_language [of "''^a*b$''" "''aab''"]
  by (simp add: match_def matchhere.simps matchstar.simps)



text \<open>
  Otherwise \<open>grep\<close> loses text: after a read that leaves no newline in the buffer it forgets the
  beginning of the line, so a matching line that arrives in two pieces is not printed.
\<close>

theorem grep_forgets_line_start:
  "grep ''abc'' [''ab'', ''c\<newline>''] = Some []
    \<and> matching_lines ''abc'' (concat [''ab'', ''c\<newline>'']) = ''abc\<newline>''"
  by (simp add: grep_def grep_lines.simps matching_lines_def match_def matchhere.simps matchstar.simps Let_def)

end
