(* ===== verification/Semaphore.thy ===== *)
theory Semaphore
  imports Cons_Out "HOL-Library.Multiset"
begin

section \<open>Counting semaphores with priorities (proc.c)\<close>

text \<open>
  Semaphore \<open>n\<close> is entry \<open>n\<close> of \<open>sems\<close>, its spin lock is \<open>SemLk n\<close> and its sleep channel \<open>ChSem n\<close>.
  \<open>semaphore_acquire\<close> queues the caller, sorts the queue by falling priority, numbers the waiting
  processes and prints the process table before it sleeps.  A null entry of the queue that the code
  follows is a fault.  \<open>printspaces\<close> and \<open>digitcount\<close> of the missing utils.c are the parameter \<open>ut\<close>.
\<close>

record utils =
  printspaces :: "int \<Rightarrow> unit kern"
  digitcount :: "int \<Rightarrow> int"

subsection \<open>Definitions\<close>

fun state_word :: "procstate \<Rightarrow> string" where
  "state_word UNUSED = ''unused''"
| "state_word EMBRYO = ''embryo''"
| "state_word SLEEPING = ''sleeping''"
| "state_word RUNNABLE = ''runnable''"
| "state_word RUNNING = ''running''"
| "state_word ZOMBIE = ''zombie''"

definition print_process_info :: "utils \<Rightarrow> unit kern" where
  "print_process_info ut =
     kseq (cprintf (Some (''Process_Name    PID     State    Prio   Place'' @ newline
       @ ''------------------------------------------------------'' @ newline)) []) (
     kfor [0 ..< NPROC] (\<lambda>i.
       kbind (kget (\<lambda>s. procs s ! i)) (\<lambda>p.
       kwhen (pstate p \<noteq> UNUSED) (
         kseq (cprintf (Some ''%s'') [CStr (Some (pname p))]) (
         kseq (printspaces ut (16 - int (length (pname p)))) (
         kseq (cprintf (Some ''%d'') [CInt (word_of_int (pid p))]) (
         kseq (printspaces ut (8 - digitcount ut (pid p))) (
         kseq (cprintf (Some ''%s'') [CStr (Some (state_word (pstate p)))]) (
         kseq (printspaces ut (9 - int (length (state_word (pstate p))))) (
         kseq (cprintf (Some ''%d'') [CInt (word_of_int (priority (schedule_status p)))]) (
         kseq (printspaces ut (8 - digitcount ut (priority (schedule_status p)))) (
         kseq (cprintf (Some ''%d'') [CInt (word_of_int (place (schedule_status p)))]) (
         kseq (printspaces ut (8 - digitcount ut (place (schedule_status p)))) (
         cprintf (Some newline) []))))))))))))))"

definition upd_sem :: "nat \<Rightarrow> (semaphore \<Rightarrow> semaphore) \<Rightarrow> kworld \<Rightarrow> kworld" where
  "upd_sem n f s = s\<lparr>sems := upd n f (sems s)\<rparr>"

definition semaphore_init :: "nat \<Rightarrow> int \<Rightarrow> string \<Rightarrow> unit kern" where
  "semaphore_init n v name =
     kseq (kmod (upd_sem n (\<lambda>m. m\<lparr>sem_value := v\<rparr>))) (
     kseq (initlock (SemLk n) ''semaphore'') (
     kseq (kmod (upd_sem n (\<lambda>m. m\<lparr>waiting := replicate NPROC None\<rparr>))) (
     kseq (kmod (upd_sem n (\<lambda>m. m\<lparr>wfirst := 0\<rparr>))) (
     kseq (kmod (upd_sem n (\<lambda>m. m\<lparr>wlast := 0\<rparr>))) (
     kmod (upd_sem n (\<lambda>m. m\<lparr>sem_name := name\<rparr>)))))))"

text \<open>One comparison of the sorting loops.\<close>

definition sem_order :: "nat \<Rightarrow> nat \<Rightarrow> nat \<Rightarrow> unit kern" where
  "sem_order n i j =
     kbind (kget (\<lambda>s. waiting (sems s ! n))) (\<lambda>w.
     deref (w ! i) (\<lambda>p.
     deref (w ! j) (\<lambda>q.
     kbind (kget (\<lambda>s. priority (schedule_status (procs s ! p)) < priority (schedule_status (procs s ! q)))) (\<lambda>less.
     kwhen less (kmod (upd_sem n (\<lambda>m. m\<lparr>waiting := (waiting m)[i := w ! j, j := w ! i]\<rparr>)))))))"

definition sem_sort :: "nat \<Rightarrow> unit kern" where
  "sem_sort n =
     kbind (kget (\<lambda>s. sems s ! n)) (\<lambda>m.
     kfor [wfirst m ..< wlast m - 1] (\<lambda>i.
       kfor [i + 1 ..< wlast m] (\<lambda>j. sem_order n i j)))"

definition sem_places :: "nat \<Rightarrow> unit kern" where
  "sem_places n =
     kbind (kget (\<lambda>s. sems s ! n)) (\<lambda>m.
     kfor [0 ..< wlast m] (\<lambda>i.
       kseq (acquire PtableLock) (
       kbind (kget (\<lambda>s. waiting (sems s ! n) ! i)) (\<lambda>w.
       kseq (deref w (\<lambda>p. kmod (upd_proc p (upd_sched (\<lambda>c. c\<lparr>place := int i\<rparr>))))) (
       release PtableLock)))))"

definition semaphore_acquire :: "utils \<Rightarrow> nat \<Rightarrow> int \<Rightarrow> unit kern" where
  "semaphore_acquire ut n prio =
     kseq (acquire (SemLk n)) (
     kseq (kmod (upd_sem n (\<lambda>m. m\<lparr>sem_value := sem_value m - 1\<rparr>))) (
     kbind (kget (\<lambda>s. sem_value (sems s ! n))) (\<lambda>v.
     kseq (kwhen (v < 0) (
       kbind myproc (\<lambda>p.
       kseq (kmod (upd_sem n (\<lambda>m. m\<lparr>waiting := (waiting m)[wlast m := p]\<rparr>))) (
       kseq (kmod (upd_sem n (\<lambda>m. m\<lparr>wlast := (wlast m + 1) mod NPROC\<rparr>))) (
       kseq (sem_sort n) (
       kseq (sem_places n) (
       kseq (acquire PtableLock) (
       kseq (print_process_info ut) (
       kseq (release PtableLock) (
       sleep (Some (ChSem n)) (Some (SemLk n)))))))))))) (
     release (SemLk n)))))"

definition semaphore_release :: "nat \<Rightarrow> unit kern" where
  "semaphore_release n =
     kseq (acquire (SemLk n)) (
     kseq (kmod (upd_sem n (\<lambda>m. m\<lparr>sem_value := sem_value m + 1\<rparr>))) (
     kbind (kget (\<lambda>s. sem_value (sems s ! n))) (\<lambda>v.
     kseq (kwhen (v \<le> 0) (
       kbind (kget (\<lambda>s. waiting (sems s ! n) ! wfirst (sems s ! n))) (\<lambda>p.
       kseq (wakeupproc p) (
       kseq (kmod (upd_sem n (\<lambda>m. m\<lparr>waiting := (waiting m)[wfirst m := None]\<rparr>))) (
       kmod (upd_sem n (\<lambda>m. m\<lparr>wfirst := (wfirst m + 1) mod NPROC\<rparr>))))))) (
     release (SemLk n)))))"

definition sem_init :: "nat \<Rightarrow> int \<Rightarrow> unit kern" where
  "sem_init n v = (if NSEMS \<le> n then kfault else semaphore_init n v ''semaphore'')"

definition sem_acquire :: "utils \<Rightarrow> nat \<Rightarrow> int \<Rightarrow> unit kern" where
  "sem_acquire ut n prio = (if NSEMS \<le> n then kfault else semaphore_acquire ut n prio)"

definition sem_release :: "nat \<Rightarrow> unit kern" where
  "sem_release n = (if NSEMS \<le> n then kfault else semaphore_release n)"

subsection \<open>The sorting loops as a function on lists\<close>

definition exchange :: "('a \<Rightarrow> int) \<Rightarrow> nat \<Rightarrow> nat \<Rightarrow> 'a list \<Rightarrow> 'a list" where
  "exchange pr i j ws = (if pr (ws ! i) < pr (ws ! j) then ws[i := ws ! j, j := ws ! i] else ws)"

text \<open>\<open>from i n ws ws'\<close>: the elements from \<open>i\<close> to \<open>n\<close> are rearranged, all others stay.\<close>

definition rearranged :: "nat \<Rightarrow> nat \<Rightarrow> 'a list \<Rightarrow> 'a list \<Rightarrow> bool" where
  "rearranged i n ws ws' \<longleftrightarrow> length ws' = length ws \<and> mset ws' = mset ws \<and> (\<forall>k. k < i \<or> n \<le> k \<longrightarrow> ws' ! k = ws ! k)
     \<and> (\<forall>k. i \<le> k \<and> k < n \<longrightarrow> (\<exists>k'. i \<le> k' \<and> k' < n \<and> ws' ! k = ws ! k'))"

lemma rearranged_refl [simp]: "rearranged i n ws ws"
  by (auto simp: rearranged_def)

lemma rearranged_trans:
  assumes "rearranged i n ws ws'" and "rearranged i' n ws' ws''" and "i \<le> i'"
  shows "rearranged i n ws ws''"
proof -
  have "\<exists>k'. i \<le> k' \<and> k' < n \<and> ws'' ! k = ws ! k'" if k: "i \<le> k" "k < n" for k
  proof -
    have "\<exists>k'. i \<le> k' \<and> k' < n \<and> ws'' ! k = ws' ! k'"
    proof (cases "i' \<le> k")
      case True
      then show ?thesis using assms(2,3) k unfolding rearranged_def by (meson le_trans)
    next
      case False
      then show ?thesis using assms(2) k unfolding rearranged_def by (intro exI [of _ k]) simp
    qed
    then show ?thesis using assms(1) unfolding rearranged_def by metis
  qed
  then show ?thesis using assms unfolding rearranged_def by auto
qed

lemma rearranged_exchange:
  assumes "i < j" and "j < n" and "n \<le> length ws"
  shows "rearranged i n ws (exchange pr i j ws)"
proof -
  have m: "mset (ws[i := ws ! j, j := ws ! i]) = mset ws" using assms by (intro mset_swap) simp_all
  have "\<exists>k'. i \<le> k' \<and> k' < n \<and> ws[i := ws ! j, j := ws ! i] ! k = ws ! k'" if "i \<le> k" "k < n" for k
    using assms that by (intro exI [of _ "if k = i then j else if k = j then i else k"]) (auto simp: nth_list_update)
  then show ?thesis using assms m by (auto simp: rearranged_def exchange_def)
qed

lemma inner_sort:
  assumes "i < m" and "m \<le> n" and "n \<le> length ws" and "ws' = fold (exchange pr i) [i + 1 ..< m] ws"
  shows "rearranged i n ws ws'" and "\<forall>k. i \<le> k \<and> k < m \<longrightarrow> pr (ws' ! k) \<le> pr (ws' ! i)"
proof -
  have "rearranged i n ws (fold (exchange pr i) [i + 1 ..< m] ws)
      \<and> (\<forall>k. i \<le> k \<and> k < m \<longrightarrow> pr (fold (exchange pr i) [i + 1 ..< m] ws ! k) \<le> pr (fold (exchange pr i) [i + 1 ..< m] ws ! i))"
    using assms(1,2)
  proof (induction m)
    case (Suc m)
    show ?case
    proof (cases "i = m")
      case True
      then have "[i + 1 ..< Suc m] = []" by simp
      then show ?thesis using True by (simp only: fold.simps id_apply) (auto simp: less_Suc_eq_le)
    next
      case False
      let ?v = "fold (exchange pr i) [i + 1 ..< m] ws"
      have im: "i < m" "m < n" using Suc.prems False by simp_all
      then have IH: "rearranged i n ws ?v" "\<forall>k. i \<le> k \<and> k < m \<longrightarrow> pr (?v ! k) \<le> pr (?v ! i)" using Suc.IH by auto
      have len: "length ?v = length ws" using IH(1) by (simp add: rearranged_def)
      have eq: "fold (exchange pr i) [i + 1 ..< Suc m] ws = exchange pr i m ?v" using im by simp
      have "rearranged i n ?v (exchange pr i m ?v)" using im assms(3) len by (intro rearranged_exchange) simp_all
      then have "rearranged i n ws (exchange pr i m ?v)" using rearranged_trans [OF IH(1)] by simp
      moreover have "pr (exchange pr i m ?v ! k) \<le> pr (exchange pr i m ?v ! i)" if "i \<le> k" "k < Suc m" for k
      proof -
        have "i < length ?v" "m < length ?v" using im assms(3) len by simp_all
        moreover have "k < m \<Longrightarrow> pr (?v ! k) \<le> pr (?v ! i)" using IH(2) that by simp
        ultimately show ?thesis using that im by (cases "k = m"; cases "k = i") (auto simp: exchange_def nth_list_update)
      qed
      ultimately show ?thesis unfolding eq by blast
    qed
  qed simp
  then show "rearranged i n ws ws'" "\<forall>k. i \<le> k \<and> k < m \<longrightarrow> pr (ws' ! k) \<le> pr (ws' ! i)" unfolding assms(4) by blast+
qed

definition sort_queue :: "('a \<Rightarrow> int) \<Rightarrow> nat \<Rightarrow> nat \<Rightarrow> 'a list \<Rightarrow> 'a list" where
  "sort_queue pr f n ws = fold (\<lambda>i. fold (exchange pr i) [i + 1 ..< n]) [f ..< n - 1] ws"

lemma sort_queue_sorted:
  assumes "f < n" and "n \<le> length ws"
  shows "rearranged f n ws (sort_queue pr f n ws)"
    and "\<forall>a b. f \<le> a \<and> a < b \<and> b < n \<longrightarrow> pr (sort_queue pr f n ws ! b) \<le> pr (sort_queue pr f n ws ! a)"
proof -
  have "rearranged f n ws (fold (\<lambda>i. fold (exchange pr i) [i + 1 ..< n]) [f ..< m] ws)
    \<and> (\<forall>a b. f \<le> a \<and> a < m \<and> a < b \<and> b < n \<longrightarrow> pr (fold (\<lambda>i. fold (exchange pr i) [i + 1 ..< n]) [f ..< m] ws ! b)
        \<le> pr (fold (\<lambda>i. fold (exchange pr i) [i + 1 ..< n]) [f ..< m] ws ! a))" if "f \<le> m" "m < n" for m
    using that
  proof (induction m)
    case (Suc m)
    show ?case
    proof (cases "f = Suc m")
      case False
      let ?v = "fold (\<lambda>i. fold (exchange pr i) [i + 1 ..< n]) [f ..< m] ws"
      let ?w = "fold (exchange pr m) [m + 1 ..< n] ?v"
      have IH: "rearranged f n ws ?v" "\<And>a b. f \<le> a \<Longrightarrow> a < m \<Longrightarrow> a < b \<Longrightarrow> b < n \<Longrightarrow> pr (?v ! b) \<le> pr (?v ! a)"
        using Suc False by auto
      have len: "length ?v = length ws" using IH(1) by (simp add: rearranged_def)
      have eq: "fold (\<lambda>i. fold (exchange pr i) [i + 1 ..< n]) [f ..< Suc m] ws = ?w" using Suc.prems False by simp
      have I: "rearranged m n ?v ?w" "\<forall>k. m \<le> k \<and> k < n \<longrightarrow> pr (?w ! k) \<le> pr (?w ! m)"
        using Suc.prems assms(2) len inner_sort [of m n n ?v ?w pr] by auto
      have "rearranged f n ws ?w" using rearranged_trans [OF IH(1) I(1)] Suc.prems False by simp
      moreover have "pr (?w ! b) \<le> pr (?w ! a)" if ab: "f \<le> a" "a < Suc m" "a < b" "b < n" for a b
      proof (cases "a = m")
        case True
        then show ?thesis using I(2) ab by simp
      next
        case am: False
        then have wa: "?w ! a = ?v ! a" using I(1) ab by (simp add: rearranged_def)
        show ?thesis
        proof (cases "b < m")
          case True
          then show ?thesis using wa I(1) IH(2) [of a b] ab am by (simp add: rearranged_def)
        next
          case False
          then obtain k where "m \<le> k" "k < n" "?w ! b = ?v ! k" using I(1) ab unfolding rearranged_def by (meson not_less)
          then show ?thesis using wa IH(2) [of a k] ab am by simp
        qed
      qed
      ultimately show ?thesis unfolding eq by blast
    qed (use that in auto)
  qed auto
  from this [of "n - 1"] show "rearranged f n ws (sort_queue pr f n ws)"
    "\<forall>a b. f \<le> a \<and> a < b \<and> b < n \<longrightarrow> pr (sort_queue pr f n ws ! b) \<le> pr (sort_queue pr f n ws ! a)"
    using assms(1) by (auto simp: sort_queue_def)
qed

subsection \<open>The loops of semaphore_acquire\<close>

definition set_waiting :: "nat \<Rightarrow> (nat option list \<Rightarrow> nat option list) \<Rightarrow> kworld \<Rightarrow> kworld" where
  "set_waiting n f = upd_sem n (\<lambda>m. m\<lparr>waiting := f (waiting m)\<rparr>)"

definition prio_of :: "kworld \<Rightarrow> nat option \<Rightarrow> int" where
  "prio_of s w = priority (schedule_status (procs s ! the w))"

definition no_null :: "nat \<Rightarrow> nat \<Rightarrow> nat option list \<Rightarrow> bool" where
  "no_null f l ws \<longleftrightarrow> l \<le> length ws \<and> (\<forall>i. f \<le> i \<and> i < l \<longrightarrow> ws ! i \<noteq> None)"

lemma sems_upd_sem [simp]: "n < length (sems s) \<Longrightarrow> sems (upd_sem n f s) ! n = f (sems s ! n)"
  "length (sems (upd_sem n f s)) = length (sems s)" "procs (upd_sem n f s) = procs s"
  by (simp_all add: upd_sem_def)

lemma set_waiting_simps [simp]:
  "n < length (sems s) \<Longrightarrow> sems (set_waiting n f s) ! n = (sems s ! n)\<lparr>waiting := f (waiting (sems s ! n))\<rparr>"
  "length (sems (set_waiting n f s)) = length (sems s)" "prio_of (set_waiting n f s) = prio_of s"
  by (simp_all add: set_waiting_def prio_of_def fun_eq_iff)

lemma set_waiting_comp [simp]: "set_waiting n f (set_waiting n g s) = set_waiting n (\<lambda>w. f (g w)) s"
  by (simp add: set_waiting_def upd_sem_def)

lemma set_waiting_same: "f (waiting (sems s ! n)) = waiting (sems s ! n) \<Longrightarrow> set_waiting n f s = s"
  by (simp add: set_waiting_def upd_sem_def upd_def)

lemma no_null_exchange: "no_null f l ws \<Longrightarrow> f \<le> i \<Longrightarrow> i < l \<Longrightarrow> f \<le> j \<Longrightarrow> j < l \<Longrightarrow> no_null f l (exchange pr i j ws)"
  by (auto simp: no_null_def exchange_def nth_list_update)

lemma no_null_fold:
  "no_null f l ws \<Longrightarrow> f \<le> i \<Longrightarrow> i < l \<Longrightarrow> \<forall>j \<in> set js. f \<le> j \<and> j < l \<Longrightarrow> no_null f l (fold (exchange pr i) js ws)"
  by (induction js arbitrary: ws) (simp_all add: no_null_exchange)

lemma sem_order_run:
  assumes "n < length (sems s)" and "no_null f l (waiting (sems s ! n))" and "f \<le> i" and "i < l" and "f \<le> j" and "j < l"
  shows "sem_order n i j s = Done () (set_waiting n (exchange (prio_of s) i j) s)"
proof -
  let ?w = "waiting (sems s ! n)"
  obtain p q where "?w ! i = Some p" "?w ! j = Some q" using assms unfolding no_null_def by blast
  moreover have "upd_sem n (\<lambda>m. m\<lparr>waiting := (waiting m)[i := ?w ! j, j := ?w ! i]\<rparr>) s
      = set_waiting n (\<lambda>w. w[i := w ! j, j := w ! i]) s"
    by (simp add: set_waiting_def upd_sem_def upd_def)
  ultimately show ?thesis
    by (simp add: sem_order_def kbind_app deref_def kwhen_def prio_of_def exchange_def set_waiting_def upd_sem_def upd_def)
qed

lemma sem_inner_run:
  assumes "n < length (sems s)" and "no_null f l (waiting (sems s ! n))" and "f \<le> i" and "i < l" and "\<forall>j \<in> set js. f \<le> j \<and> j < l"
  shows "kfor js (\<lambda>j. sem_order n i j) s = Done () (set_waiting n (fold (exchange (prio_of s) i) js) s)"
  using assms
proof (induction js arbitrary: s)
  case Nil
  then show ?case by (simp add: set_waiting_same)
next
  case (Cons j js)
  let ?t = "set_waiting n (exchange (prio_of s) i j) s"
  have "no_null f l (waiting (sems ?t ! n))" using Cons.prems by (simp add: no_null_exchange)
  then have "kfor js (\<lambda>j. sem_order n i j) ?t = Done () (set_waiting n (fold (exchange (prio_of s) i) js) ?t)"
    using Cons.IH [of ?t] Cons.prems by simp
  then show ?case using sem_order_run [OF Cons.prems(1-4), of j] Cons.prems(5) by (simp add: kseq_app comp_def)
qed

lemma sem_outer_run:
  assumes "n < length (sems s)" and "no_null f l (waiting (sems s ! n))" and "\<forall>i \<in> set is. f \<le> i \<and> i < l"
  shows "kfor is (\<lambda>i. kfor [i + 1 ..< l] (\<lambda>j. sem_order n i j)) s
    = Done () (set_waiting n (fold (\<lambda>i. fold (exchange (prio_of s) i) [i + 1 ..< l]) is) s)"
  using assms
proof (induction "is" arbitrary: s)
  case Nil
  then show ?case by (simp add: set_waiting_same)
next
  case (Cons i "is")
  let ?g = "fold (exchange (prio_of s) i) [i + 1 ..< l]"
  let ?t = "set_waiting n ?g s"
  have i: "f \<le> i" "i < l" "\<forall>j \<in> set [i + 1 ..< l]. f \<le> j \<and> j < l" using Cons.prems(3) by auto
  have "no_null f l (waiting (sems ?t ! n))" using no_null_fold [OF Cons.prems(2) i] Cons.prems(1) by simp
  then have "kfor is (\<lambda>i. kfor [i + 1 ..< l] (\<lambda>j. sem_order n i j)) ?t
      = Done () (set_waiting n (fold (\<lambda>i. fold (exchange (prio_of s) i) [i + 1 ..< l]) is) ?t)"
    using Cons.IH [of ?t] Cons.prems by simp
  then show ?case using sem_inner_run [OF Cons.prems(1,2) i] by (simp add: kseq_app comp_def)
qed

lemma sem_sort_run:
  assumes "n < length (sems s)" and "no_null (wfirst (sems s ! n)) (wlast (sems s ! n)) (waiting (sems s ! n))"
  shows "sem_sort n s = Done () (set_waiting n (sort_queue (prio_of s) (wfirst (sems s ! n)) (wlast (sems s ! n))) s)"
proof -
  let ?f = "wfirst (sems s ! n)" and ?l = "wlast (sems s ! n)"
  have "sort_queue pr ?f ?l = fold (\<lambda>i. fold (exchange pr i) [i + 1 ..< ?l]) [?f ..< ?l - 1]" for pr :: "nat option \<Rightarrow> int"
    by (rule ext) (simp add: sort_queue_def)
  moreover have "\<forall>i \<in> set [?f ..< ?l - 1]. ?f \<le> i \<and> i < ?l" by auto
  ultimately show ?thesis using sem_outer_run [OF assms] by (simp add: sem_sort_def kbind_app del: set_upt)
qed

lemma upd_sem_sect: "core (upd_sem n f s) = upd_sem n f (core s)" "upd_sem n f (acquired l s) = acquired l (upd_sem n f s)"
  by (simp_all add: upd_sem_def core_upd acquired_upd)

lemma upd_sem_ready [simp]: "ready l (upd_sem n f s) = ready l s" "ready l (set_waiting n g s) = ready l s"
  by (simp_all add: upd_sem_def set_waiting_def)

lemma sems_upd_sem_upd [simp]: "upd_sem n f (upd_sem n g s) = upd_sem n (\<lambda>m. f (g m)) s"
  by (simp add: upd_sem_def)

lemma wakeupproc_run:
  assumes "core t = core (acquired l s)" and "ready l s" and "l \<noteq> PtableLock" and "ready PtableLock s"
    and "\<And>u. core u = core (acquired l (upd_proc i (\<lambda>q. q\<lparr>pstate := RUNNABLE\<rparr>) s)) \<Longrightarrow> Q () u"
  shows "wp (wakeupproc (Some i)) Q t"
proof -
  have "ready PtableLock t" using inside(7) [OF assms(1,2)] assms(3,4) by simp
  then have "wp (kseq (acquire PtableLock) (kseq (kmod (upd_proc i (\<lambda>q. q\<lparr>pstate := RUNNABLE\<rparr>))) (release PtableLock)))
      (\<lambda>_ u. core u = core (upd_proc i (\<lambda>q. q\<lparr>pstate := RUNNABLE\<rparr>) t)) t"
    by (intro wp_section_unit [where s' = "upd_proc i (\<lambda>q. q\<lparr>pstate := RUNNABLE\<rparr>) t"]) (simp_all add: upd_proc_acquired)
  then show ?thesis unfolding wakeupproc_def deref_def option.case
    by (rule wp_conseq) (use assms(1,5) in \<open>simp add: upd_proc_core upd_proc_acquired [symmetric]\<close>)
qed

subsection \<open>Properties\<close>

text \<open>
  C33. Semaphores without waiting: an acquire of a positive semaphore only counts it down; a release
  counts up and, when processes wait, makes the first of the queue runnable, clears its slot and
  moves the head of the queue on.
\<close>

theorem semaphore_spec:
  assumes "ready (SemLk n) s" and "ready PtableLock s" and "n < length (sems s)"
  shows "(0 < sem_value (sems s ! n) \<longrightarrow> wp (semaphore_acquire ut n prio)
      (\<lambda>_ t. core t = core (upd_sem n (\<lambda>m. m\<lparr>sem_value := sem_value m - 1\<rparr>) s)) s)
    \<and> (0 \<le> sem_value (sems s ! n) \<longrightarrow> wp (semaphore_release n)
      (\<lambda>_ t. core t = core (upd_sem n (\<lambda>m. m\<lparr>sem_value := sem_value m + 1\<rparr>) s)) s)
    \<and> (\<forall>p. sem_value (sems s ! n) < 0 \<and> waiting (sems s ! n) ! wfirst (sems s ! n) = Some p \<longrightarrow> wp (semaphore_release n)
      (\<lambda>_ t. core t = core (upd_proc p (\<lambda>q. q\<lparr>pstate := RUNNABLE\<rparr>) (upd_sem n (\<lambda>m. m\<lparr>sem_value := sem_value m + 1,
        waiting := (waiting m)[wfirst m := None], wfirst := (wfirst m + 1) mod NPROC\<rparr>) s))) s)"
proof (intro conjI impI allI)
  assume "0 < sem_value (sems s ! n)"
  then show "wp (semaphore_acquire ut n prio) (\<lambda>_ t. core t = core (upd_sem n (\<lambda>m. m\<lparr>sem_value := sem_value m - 1\<rparr>) s)) s"
    using assms by (simp add: semaphore_acquire_def wp_simps wp_acquire_ready upd_sem_sect(2) wp_leave)
next
  assume "0 \<le> sem_value (sems s ! n)"
  then show "wp (semaphore_release n) (\<lambda>_ t. core t = core (upd_sem n (\<lambda>m. m\<lparr>sem_value := sem_value m + 1\<rparr>) s)) s"
    using assms by (simp add: semaphore_release_def wp_simps wp_acquire_ready upd_sem_sect(2) wp_leave)
next
  fix p
  assume w: "sem_value (sems s ! n) < 0 \<and> waiting (sems s ! n) ! wfirst (sems s ! n) = Some p"
  let ?u = "upd_sem n (\<lambda>m. m\<lparr>sem_value := sem_value m + 1\<rparr>) s"
  let ?g = "\<lambda>m. m\<lparr>waiting := (waiting m)[wfirst m := None], wfirst := (wfirst m + 1) mod NPROC\<rparr>"
  let ?v = "upd_proc p (\<lambda>q. q\<lparr>pstate := RUNNABLE\<rparr>) ?u"
  have "wp (wakeupproc (Some p)) (\<lambda>_ t. wp (release (SemLk n)) (\<lambda>_ t. core t = core (upd_sem n ?g ?v)) (upd_sem n ?g t)) (acquired (SemLk n) ?u)"
  proof (rule wakeupproc_run [OF refl])
    fix t
    assume "core t = core (acquired (SemLk n) ?v)"
    then have "core (upd_sem n ?g t) = core (acquired (SemLk n) (upd_sem n ?g ?v))"
      by (simp add: upd_sem_sect(1) upd_sem_sect(2) [symmetric])
    then show "wp (release (SemLk n)) (\<lambda>_ t. core t = core (upd_sem n ?g ?v)) (upd_sem n ?g t)"
      by (rule wp_leave) (use assms in \<open>simp add: upd_proc_def\<close>)
  qed (use assms in simp_all)
  moreover have "upd_sem n ?g ?v = upd_proc p (\<lambda>q. q\<lparr>pstate := RUNNABLE\<rparr>) (upd_sem n (\<lambda>m. m\<lparr>sem_value := sem_value m + 1,
        waiting := (waiting m)[wfirst m := None], wfirst := (wfirst m + 1) mod NPROC\<rparr>) s)"
    by (simp add: upd_sem_def upd_proc_def)
  ultimately show "wp (semaphore_release n) (\<lambda>_ t. core t = core (upd_proc p (\<lambda>q. q\<lparr>pstate := RUNNABLE\<rparr>)
      (upd_sem n (\<lambda>m. m\<lparr>sem_value := sem_value m + 1, waiting := (waiting m)[wfirst m := None], wfirst := (wfirst m + 1) mod NPROC\<rparr>) s))) s"
    using assms w by (simp add: semaphore_release_def wp_simps wp_acquire_ready upd_sem_sect(2))
qed

definition sem_demo :: "semaphore \<Rightarrow> kworld" where
  "sem_demo m = demo\<lparr>sems := replicate NSEMS m\<rparr>"

lemma sem_demo_facts [simp]:
  "ready l (sem_demo m)" "sems (sem_demo m) = replicate NSEMS m" "curproc (sem_demo m) = Some 0"
proof -
  have "curproc (sems_update f s) = curproc s" for f s by (simp add: curproc_def this_cpu_def cpu_index_def lapicid_def)
  then show "ready l (sem_demo m)" "sems (sem_demo m) = replicate NSEMS m" "curproc (sem_demo m) = Some 0" by (simp_all add: sem_demo_def)
qed

theorem semaphore_spec_witness:
  "wp (semaphore_release 2) (\<lambda>_ t. core t = core (upd_proc 4 (\<lambda>q. q\<lparr>pstate := RUNNABLE\<rparr>)
      (upd_sem 2 (\<lambda>m. m\<lparr>sem_value := sem_value m + 1, waiting := (waiting m)[wfirst m := None], wfirst := (wfirst m + 1) mod NPROC\<rparr>)
        (sem_demo (zero_sem\<lparr>sem_value := - 1, waiting := (replicate NPROC None)[0 := Some 4], wlast := 1\<rparr>)))))
    (sem_demo (zero_sem\<lparr>sem_value := - 1, waiting := (replicate NPROC None)[0 := Some 4], wlast := 1\<rparr>))"
  using semaphore_spec [of 2 "sem_demo (zero_sem\<lparr>sem_value := - 1, waiting := (replicate NPROC None)[0 := Some 4], wlast := 1\<rparr>)"]
  by (simp add: zero_sem_def)

text \<open>
  The queue of a semaphore: the sorting loops of \<open>semaphore_acquire\<close> end, follow no null pointer
  when the part of the array between head and tail is filled, order that part by falling priority and
  only rearrange it.
\<close>

theorem semaphore_queue_sorted:
  assumes "n < length (sems s)" and "m = sems s ! n" and "wfirst m < wlast m" and "no_null (wfirst m) (wlast m) (waiting m)"
  shows "\<exists>ws. sem_sort n s = Done () (set_waiting n (\<lambda>_. ws) s) \<and> mset ws = mset (waiting m)
    \<and> (\<forall>k. k < wfirst m \<or> wlast m \<le> k \<longrightarrow> ws ! k = waiting m ! k)
    \<and> (\<forall>a b. wfirst m \<le> a \<and> a < b \<and> b < wlast m \<longrightarrow> prio_of s (ws ! b) \<le> prio_of s (ws ! a))"
proof (intro exI conjI)
  let ?ws = "sort_queue (prio_of s) (wfirst m) (wlast m) (waiting m)"
  have len: "wlast m \<le> length (waiting m)" using assms(4) by (simp add: no_null_def)
  note S = sort_queue_sorted [OF assms(3) len, of "prio_of s"]
  show "sem_sort n s = Done () (set_waiting n (\<lambda>_. ?ws) s)"
    using sem_sort_run [OF assms(1)] assms(2,4) by (simp add: set_waiting_def upd_sem_def upd_def)
  show "mset ?ws = mset (waiting m)" "\<forall>k. k < wfirst m \<or> wlast m \<le> k \<longrightarrow> ?ws ! k = waiting m ! k"
    using S(1) by (simp_all add: rearranged_def)
  show "\<forall>a b. wfirst m \<le> a \<and> a < b \<and> b < wlast m \<longrightarrow> prio_of s (?ws ! b) \<le> prio_of s (?ws ! a)" by (rule S(2))
qed

theorem semaphore_queue_sorted_witness:
  "\<exists>ws. sem_sort 0 (sem_demo (zero_sem\<lparr>waiting := (replicate NPROC None)[0 := Some 1, 1 := Some 2], wlast := 2\<rparr>))
      = Done () (set_waiting 0 (\<lambda>_. ws) (sem_demo (zero_sem\<lparr>waiting := (replicate NPROC None)[0 := Some 1, 1 := Some 2], wlast := 2\<rparr>)))
    \<and> mset ws = mset ((replicate NPROC None)[0 := Some 1, 1 := Some 2])"
  using semaphore_queue_sorted [of 0 "sem_demo (zero_sem\<lparr>waiting := (replicate NPROC None)[0 := Some 1, 1 := Some 2], wlast := 2\<rparr>)"
      "zero_sem\<lparr>waiting := (replicate NPROC None)[0 := Some 1, 1 := Some 2], wlast := 2\<rparr>"]
  by (auto simp: zero_sem_def no_null_def less_Suc_eq numeral_2_eq_2)

text \<open>
  C34. A released slot at the start of the array: when the first process of the queue has been woken
  and another one has to wait, the loop that numbers the waiting processes starts at index 0, not at
  the head of the queue, and follows the null pointer left there.
\<close>

theorem semaphore_numbers_null:
  assumes "ready (SemLk n) s" and "ready PtableLock s" and "curproc s = Some me" and "n < length (sems s)" and "m = sems s ! n"
    and "sem_value m \<le> 0" and "length (waiting m) = NPROC" and "wlast m + 1 < NPROC" and "0 < wfirst m"
    and "no_null (wfirst m) (wlast m) (waiting m)" and "wfirst m \<le> wlast m" and "waiting m ! 0 = None"
  shows "semaphore_acquire ut n prio s = Fault"
proof -
  let ?m = "m\<lparr>sem_value := sem_value m - 1, waiting := (waiting m)[wlast m := Some me], wlast := wlast m + 1\<rparr>"
  let ?a = "acquired (SemLk n) (upd_sem n (\<lambda>_. ?m) s)"
  have wf: "cpu_wf s" "free (SemLk n) s" using assms(1) by (simp_all add: ready_def)
  have my: "myproc (acquired (SemLk n) (upd_sem n f s)) = Done (Some me) (acquired (SemLk n) (upd_sem n f s))" for f
    using inside [OF refl, of "SemLk n" "upd_sem n f s"] assms(1,3) by (simp add: myproc_nested curproc_def upd_sem_def this_cpu_def cpu_index_def lapicid_def)
  have sm: "sems ?a ! n = ?m" using assms(4) by simp
  have nn: "no_null (wfirst m) (wlast m + 1) (waiting ?m)"
    using assms(7,8,10,11) by (auto simp: no_null_def nth_list_update less_Suc_eq)
  have srt: "sem_sort n ?a = Done () (set_waiting n (sort_queue (prio_of ?a) (wfirst m) (wlast m + 1)) ?a)" (is "_ = Done () ?b")
    using sem_sort_run [of n ?a] sm nn assms(4) by simp
  have "waiting (sems ?b ! n) ! 0 = None"
  proof -
    have "rearranged (wfirst m) (wlast m + 1) (waiting ?m) (sort_queue (prio_of ?a) (wfirst m) (wlast m + 1) (waiting ?m))"
      using assms(7,8,11) by (intro sort_queue_sorted(1)) simp_all
    then have "sort_queue (prio_of ?a) (wfirst m) (wlast m + 1) (waiting ?m) ! 0 = waiting ?m ! 0"
      using assms(9) by (simp add: rearranged_def)
    moreover have "waiting ?m ! 0 = None" using assms(9,11,12) by simp
    ultimately show ?thesis using sm assms(4) by simp
  qed
  moreover have "wlast (sems ?b ! n) = Suc (wlast m)" using sm assms(4) by simp
  moreover have "acquire PtableLock ?b = Done () (acquired PtableLock ?b)"
  proof (rule acquire_run)
    have "ready PtableLock ?a" using inside(7) [OF refl, of "SemLk n" "upd_sem n (\<lambda>_. ?m) s" PtableLock] assms(1,2) by simp
    then have "ready PtableLock ?b" by simp
    then show "cpu_wf ?b" "free PtableLock ?b" by (simp_all add: ready_def)
  qed
  ultimately have pl: "sem_places n ?b = Fault"
    by (simp add: sem_places_def kbind_app upt_conv_Cons kseq_app deref_def del: upt_Suc)
  have "upd_sem n (\<lambda>x. x\<lparr>wlast := (wlast x + 1) mod NPROC\<rparr>) (upd_sem n (\<lambda>x. x\<lparr>waiting := (waiting x)[wlast x := Some me]\<rparr>)
      (upd_sem n (\<lambda>x. x\<lparr>sem_value := sem_value x - 1\<rparr>) s)) = upd_sem n (\<lambda>_. ?m) s"
    using assms(4,5,8) by (simp add: upd_sem_def upd_def)
  then show ?thesis
    using assms(4-6) my srt pl
    by (simp add: semaphore_acquire_def kseq_app kbind_app acquire_run [OF wf] upd_sem_sect(2))
qed

theorem semaphore_numbers_null_witness:
  "semaphore_acquire \<lparr>printspaces = (\<lambda>_. kret ()), digitcount = (\<lambda>_. 1)\<rparr> 1 0
    (sem_demo (zero_sem\<lparr>sem_value := - 1, waiting := (replicate NPROC None)[1 := Some 5], wfirst := 1, wlast := 2\<rparr>)) = Fault"
  by (rule semaphore_numbers_null [where me = 0]) (auto simp: zero_sem_def no_null_def less_Suc_eq numeral_2_eq_2)

end
