(* ===== verification/Pipe.thy ===== *)
theory Pipe
  imports Sleeplock
begin

section \<open>Pipes (pipe.c)\<close>

text \<open>
  A pipe is a ring of \<open>PIPESIZE\<close> bytes with two counters that run through all 32-bit values; the page
  it lives in is its address.  \<open>pipewrite\<close> sleeps while the ring is full and \<open>piperead\<close> while it is
  empty; each round of a waiting loop returns \<open>None\<close> to go round again, or tells whether to go on or
  to give up.  The bytes at \<open>addr\<close> are a list; to read past its end is a fault.  The pipe is shown to
  be a first-in first-out queue of bytes, through the wrap-around of the ring and of its counters.
\<close>

subsection \<open>Definitions\<close>

definition upd_pipe :: "32 word \<Rightarrow> (pipe \<Rightarrow> pipe) \<Rightarrow> kworld \<Rightarrow> kworld" where
  "upd_pipe p f s = s\<lparr>pipes := (pipes s)(p := f (pipes s p))\<rparr>"

definition pipe_full :: "pipe \<Rightarrow> bool" where
  "pipe_full q \<longleftrightarrow> nwrite q = nread q + of_nat PIPESIZE"

definition put_byte :: "byte \<Rightarrow> pipe \<Rightarrow> pipe" where
  "put_byte b q = q\<lparr>pipe_data := (pipe_data q)[unat (nwrite q) mod PIPESIZE := b], nwrite := nwrite q + 1\<rparr>"

definition next_byte :: "pipe \<Rightarrow> byte" where
  "next_byte q = pipe_data q ! (unat (nread q) mod PIPESIZE)"

definition skip_byte :: "pipe \<Rightarrow> pipe" where
  "skip_byte q = q\<lparr>nread := nread q + 1\<rparr>"

definition pipeclose :: "ksyms \<Rightarrow> 32 word \<Rightarrow> bool \<Rightarrow> unit kern" where
  "pipeclose ks p writable =
     kseq (acquire (PipeLk p)) (
     kseq (if writable then
             kseq (kmod (upd_pipe p (\<lambda>q. q\<lparr>writeopen := False\<rparr>))) (
             wakeup (Some (ChPipeRead p)))
           else
             kseq (kmod (upd_pipe p (\<lambda>q. q\<lparr>readopen := False\<rparr>))) (
             wakeup (Some (ChPipeWrite p)))) (
     kbind (kget (\<lambda>s. pipes s p)) (\<lambda>q.
     if \<not> readopen q \<and> \<not> writeopen q then
       kseq (release (PipeLk p)) (
       kfree (k_end ks) p)
     else release (PipeLk p))))"

definition pipewrite_round :: "32 word \<Rightarrow> bool option kern" where
  "pipewrite_round p =
     kbind (kget (\<lambda>s. pipes s p)) (\<lambda>q.
     if \<not> pipe_full q then kret (Some True)
     else if \<not> readopen q then kret (Some False)
     else
       kbind myproc (\<lambda>me. deref me (\<lambda>i.
       kbind (kget (\<lambda>s. killed (procs s ! i))) (\<lambda>k.
       if k then kret (Some False)
       else
         kseq (wakeup (Some (ChPipeRead p))) (
         kseq (sleep (Some (ChPipeWrite p)) (Some (PipeLk p))) (
         kret None))))))"

lemma env_le_wakeup1 [env_intros]: "env_le (wakeup1 ch)"
  unfolding wakeup1_def by (intro env_intros) simp

lemma env_le_wakeup [env_intros]: "env_le (wakeup ch)"
  unfolding wakeup_def by (intro env_intros)

lemma pipewrite_round_again: "pipewrite_round p s = Done None t \<Longrightarrow> length (env t) < length (env s)"
  by (auto simp: pipewrite_round_def kbind_eq_Done kseq_eq_Done deref_def split: if_splits option.splits
      dest!: env_leD [OF env_le_myproc] env_leD [OF env_le_wakeup] env_ltD [OF env_lt_sleep])

function pipewrite_wait :: "32 word \<Rightarrow> bool kern" where
  "pipewrite_wait p s =
     kbind (pipewrite_round p) (\<lambda>r t. case r of None \<Rightarrow> pipewrite_wait p t | Some go \<Rightarrow> Done go t) s"
  by pat_completeness auto
termination
  by (relation "measure (\<lambda>(p, s). length (env s))") (auto dest: pipewrite_round_again)

declare pipewrite_wait.simps [simp del]

fun pipewrite_loop :: "32 word \<Rightarrow> byte list \<Rightarrow> nat \<Rightarrow> bool kern" where
  "pipewrite_loop p addr 0 = kret True"
| "pipewrite_loop p addr (Suc n) =
     kbind (pipewrite_wait p) (\<lambda>go.
     if \<not> go then kret False
     else case addr of [] \<Rightarrow> kfault | b # bs \<Rightarrow>
       kseq (kmod (upd_pipe p (put_byte b))) (
       pipewrite_loop p bs n))"

definition pipewrite :: "32 word \<Rightarrow> byte list \<Rightarrow> int \<Rightarrow> int kern" where
  "pipewrite p addr n =
     kseq (acquire (PipeLk p)) (
     kbind (pipewrite_loop p addr (nat n)) (\<lambda>go.
     if \<not> go then kseq (release (PipeLk p)) (kret (- 1))
     else
       kseq (wakeup (Some (ChPipeRead p))) (
       kseq (release (PipeLk p)) (
       kret n))))"

definition piperead_round :: "32 word \<Rightarrow> bool option kern" where
  "piperead_round p =
     kbind (kget (\<lambda>s. pipes s p)) (\<lambda>q.
     if \<not> (nread q = nwrite q \<and> writeopen q) then kret (Some True)
     else
       kbind myproc (\<lambda>me. deref me (\<lambda>i.
       kbind (kget (\<lambda>s. killed (procs s ! i))) (\<lambda>k.
       if k then kret (Some False)
       else
         kseq (sleep (Some (ChPipeRead p)) (Some (PipeLk p))) (
         kret None)))))"

lemma piperead_round_again: "piperead_round p s = Done None t \<Longrightarrow> length (env t) < length (env s)"
  by (auto simp: piperead_round_def kbind_eq_Done kseq_eq_Done deref_def split: if_splits option.splits
      dest!: env_leD [OF env_le_myproc] env_ltD [OF env_lt_sleep])

function piperead_wait :: "32 word \<Rightarrow> bool kern" where
  "piperead_wait p s =
     kbind (piperead_round p) (\<lambda>r t. case r of None \<Rightarrow> piperead_wait p t | Some go \<Rightarrow> Done go t) s"
  by pat_completeness auto
termination
  by (relation "measure (\<lambda>(p, s). length (env s))") (auto dest: piperead_round_again)

declare piperead_wait.simps [simp del]

fun piperead_loop :: "32 word \<Rightarrow> nat \<Rightarrow> byte list kern" where
  "piperead_loop p 0 = kret []"
| "piperead_loop p (Suc n) =
     kbind (kget (\<lambda>s. pipes s p)) (\<lambda>q.
     if nread q = nwrite q then kret []
     else
       kseq (kmod (upd_pipe p skip_byte)) (
       kbind (piperead_loop p n) (\<lambda>bs.
       kret (next_byte q # bs))))"

definition piperead :: "32 word \<Rightarrow> int \<Rightarrow> (int \<times> byte list) kern" where
  "piperead p n =
     kseq (acquire (PipeLk p)) (
     kbind (piperead_wait p) (\<lambda>go.
     if \<not> go then kseq (release (PipeLk p)) (kret (- 1, []))
     else
       kbind (piperead_loop p (nat n)) (\<lambda>bs.
       kseq (wakeup (Some (ChPipeWrite p))) (
       kseq (release (PipeLk p)) (
       kret (int (length bs), bs))))))"

subsection \<open>A bounded queue of bytes\<close>

text \<open>What a ring buffer promises, and what its users can do with several bytes at a time.\<close>

locale byte_queue =
  fixes ok :: "'q \<Rightarrow> bool" and content :: "'q \<Rightarrow> 'b list" and cap :: nat
    and put :: "'b \<Rightarrow> 'q \<Rightarrow> 'q" and nxt :: "'q \<Rightarrow> 'b" and skp :: "'q \<Rightarrow> 'q"
  assumes put_law: "ok q \<Longrightarrow> length (content q) < cap \<Longrightarrow> ok (put b q) \<and> content (put b q) = content q @ [b]"
    and skip_law: "ok q \<Longrightarrow> content q \<noteq> [] \<Longrightarrow> ok (skp q) \<and> content q = nxt q # content (skp q)"
begin

lemma puts:
  assumes "ok q" and "length (content q) + length bs \<le> cap"
  shows "ok (fold put bs q) \<and> content (fold put bs q) = content q @ bs"
  using assms
proof (induction bs arbitrary: q)
  case (Cons b bs)
  then show ?case using put_law [of q b] by simp
qed simp

lemma takes:
  assumes "ok q" and "n \<le> length (content q)"
  shows "ok ((skp ^^ n) q) \<and> content ((skp ^^ n) q) = drop n (content q)"
  using assms(2)
proof (induction n)
  case (Suc n)
  then have n: "ok ((skp ^^ n) q)" "content ((skp ^^ n) q) = drop n (content q)" by simp_all
  then have "content ((skp ^^ n) q) \<noteq> []" using Suc.prems by simp
  then show ?case using skip_law [OF n(1)] n(2) by (metis drop_Suc funpow.simps(2) list.sel(3) o_apply tl_drop)
qed (simp add: assms(1))

end

subsection \<open>The ring of a pipe is a queue\<close>

definition pipe_bytes :: "pipe \<Rightarrow> byte list" where
  "pipe_bytes q = map (\<lambda>k. pipe_data q ! ((unat (nread q) + k) mod PIPESIZE)) [0 ..< unat (nwrite q - nread q)]"

definition pipe_ok :: "pipe \<Rightarrow> bool" where
  "pipe_ok q \<longleftrightarrow> length (pipe_data q) = PIPESIZE \<and> unat (nwrite q - nread q) \<le> PIPESIZE"

lemma length_pipe_bytes: "length (pipe_bytes q) = unat (nwrite q - nread q)"
  by (simp add: pipe_bytes_def)

lemma pipe_empty_iff: "nread q = nwrite q \<longleftrightarrow> pipe_bytes q = []"
  by (simp add: pipe_bytes_def unat_eq_0) (metis eq_iff_diff_eq_0)

lemma unat_plus_ring: "unat (w + of_nat k :: 32 word) mod 512 = (unat w + k) mod 512"
proof -
  have "(512 :: nat) dvd 2 ^ LENGTH(32)" by (rule dvdI [of _ _ "2 ^ 23"]) simp
  then show ?thesis by (simp add: unat_word_ariths unat_of_nat mod_mod_cancel mod_add_right_eq)
qed

lemma pipe_full_iff: "pipe_full q \<longleftrightarrow> length (pipe_bytes q) = PIPESIZE"
proof -
  have "nwrite q = nread q + 512 \<longleftrightarrow> nwrite q - nread q = 512" by (auto simp: algebra_simps)
  also have "\<dots> \<longleftrightarrow> unat (nwrite q - nread q) = unat (512 :: 32 word)" by (simp only: word_unat_eq_iff)
  finally show ?thesis by (simp add: pipe_full_def length_pipe_bytes)
qed

lemma unat_plus_one_small: "unat (w :: 32 word) < 512 \<Longrightarrow> unat (w + 1) = Suc (unat w)"
  by (simp add: unat_word_ariths)

lemma pipe_put:
  assumes "pipe_ok q" and "length (pipe_bytes q) < PIPESIZE"
  shows "pipe_ok (put_byte b q)" and "pipe_bytes (put_byte b q) = pipe_bytes q @ [b]"
proof -
  let ?n = "unat (nwrite q - nread q)"
  have n: "?n < 512" using assms(2) by (simp add: length_pipe_bytes)
  have "nwrite q + 1 - nread q = (nwrite q - nread q) + 1" by simp
  then have s: "unat (nwrite q + 1 - nread q) = Suc ?n" using n by (metis unat_plus_one_small)
  have w: "unat (nwrite q) mod 512 = (unat (nread q) + ?n) mod 512"
    using unat_plus_ring [of "nread q" ?n] by simp
  have other: "(unat (nread q) + k) mod 512 \<noteq> (unat (nread q) + ?n) mod 512" if "k < ?n" for k
  proof
    assume "(unat (nread q) + k) mod 512 = (unat (nread q) + ?n) mod 512"
    then have "512 dvd (unat (nread q) + ?n) - (unat (nread q) + k)" using mod_eq_dvd_iff_nat that by (metis add_le_cancel_left less_imp_le)
    then show False using that n by (auto dest!: dvd_imp_le)
  qed
  show "pipe_ok (put_byte b q)" using assms(1) n by (simp add: pipe_ok_def put_byte_def s)
  have l: "length (pipe_data q) = 512" using assms(1) by (simp add: pipe_ok_def)
  show "pipe_bytes (put_byte b q) = pipe_bytes q @ [b]"
    unfolding pipe_bytes_def put_byte_def using l by (simp add: s w nth_list_update other [symmetric])
qed

lemma pipe_skip:
  assumes "pipe_ok q" and "pipe_bytes q \<noteq> []"
  shows "pipe_ok (skip_byte q)" and "pipe_bytes q = next_byte q # pipe_bytes (skip_byte q)"
proof -
  let ?n = "unat (nwrite q - nread q)"
  have n: "0 < ?n" using assms(2) by (simp add: pipe_bytes_def)
  have s: "unat (nwrite q - (nread q + 1)) = ?n - 1"
  proof -
    have "nwrite q - (nread q + 1) = (nwrite q - nread q) - 1" by simp
    then show ?thesis using n by (metis unat_minus_one unat_gt_0)
  qed
  have r: "(unat (nread q + 1) + k) mod 512 = (unat (nread q) + Suc k) mod 512" for k
    using unat_plus_ring [of "nread q" 1] by (metis add_Suc_right add_Suc of_nat_1 plus_1_eq_Suc mod_add_left_eq add.assoc)
  show "pipe_ok (skip_byte q)" using assms(1) by (auto simp: pipe_ok_def skip_byte_def s)
  have "pipe_bytes q = map (\<lambda>k. pipe_data q ! ((unat (nread q) + k) mod 512)) (0 # map Suc [0 ..< ?n - 1])"
    using n by (simp add: pipe_bytes_def map_Suc_upt upt_conv_Cons)
  then show "pipe_bytes q = next_byte q # pipe_bytes (skip_byte q)"
    by (simp add: pipe_bytes_def skip_byte_def next_byte_def s r)
qed

interpretation pq: byte_queue pipe_ok pipe_bytes PIPESIZE put_byte next_byte skip_byte
  by unfold_locales (use pipe_put pipe_skip in blast)+

subsection \<open>Without waiting\<close>

lemma upd_pipe_fields [simp]:
  "pipes (upd_pipe p f s) = (pipes s)(p := f (pipes s p))" "procs (upd_pipe p f s) = procs s" "env (upd_pipe p f s) = env s"
  "ready l (upd_pipe p f s) = ready l s" "curproc (upd_pipe p f s) = curproc s" "cpu_wf (upd_pipe p f s) = cpu_wf s"
  "depth (upd_pipe p f s) = depth s" "owns l (upd_pipe p f s) = owns l s" "free l (upd_pipe p f s) = free l s"
  by (simp_all add: upd_pipe_def curproc_def)

lemma upd_pipe_sect [crit_simps]:
  "core (upd_pipe p f s) = upd_pipe p f (core s)" "upd_pipe p f (acquired l s) = acquired l (upd_pipe p f s)"
  by (simp_all add: upd_pipe_def core_upd acquired_upd)

lemma upd_pipe_upd: "upd_pipe p f (upd_pipe p g s) = upd_pipe p (\<lambda>q. f (g q)) s" "upd_pipe p (\<lambda>q. q) s = s"
  by (simp_all add: upd_pipe_def)

lemma pipewrite_wait_room: "\<not> pipe_full (pipes s p) \<Longrightarrow> pipewrite_wait p s = Done True s"
  by (subst pipewrite_wait.simps) (simp add: pipewrite_round_def kbind_app)

lemma piperead_wait_data:
  "nread (pipes s p) \<noteq> nwrite (pipes s p) \<or> \<not> writeopen (pipes s p) \<Longrightarrow> piperead_wait p s = Done True s"
  by (subst piperead_wait.simps) (auto simp: piperead_round_def kbind_app)

lemma pipewrite_loop_room:
  assumes "pipe_ok (pipes s p)" and "length (pipe_bytes (pipes s p)) + length bs \<le> PIPESIZE"
  shows "pipewrite_loop p (bs @ rest) (length bs) s = Done True (upd_pipe p (fold put_byte bs) s)"
  using assms
proof (induction bs arbitrary: s)
  case Nil
  then show ?case by (simp add: upd_pipe_upd id_def)
next
  case (Cons b bs)
  have "\<not> pipe_full (pipes s p)" using Cons.prems(2) by (simp add: pipe_full_iff)
  note w = pipewrite_wait_room [OF this]
  have "pipewrite_loop p (bs @ rest) (length bs) (upd_pipe p (put_byte b) s) = Done True (upd_pipe p (fold put_byte bs) (upd_pipe p (put_byte b) s))"
    using Cons.prems pq.put_law [OF Cons.prems(1), of b] by (intro Cons.IH) simp_all
  then show ?case by (simp add: w upd_pipe_upd comp_def)
qed

lemma piperead_loop_run:
  assumes "pipe_ok (pipes s p)"
  shows "piperead_loop p n s = Done (take n (pipe_bytes (pipes s p)))
    (upd_pipe p (skip_byte ^^ min n (length (pipe_bytes (pipes s p)))) s)"
  using assms
proof (induction n arbitrary: s)
  case 0
  then show ?case by (simp add: upd_pipe_upd id_def)
next
  case (Suc n)
  show ?case
  proof (cases "pipe_bytes (pipes s p) = []")
    case True
    then show ?thesis by (simp add: pipe_empty_iff upd_pipe_upd id_def)
  next
    case False
    note k = pq.skip_law [OF Suc.prems False]
    have "piperead_loop p n (upd_pipe p skip_byte s) = Done (take n (pipe_bytes (skip_byte (pipes s p))))
        (upd_pipe p (skip_byte ^^ min n (length (pipe_bytes (skip_byte (pipes s p))))) (upd_pipe p skip_byte s))"
      using Suc.IH [of "upd_pipe p skip_byte s"] k by simp
    moreover have "pipe_bytes (pipes s p) = next_byte (pipes s p) # pipe_bytes (skip_byte (pipes s p))" using k by simp
    ultimately show ?thesis
      using False by (simp add: pipe_empty_iff upd_pipe_upd comp_def funpow_swap1 kbind_app)
  qed
qed

lemma wp_bind_Done: "m s = Done x t \<Longrightarrow> wp (kbind m f) Q s = wp (f x) Q t"
  by (simp add: wp_def)

text \<open>The end of an operation, from inside the section: wake the other side and leave.\<close>

lemma wake_and_leave:
  assumes "ready l u" and "ready PtableLock u" and "length (procs u) = NPROC" and "l \<noteq> PtableLock"
  shows "wp (kseq (wakeup ch) (kseq (release l) (kret r))) (\<lambda>x t. x = r \<and> core t = core (u\<lparr>procs := map (woken ch) (procs u)\<rparr>)) (acquired l u)"
proof -
  let ?v = "u\<lparr>procs := map (woken ch) (procs u)\<rparr>"
  have "wp (wakeup ch) (\<lambda>_. wp (release l) (\<lambda>_ t. core t = core ?v)) (acquired l u)"
    by (rule wp_wakeup_inside [OF refl]) (use assms in \<open>simp_all add: wp_leave\<close>)
  then show ?thesis by (simp add: wp_simps)
qed

lemma pipewrite_run:
  assumes "ready (PipeLk p) s" and "ready PtableLock s" and "length (procs s) = NPROC"
    and "pipe_ok (pipes s p)" and "length (pipe_bytes (pipes s p)) + length bs \<le> PIPESIZE"
  shows "wp (pipewrite p (bs @ rest) (int (length bs))) (\<lambda>r t. r = int (length bs)
    \<and> core t = core ((upd_pipe p (fold put_byte bs) s)\<lparr>procs := map (woken (Some (ChPipeRead p))) (procs s)\<rparr>)) s"
proof -
  let ?u = "upd_pipe p (fold put_byte bs) s"
  have l: "pipewrite_loop p (bs @ rest) (length bs) (acquired (PipeLk p) s) = Done True (acquired (PipeLk p) ?u)"
    using pipewrite_loop_room [of "acquired (PipeLk p) s" p bs rest] assms(4,5) by (simp add: upd_pipe_sect)
  have "wp (kseq (wakeup (Some (ChPipeRead p))) (kseq (release (PipeLk p)) (kret (int (length bs))))) (\<lambda>r t. r = int (length bs)
    \<and> core t = core (?u\<lparr>procs := map (woken (Some (ChPipeRead p))) (procs ?u)\<rparr>)) (acquired (PipeLk p) ?u)"
    using assms(1-3) by (intro wake_and_leave) simp_all
  then show ?thesis using assms(1) by (simp add: pipewrite_def wp_seq [of "acquire _"] wp_acquire_ready wp_bind_Done l)
qed

lemma piperead_run:
  assumes "ready (PipeLk p) s" and "ready PtableLock s" and "length (procs s) = NPROC" and "pipe_ok (pipes s p)"
    and "pipe_bytes (pipes s p) \<noteq> [] \<or> \<not> writeopen (pipes s p)"
  shows "wp (piperead p n) (\<lambda>(r, bs) t. r = int (length bs) \<and> bs = take (nat n) (pipe_bytes (pipes s p))
    \<and> core t = core ((upd_pipe p (skip_byte ^^ length bs) s)\<lparr>procs := map (woken (Some (ChPipeWrite p))) (procs s)\<rparr>)) s"
proof -
  let ?l = "PipeLk p" and ?bs = "take (nat n) (pipe_bytes (pipes s p))"
  let ?u = "upd_pipe p (skip_byte ^^ length ?bs) s"
  have w: "piperead_wait p (acquired ?l s) = Done True (acquired ?l s)"
    using assms(5) by (intro piperead_wait_data) (auto simp: pipe_empty_iff)
  have l: "piperead_loop p (nat n) (acquired ?l s) = Done ?bs (acquired ?l ?u)"
    using piperead_loop_run [of "acquired ?l s" p "nat n"] assms(4) by (simp add: upd_pipe_sect min.commute)
  have "wp (kseq (wakeup (Some (ChPipeWrite p))) (kseq (release ?l) (kret (int (length ?bs), ?bs)))) (\<lambda>x t. x = (int (length ?bs), ?bs)
    \<and> core t = core (?u\<lparr>procs := map (woken (Some (ChPipeWrite p))) (procs ?u)\<rparr>)) (acquired ?l ?u)"
    using assms(1-3) by (intro wake_and_leave) simp_all
  then show ?thesis
    using assms(1) by (simp add: piperead_def wp_seq [of "acquire _"] wp_acquire_ready wp_bind_Done l w) (erule wp_conseq, simp)
qed

subsection \<open>Closing an end\<close>

definition closed :: "32 word \<Rightarrow> bool \<Rightarrow> kworld \<Rightarrow> kworld" where
  "closed p writable s = (upd_pipe p (\<lambda>q. if writable then q\<lparr>writeopen := False\<rparr> else q\<lparr>readopen := False\<rparr>) s)
     \<lparr>procs := map (woken (Some (if writable then ChPipeRead p else ChPipeWrite p))) (procs s)\<rparr>"

lemma closed_fields [simp]:
  "ready l (closed p w s) = ready l s" "cpu_wf (closed p w s) = cpu_wf s" "use_lock (closed p w s) = use_lock s"
  "pipes (closed p w s) p = (if w then (pipes s p)\<lparr>writeopen := False\<rparr> else (pipes s p)\<lparr>readopen := False\<rparr>)"
  by (simp_all add: closed_def upd_pipe_def)

lemma core_kfreed: "core t = core s \<Longrightarrow> core (kfreed v t) = core (kfreed v s)"
  using core_eq_data(5,14) [of t s] by (simp add: kfreed_def core_upd)

lemma pipeclose_run:
  assumes "ready (PipeLk p) s" and "ready PtableLock s" and "length (procs s) = NPROC"
    and "use_lock s \<Longrightarrow> ready KmemLock s" and "is_page (k_end ks) p"
  shows "wp (pipeclose ks p w) (\<lambda>_ t. core t = core
    (if (if w then readopen (pipes s p) else writeopen (pipes s p)) then closed p w s else kfreed p (closed p w s))) s"
proof -
  let ?l = "PipeLk p" and ?v = "closed p w s" and ?ch = "Some (if w then ChPipeRead p else ChPipeWrite p)"
  let ?u = "upd_pipe p (\<lambda>q. if w then q\<lparr>writeopen := False\<rparr> else q\<lparr>readopen := False\<rparr>) s"
  define rest where "rest = kbind (kget (\<lambda>s :: kworld. pipes s p)) (\<lambda>q. if \<not> readopen q \<and> \<not> writeopen q then
       kseq (release (PipeLk p)) (kfree (k_end ks) p) else release (PipeLk p))"
  define Q where "Q t \<longleftrightarrow> core t = core (if (if w then readopen (pipes s p) else writeopen (pipes s p)) then ?v else kfreed p ?v)" for t
  have rest: "wp rest (\<lambda>_. Q) t" if t: "core t = core (acquired ?l ?v)" for t
  proof -
    have leave: "wp (release ?l) (\<lambda>_ t. core t = core ?v) t" using wp_leave [OF t] assms(1) by simp
    have fr: "wp (kfree (k_end ks) p) (\<lambda>_ x. core x = core (kfreed p ?v)) y" if y: "core y = core ?v" for y
    proof (rule wp_conseq [OF kfree_run])
      show "cpu_wf y" "use_lock y \<Longrightarrow> ready KmemLock y" "is_page (k_end ks) p"
        using core_eq_locks [OF y] core_eq_data(13) [OF y] assms(4,5) ready_cpu_wf [OF assms(1)] by simp_all
      show "core x = core (kfreed p ?v)" if "core x = core (kfreed p y)" for x
        using that core_kfreed [OF y] by simp
    qed
    have "pipes t p = pipes ?v p" using core_eq_data(15) [OF t] by simp
    then show ?thesis using leave fr by (auto simp: rest_def Q_def [abs_def] wp_simps elim!: wp_conseq)
  qed
  have "wp (wakeup ?ch) (\<lambda>_. wp rest (\<lambda>_. Q)) (acquired ?l ?u)"
    by (rule wp_wakeup_inside [OF refl]) (use assms(1-3) in \<open>simp_all add: rest closed_def\<close>)
  moreover have "pipeclose ks p w = kseq (acquire ?l) (kseq (if w then kseq (kmod (upd_pipe p (\<lambda>q. q\<lparr>writeopen := False\<rparr>))) (wakeup ?ch)
      else kseq (kmod (upd_pipe p (\<lambda>q. q\<lparr>readopen := False\<rparr>))) (wakeup ?ch)) rest)"
    by (simp add: pipeclose_def rest_def)
  ultimately have "wp (pipeclose ks p w) (\<lambda>_. Q) s"
    using assms(1) by (cases w) (simp_all add: wp_seq wp_mod wp_acquire_ready upd_pipe_sect)
  then show ?thesis unfolding Q_def [abs_def] .
qed

subsection \<open>Waiting for a reader\<close>

text \<open>
  Other processes that act as readers: each time the writer has gone to sleep on the full pipe, one
  entry of \<open>env\<close> takes at least one byte out of the pipe and resumes the writer.
\<close>

definition full_asleep :: "nat \<Rightarrow> 32 word \<Rightarrow> kworld \<Rightarrow> bool" where
  "full_asleep i p u \<longleftrightarrow> resumed i u \<and> free (PipeLk p) u \<and> length (procs u) = NPROC \<and> pipe_ok (pipes u p)
     \<and> pipe_full (pipes u p) \<and> readopen (pipes u p) \<and> \<not> killed (procs u ! i)"

definition reader :: "nat \<Rightarrow> 32 word \<Rightarrow> (kstate \<Rightarrow> kstate) \<Rightarrow> bool" where
  "reader i p e \<longleftrightarrow> (\<forall>u. full_asleep i p u \<longrightarrow> (let v = env_apply e u in
     resumed i v \<and> free (PipeLk p) v \<and> length (procs v) = NPROC \<and> readopen (pipes v p) \<and> \<not> killed (procs v ! i)
     \<and> (\<exists>k. 0 < k \<and> k \<le> PIPESIZE \<and> pipes v p = (skip_byte ^^ k) (pipes u p))))"

lemma readerD:
  assumes "reader i p e" and "full_asleep i p u"
  shows "resumed i (env_apply e u)" and "free (PipeLk p) (env_apply e u)" and "length (procs (env_apply e u)) = NPROC"
    and "readopen (pipes (env_apply e u) p)" and "\<not> killed (procs (env_apply e u) ! i)"
    and "\<exists>k. 0 < k \<and> k \<le> PIPESIZE \<and> pipes (env_apply e u) p = (skip_byte ^^ k) (pipes u p)"
  using assms(1) [unfolded reader_def, rule_format, OF assms(2)] by (simp_all add: Let_def)

text \<open>The writer inside the section of the pipe.\<close>

definition writing :: "nat \<Rightarrow> 32 word \<Rightarrow> kworld \<Rightarrow> bool" where
  "writing i p s \<longleftrightarrow> in_section i (PipeLk p) s \<and> length (procs s) = NPROC \<and> pipe_ok (pipes s p) \<and> readopen (pipes s p)
     \<and> \<not> killed (procs s ! i) \<and> (\<forall>e \<in> set (env s). reader i p e)"

lemma in_section_core: "core t = core s \<Longrightarrow> in_section i l t = in_section i l s"
  using core_eq_data(8) [of t s] core_eq_locks [of t s] by (auto simp: in_section_def)

lemma in_section_upd_pipe [simp]: "in_section i l (upd_pipe p f s) = in_section i l s"
  by (simp add: in_section_def)

lemma in_section_procs [simp]: "in_section i l (s\<lparr>procs := map (woken ch) (procs s)\<rparr>) = in_section i l s"
  by (simp add: in_section_def curproc_def)

lemma asleep_pipes [simp]: "pipes (asleep i ch l s) = pipes s"
  by (simp add: asleep_def)

lemma killed_woken [simp]: "killed (woken ch q) = killed q"
  by (simp add: woken_def)

lemma pipewrite_sleep:
  assumes "writing i p s" and "pipe_full (pipes s p)" and "env s \<noteq> []"
  shows "wp (pipewrite_round p) (\<lambda>r t. r = None \<and> writing i p t \<and> \<not> pipe_full (pipes t p) \<and> length (env s) \<le> Suc (length (env t))
    \<and> (\<exists>k. pipe_bytes (pipes t p) = drop k (pipe_bytes (pipes s p)))) s"
proof -
  let ?l = "PipeLk p" and ?ch = "Some (ChPipeWrite p)"
  have s: "in_section i ?l s" "length (procs s) = 10" "pipe_ok (pipes s p)" "readopen (pipes s p)" "\<not> killed (procs s ! i)"
    "\<forall>e \<in> set (env s). reader i p e" using assms(1) by (simp_all add: writing_def)
  have sec: "cpu_wf s" "0 < depth s" "curproc s = Some i" "ready PtableLock s" "i < 10"
    using s(1,2) by (simp_all add: in_section_def)
  obtain e es where e: "env s = e # es" using assms(3) by (cases "env s") auto
  have sl: "wp (sleep ?ch (Some ?l)) (\<lambda>_ t. writing i p t \<and> \<not> pipe_full (pipes t p) \<and> length (env s) \<le> Suc (length (env t))
    \<and> (\<exists>k. pipe_bytes (pipes t p) = drop k (pipe_bytes (pipes s p)))) t"
    if t: "core t = core (s\<lparr>procs := map (woken (Some (ChPipeRead p))) (procs s)\<rparr>)" for t
  proof -
    note d = core_eq_data [OF t]
    have it: "in_section i ?l t" using in_section_core [OF t] s(1) by simp
    let ?a = "asleep i ?ch ?l t\<lparr>env := es\<rparr>"
    have "full_asleep i p ?a"
      using asleep_facts [OF it, of ?ch] d(8,15) s(2-5) sec(5) assms(2) by (simp add: full_asleep_def resumed_def)
    note r = readerD [OF bspec [OF s(6)] this, of e, unfolded e, simplified]
    obtain k where k: "0 < k" "k \<le> PIPESIZE" "pipes (env_apply e ?a) p = (skip_byte ^^ k) (pipes s p)"
      using r(6) d(15) by auto
    have full: "length (pipe_bytes (pipes s p)) = 512" using assms(2) by (simp add: pipe_full_iff)
    have q: "pipe_ok (pipes (env_apply e ?a) p)" "pipe_bytes (pipes (env_apply e ?a) p) = drop k (pipe_bytes (pipes s p))"
      using pq.takes [OF s(3), of k] k full by simp_all
    let ?v = "after_sleep i ?l (intena (cpus (asleep i ?ch ?l t) ! this_cpu (asleep i ?ch ?l t))) (env_apply e ?a)"
    have v: "pipes ?v = pipes (env_apply e ?a)" "env ?v = es" "length (procs ?v) = 10" "killed (procs ?v ! i) = killed (procs (env_apply e ?a) ! i)"
      using r(3) sec(5) by (simp_all add: after_sleep_def nth_upd)
    have "sleep ?ch (Some ?l) t = Done () ?v" using sleep_returns [OF it, of e es ?ch] d(25) e r(1,2) by simp
    moreover have "writing i p ?v"
      using after_sleep_section [OF r(1), of ?l] r(2,4,5) v q(1) s(6) e by (simp add: writing_def)
    moreover have "\<not> pipe_full (pipes ?v p)" using q(2) v(1) full k(1) by (simp add: pipe_full_iff)
    ultimately show ?thesis using v(1,2) q(2) e by (auto simp: wp_def)
  qed
  have "wp (wakeup (Some (ChPipeRead p))) (\<lambda>_. wp (sleep ?ch (Some ?l)) (\<lambda>_ t. writing i p t \<and> \<not> pipe_full (pipes t p)
     \<and> length (env s) \<le> Suc (length (env t)) \<and> (\<exists>k. pipe_bytes (pipes t p) = drop k (pipe_bytes (pipes s p))))) s"
    using wakeup_run [OF sec(4), of "Some (ChPipeRead p)"] s(2) by (auto elim!: wp_conseq intro: sl)
  then show ?thesis
    using assms(2) s(4,5) sec(3) myproc_nested [OF sec(1,2)]
    by (simp add: pipewrite_round_def wp_simps wp_def [of myproc] deref_def)
qed

text \<open>One byte: at most one sleep, and the byte goes to the end of the stream.\<close>

lemma pipewrite_wait_run:
  assumes "writing i p s" and "env s \<noteq> []"
  shows "wp (pipewrite_wait p) (\<lambda>r t. r \<and> writing i p t \<and> \<not> pipe_full (pipes t p) \<and> length (env s) \<le> Suc (length (env t))
    \<and> (\<exists>k. pipe_bytes (pipes t p) = drop k (pipe_bytes (pipes s p)))) s"
proof (cases "pipe_full (pipes s p)")
  case False
  then show ?thesis using assms by (auto simp: wp_def pipewrite_wait_room intro!: exI [of _ 0])
next
  case True
  obtain t where t: "pipewrite_round p s = Done None t" "\<not> pipe_full (pipes t p)"
    and q: "writing i p t" "length (env s) \<le> Suc (length (env t))" "\<exists>k. pipe_bytes (pipes t p) = drop k (pipe_bytes (pipes s p))"
    using pipewrite_sleep [OF assms(1) True assms(2)] by (auto elim!: wpE)
  then have "pipewrite_wait p s = Done True t"
    using pipewrite_wait_room [OF t(2)] by (subst pipewrite_wait.simps) simp
  then show ?thesis using t(2) q by (auto intro: wpI)
qed

lemma writing_put:
  assumes "writing i p s" and "\<not> pipe_full (pipes s p)"
  shows "writing i p (upd_pipe p (put_byte b) s)" and "pipe_bytes (pipes (upd_pipe p (put_byte b) s) p) = pipe_bytes (pipes s p) @ [b]"
proof -
  have "pipe_ok (pipes s p)" "length (pipe_bytes (pipes s p)) < 512"
    using assms by (auto simp: writing_def pipe_full_iff pipe_ok_def length_pipe_bytes le_less)
  note l = pq.put_law [OF this, of b]
  then show "pipe_bytes (pipes (upd_pipe p (put_byte b) s) p) = pipe_bytes (pipes s p) @ [b]" by simp
  show "writing i p (upd_pipe p (put_byte b) s)" using l assms(1) by (simp add: writing_def put_byte_def)
qed

lemma drop_append_drop: "\<exists>k'. drop k (drop j xs @ ys) = drop k' (xs @ ys)"
  by (rule exI [of _ "if j \<le> length xs then k + j else length xs + k"]) (simp add: drop_append)

lemma wp_conseq_ex:
  assumes "wp m (\<lambda>r v. r \<and> P v \<and> (\<exists>k. f v = drop k xs)) s" and "\<And>k. \<exists>k'. drop k xs = drop k' ys"
  shows "wp m (\<lambda>r v. r \<and> P v \<and> (\<exists>k. f v = drop k ys)) s"
  using assms(1) by (rule wp_conseq) (use assms(2) in fastforce)

lemma pipewrite_loop_run:
  assumes "writing i p s" and "length bs \<le> length (env s)"
  shows "wp (pipewrite_loop p bs (length bs)) (\<lambda>r t. r \<and> writing i p t
    \<and> (\<exists>k. pipe_bytes (pipes t p) = drop k (pipe_bytes (pipes s p) @ bs))) s"
  using assms
proof (induction bs arbitrary: s)
  case Nil
  then show ?case by (auto simp: wp_simps intro!: exI [of _ 0])
next
  case (Cons b bs)
  then have "env s \<noteq> []" by auto
  then obtain t j where t: "pipewrite_wait p s = Done True t" "writing i p t" "\<not> pipe_full (pipes t p)" "length (env s) \<le> Suc (length (env t))"
    "pipe_bytes (pipes t p) = drop j (pipe_bytes (pipes s p))"
    using pipewrite_wait_run [OF Cons.prems(1)] by (auto elim!: wpE)
  let ?u = "upd_pipe p (put_byte b) t"
  note u = writing_put [OF t(2,3), of b]
  have "wp (pipewrite_loop p bs (length bs)) (\<lambda>r v. r \<and> writing i p v \<and> (\<exists>k. pipe_bytes (pipes v p) = drop k (pipe_bytes (pipes ?u p) @ bs))) ?u"
    using Cons.prems(2) t(4) by (intro Cons.IH u(1)) simp
  moreover have "\<exists>k'. drop k (pipe_bytes (pipes ?u p) @ bs) = drop k' (pipe_bytes (pipes s p) @ b # bs)" for k
    using drop_append_drop [of k j "pipe_bytes (pipes s p)" "b # bs"] u(2) t(5) by simp
  ultimately have "wp (pipewrite_loop p bs (length bs)) (\<lambda>r v. r \<and> writing i p v
      \<and> (\<exists>k. pipe_bytes (pipes v p) = drop k (pipe_bytes (pipes s p) @ b # bs))) ?u"
    by (rule wp_conseq_ex)
  then show ?case by (simp add: wp_bind_Done t(1) wp_seq wp_mod)
qed

text \<open>The whole call, from outside the section.\<close>

lemma pipewrite_contended:
  assumes "ready (PipeLk p) s" and "ready PtableLock s" and "curproc s = Some i" and "depth s = 0" and "i < length (procs s)"
    and "length (procs s) = NPROC" and "pipe_ok (pipes s p)" and "readopen (pipes s p)" and "\<not> killed (procs s ! i)"
    and "\<forall>e \<in> set (env s). reader i p e" and "length bs \<le> length (env s)"
  shows "wp (pipewrite p bs (int (length bs))) (\<lambda>r t. r = int (length bs) \<and> pipe_ok (pipes t p)
    \<and> (\<exists>k. pipe_bytes (pipes t p) = drop k (pipe_bytes (pipes s p) @ bs))) s"
proof -
  let ?l = "PipeLk p"
  have wf: "cpu_wf s" using assms(1) by (rule ready_cpu_wf)
  have "writing i p (acquired ?l s)"
    using assms wf by (simp add: writing_def in_section_def ready_acquired)
  then obtain t k where t: "pipewrite_loop p bs (length bs) (acquired ?l s) = Done True t" "writing i p t"
    "pipe_bytes (pipes t p) = drop k (pipe_bytes (pipes s p) @ bs)"
    using pipewrite_loop_run [of i p "acquired ?l s" bs] assms(11) by (auto elim!: wpE)
  have sec: "in_section i ?l t" "ready PtableLock t" "length (procs t) = 10" "pipe_ok (pipes t p)"
    using t(2) by (simp_all add: writing_def in_section_def)
  have rel: "wp (release ?l) (\<lambda>_ v. pipes v = pipes t) u"
    if u: "core u = core (t\<lparr>procs := map (woken (Some (ChPipeRead p))) (procs t)\<rparr>)" for u
  proof -
    have "in_section i ?l u" using in_section_core [OF u] sec(1) by simp
    then have "cpu_wf u" "owns ?l u" "0 < depth u" by (simp_all add: in_section_def)
    then show ?thesis using core_eq_data(15) [OF u] by (simp add: wp_release)
  qed
  have "wp (wakeup (Some (ChPipeRead p))) (\<lambda>_. wp (release ?l) (\<lambda>_ v. pipes v = pipes t)) t"
    using wakeup_run [OF sec(2,3), of "Some (ChPipeRead p)"] by (rule wp_conseq) (rule rel)
  then show ?thesis
    using assms(1) t(3) sec(4)
    by (auto simp: pipewrite_def wp_seq wp_ret wp_acquire_ready wp_bind_Done t(1) elim!: wp_conseq)
qed

subsection \<open>Properties\<close>

text \<open>
  C3. A pipe is a first-in first-out queue of at most \<open>PIPESIZE\<close> bytes, wherever its two 32-bit
  counters stand: a \<open>pipewrite\<close> that fits appends its bytes, wakes the readers and returns their
  number; a \<open>piperead\<close> from a pipe with data, or whose writers are gone, returns the next bytes in order and
  removes exactly those.
\<close>

theorem pipe_fifo:
  assumes "ready (PipeLk p) s" and "ready PtableLock s" and "length (procs s) = NPROC" and "pipe_ok (pipes s p)"
  shows "(length (pipe_bytes (pipes s p)) + length bs \<le> PIPESIZE \<longrightarrow>
      wp (pipewrite p bs (int (length bs))) (\<lambda>r t. r = int (length bs) \<and> pipe_ok (pipes t p)
        \<and> pipe_bytes (pipes t p) = pipe_bytes (pipes s p) @ bs \<and> procs t = map (woken (Some (ChPipeRead p))) (procs s)) s)
    \<and> (pipe_bytes (pipes s p) \<noteq> [] \<or> \<not> writeopen (pipes s p) \<longrightarrow>
      wp (piperead p n) (\<lambda>(r, got) t. r = int (length got) \<and> got = take (nat n) (pipe_bytes (pipes s p)) \<and> pipe_ok (pipes t p)
        \<and> pipe_bytes (pipes t p) = drop (nat n) (pipe_bytes (pipes s p)) \<and> procs t = map (woken (Some (ChPipeWrite p))) (procs s)) s)"
proof (intro conjI impI)
  assume room: "length (pipe_bytes (pipes s p)) + length bs \<le> PIPESIZE"
  show "wp (pipewrite p bs (int (length bs))) (\<lambda>r t. r = int (length bs) \<and> pipe_ok (pipes t p)
        \<and> pipe_bytes (pipes t p) = pipe_bytes (pipes s p) @ bs \<and> procs t = map (woken (Some (ChPipeRead p))) (procs s)) s"
    using pipewrite_run [OF assms room, of "[]"] pq.puts [OF assms(4) room]
    by (auto elim!: wp_conseq dest: core_eq_data(8,15))
next
  assume data: "pipe_bytes (pipes s p) \<noteq> [] \<or> \<not> writeopen (pipes s p)"
  let ?k = "length (take (nat n) (pipe_bytes (pipes s p)))"
  have "drop ?k (pipe_bytes (pipes s p)) = drop (nat n) (pipe_bytes (pipes s p))" by (auto simp: min_def)
  then show "wp (piperead p n) (\<lambda>(r, got) t. r = int (length got) \<and> got = take (nat n) (pipe_bytes (pipes s p)) \<and> pipe_ok (pipes t p)
        \<and> pipe_bytes (pipes t p) = drop (nat n) (pipe_bytes (pipes s p)) \<and> procs t = map (woken (Some (ChPipeWrite p))) (procs s)) s"
    using piperead_run [OF assms data, of n] pq.takes [OF assms(4), of ?k]
    by (auto elim!: wp_conseq dest: core_eq_data(8,15))
qed

definition pipe_demo :: "pipe \<Rightarrow> (kstate \<Rightarrow> kstate) list \<Rightarrow> kworld" where
  "pipe_demo q es = demo\<lparr>pipes := (\<lambda>_. q), env := es\<rparr>"

lemma pipe_demo_facts [simp]:
  "ready l (pipe_demo q es)" "curproc (pipe_demo q es) = Some 0" "depth (pipe_demo q es) = 0" "procs (pipe_demo q es) = procs demo"
  "pipes (pipe_demo q es) p = q" "env (pipe_demo q es) = es"
  using demo_cpu(5) by (simp_all add: pipe_demo_def curproc_def)

theorem pipe_fifo_witness:
  "wp (pipewrite 0x80200000 [1, 2] 2) (\<lambda>r t. r = 2 \<and> pipe_ok (pipes t 0x80200000) \<and> pipe_bytes (pipes t 0x80200000) = [1, 2]
     \<and> procs t = map (woken (Some (ChPipeRead 0x80200000))) (procs demo)) (pipe_demo (zero_pipe\<lparr>nread := - 1, nwrite := - 1\<rparr>) [])"
  using pipe_fifo [where p = "0x80200000" and s = "pipe_demo (zero_pipe\<lparr>nread := - 1, nwrite := - 1\<rparr>) []" and bs = "[1, 2]"]
  by (simp add: pipe_bytes_def pipe_ok_def zero_pipe_def)

text \<open>
  C37. A writer that finds the pipe full sleeps and goes on when readers have taken bytes: if every
  time it sleeps some reader takes at least one byte and it is resumed, \<open>pipewrite\<close> returns with all
  its bytes sent, and what is left in the pipe is a final part of the stream of old and new bytes in
  order.
\<close>

theorem pipewrite_resumes:
  assumes "ready (PipeLk p) s" and "ready PtableLock s" and "curproc s = Some i" and "depth s = 0" and "i < length (procs s)"
    and "length (procs s) = NPROC" and "pipe_ok (pipes s p)" and "readopen (pipes s p)" and "\<not> killed (procs s ! i)"
    and "\<forall>e \<in> set (env s). reader i p e" and "length bs \<le> length (env s)"
  shows "wp (pipewrite p bs (int (length bs))) (\<lambda>r t. r = int (length bs) \<and> pipe_ok (pipes t p)
    \<and> (\<exists>k. pipe_bytes (pipes t p) = drop k (pipe_bytes (pipes s p) @ bs))) s"
  using assms by (rule pipewrite_contended)

lemma env_apply_pipe: "env_apply (\<lambda>s. s\<lparr>pipes := (pipes s)(p := f (pipes s p))\<rparr>) u = upd_pipe p f u"
  by (simp add: env_apply_def upd_pipe_def kstate.defs kworld.defs)

lemma reader_one: "reader i p (\<lambda>s. s\<lparr>pipes := (pipes s)(p := skip_byte (pipes s p))\<rparr>)"
  unfolding reader_def env_apply_pipe Let_def
  by (auto simp: full_asleep_def resumed_def skip_byte_def [of "pipes _ _"] intro!: exI [of _ 1])

theorem pipewrite_resumes_witness:
  "\<exists>q es. pipe_full q \<and> wp (pipewrite 0x80200000 [7] 1) (\<lambda>r t. r = 1 \<and> pipe_ok (pipes t 0x80200000)
    \<and> (\<exists>k. pipe_bytes (pipes t 0x80200000) = drop k (pipe_bytes q @ [7]))) (pipe_demo q es)"
proof -
  let ?p = "0x80200000 :: 32 word"
  let ?q = "zero_pipe\<lparr>nwrite := 512, readopen := True\<rparr>" and ?es = "[\<lambda>s. s\<lparr>pipes := (pipes s)(?p := skip_byte (pipes s ?p))\<rparr>]"
  have "pipe_full ?q" "pipe_ok ?q" by (simp_all add: pipe_full_def pipe_ok_def zero_pipe_def)
  then show ?thesis
    using pipewrite_resumes [of ?p "pipe_demo ?q ?es" 0 "[7]"] reader_one
    by (intro exI [of _ ?q] exI [of _ ?es]) (simp add: zero_proc_def)
qed

end
