(* ===== verification/File.thy ===== *)
theory File
  imports Pipe Fs
begin

section \<open>Open files (file.c) and the creation of pipes\<close>

text \<open>
  A \<open>struct file\<close> is an index into the table \<open>ftable\<close>, with a reference count, and either a pipe or an
  inode with an offset behind it.  \<open>filewrite\<close> cuts a write into pieces that fit a transaction of the
  log.  \<open>pipealloc\<close> of pipe.c is here because it allocates and closes files.
\<close>

subsection \<open>Definitions\<close>

definition file_of :: "nat \<Rightarrow> kworld \<Rightarrow> kfile" where
  "file_of f s = ftable (fsys s) ! f"

definition upd_file :: "nat \<Rightarrow> (kfile \<Rightarrow> kfile) \<Rightarrow> kworld \<Rightarrow> kworld" where
  "upd_file f g s = s\<lparr>fsys := (fsys s)\<lparr>ftable := upd f g (ftable (fsys s))\<rparr>\<rparr>"

definition fileinit :: "unit kern" where
  "fileinit = initlock FtableLock ''ftable''"

definition filealloc :: "nat option kern" where
  "filealloc =
     kseq (acquire FtableLock) (
     kbind (kget (\<lambda>s. find_idx (\<lambda>f. f_ref f = 0) (ftable (fsys s)))) (\<lambda>r.
     case r of
       Some f \<Rightarrow>
         kseq (kmod (upd_file f (\<lambda>x. x\<lparr>f_ref := 1\<rparr>))) (
         kseq (release FtableLock) (
         kret (Some f)))
     | None \<Rightarrow>
         kseq (release FtableLock) (
         kret None)))"

definition filedup :: "nat \<Rightarrow> nat kern" where
  "filedup f =
     kseq (acquire FtableLock) (
     kbind (kget (file_of f)) (\<lambda>x.
     if f_ref x < 1 then kpanic ''filedup''
     else
       kseq (kmod (upd_file f (\<lambda>x. x\<lparr>f_ref := f_ref x + 1\<rparr>))) (
       kseq (release FtableLock) (
       kret f))))"

definition fileclose :: "ksyms \<Rightarrow> nat \<Rightarrow> unit kern" where
  "fileclose ks f =
     kseq (acquire FtableLock) (
     kbind (kget (file_of f)) (\<lambda>x.
     if f_ref x < 1 then kpanic ''fileclose''
     else
       kseq (kmod (upd_file f (\<lambda>x. x\<lparr>f_ref := f_ref x - 1\<rparr>))) (
       kbind (kget (file_of f)) (\<lambda>ff.
       if f_ref ff > 0 then release FtableLock
       else
         kseq (kmod (upd_file f (\<lambda>x. x\<lparr>f_ref := 0\<rparr>))) (
         kseq (kmod (upd_file f (\<lambda>x. x\<lparr>f_type := FD_NONE\<rparr>))) (
         kseq (release FtableLock) (
         if f_type ff = FD_PIPE then deref (f_pipe ff) (\<lambda>p. pipeclose ks p (f_writable ff))
         else kwhen (f_type ff = FD_INODE) (
           kseq begin_op (
           kseq (deref (f_ip ff) iput) (
           end_op))))))))))"

definition filestat :: "nat \<Rightarrow> (int \<times> stat option) kern" where
  "filestat f =
     kbind (kget (file_of f)) (\<lambda>x.
     if f_type x = FD_INODE then
       kseq (ilock (f_ip x)) (
       kbind (deref (f_ip x) stati) (\<lambda>st.
       kseq (iunlock (f_ip x)) (
       kret (0, Some st))))
     else kret (- 1, None))"

definition fileread :: "devtab \<Rightarrow> nat \<Rightarrow> int \<Rightarrow> (int \<times> byte list) kern" where
  "fileread dsw f n =
     kbind (kget (file_of f)) (\<lambda>x.
     if \<not> f_readable x then kret (- 1, [])
     else if f_type x = FD_PIPE then deref (f_pipe x) (\<lambda>p. piperead p n)
     else if f_type x = FD_INODE then
       kseq (ilock (f_ip x)) (
       kbind (kget (\<lambda>s. f_off (file_of f s))) (\<lambda>off.
       kbind (deref (f_ip x) (\<lambda>ip. readi dsw ip off (of_int n))) (\<lambda>(r, bytes).
       kseq (kwhen (r > 0) (kmod (upd_file f (\<lambda>x. x\<lparr>f_off := f_off x + of_int r\<rparr>)))) (
       kseq (iunlock (f_ip x)) (
       kret (r, bytes))))))
     else kpanic ''fileread'')"

abbreviation (input) WRITE_MAX :: nat where "WRITE_MAX \<equiv> 1536"

text \<open>The loop of \<open>filewrite\<close>; \<open>rem\<close> is \<open>n - i\<close>, and the result tells whether everything was written.\<close>

function filewrite_loop :: "devtab \<Rightarrow> nat \<Rightarrow> byte list \<Rightarrow> nat \<Rightarrow> bool kern" where
  "filewrite_loop dsw f addr rem =
     (if rem = 0 then kret True
      else
        let n1 = min rem WRITE_MAX in
        kseq begin_op (
        kbind (kget (\<lambda>s. f_ip (file_of f s))) (\<lambda>ip.
        kseq (ilock ip) (
        kbind (kget (\<lambda>s. f_off (file_of f s))) (\<lambda>off.
        kbind (deref ip (\<lambda>i. writei dsw i addr off (of_nat n1))) (\<lambda>r.
        kseq (kwhen (r > 0) (kmod (upd_file f (\<lambda>x. x\<lparr>f_off := f_off x + of_int r\<rparr>)))) (
        kseq (iunlock ip) (
        kseq end_op (
        if r < 0 then kret False
        else if r \<noteq> int n1 then kpanic ''short filewrite''
        else filewrite_loop dsw f (drop n1 addr) (rem - n1))))))))))"
  by pat_completeness auto
termination
  by (relation "measure (\<lambda>(dsw, f, addr, rem). rem)") (auto simp: min_def)

declare filewrite_loop.simps [simp del]

definition filewrite :: "devtab \<Rightarrow> nat \<Rightarrow> byte list \<Rightarrow> int \<Rightarrow> int kern" where
  "filewrite dsw f addr n =
     kbind (kget (file_of f)) (\<lambda>x.
     if \<not> f_writable x then kret (- 1)
     else if f_type x = FD_PIPE then deref (f_pipe x) (\<lambda>p. pipewrite p addr n)
     else if f_type x = FD_INODE then
       kbind (filewrite_loop dsw f addr (nat n)) (\<lambda>all.
       kret (if all \<and> 0 \<le> n then n else - 1))
     else kpanic ''filewrite'')"

definition filechangesize :: "nat \<Rightarrow> int \<Rightarrow> int kern" where
  "filechangesize f n =
     kbind (kget (file_of f)) (\<lambda>x.
     if \<not> f_writable x then kret (- 1)
     else if f_type x = FD_INODE then
       kseq begin_op (
       kseq (ilock (f_ip x)) (
       kbind (deref (f_ip x) (\<lambda>ip. changesize ip (of_int n))) (\<lambda>r.
       kseq (kwhen (r > 0) (kmod (upd_file f (\<lambda>x. x\<lparr>f_off := of_int r\<rparr>)))) (
       kseq (iunlock (f_ip x)) (
       kseq end_op (
       kret r))))))
     else kpanic ''filechangesize'')"

text \<open>\<open>pipealloc\<close> returns its result and what it leaves in \<open>*f0\<close> and \<open>*f1\<close>; \<open>pipealloc_bad\<close> is what follows the label \<open>bad\<close>.\<close>

definition pipealloc_bad :: "ksyms \<Rightarrow> 32 word \<Rightarrow> nat option \<Rightarrow> nat option \<Rightarrow> (int \<times> nat option \<times> nat option) kern" where
  "pipealloc_bad ks p f0 f1 =
     kseq (kwhen (p \<noteq> 0) (kfree (k_end ks) p)) (
     kseq (case f0 of None \<Rightarrow> kret () | Some f \<Rightarrow> fileclose ks f) (
     kseq (case f1 of None \<Rightarrow> kret () | Some f \<Rightarrow> fileclose ks f) (
     kret (- 1, f0, f1))))"

definition pipealloc_open :: "nat \<Rightarrow> nat \<Rightarrow> 32 word \<Rightarrow> (int \<times> nat option \<times> nat option) kern" where
  "pipealloc_open a b p =
     kseq (kmod (upd_pipe p (\<lambda>q. q\<lparr>readopen := True\<rparr>))) (
     kseq (kmod (upd_pipe p (\<lambda>q. q\<lparr>writeopen := True\<rparr>))) (
     kseq (kmod (upd_pipe p (\<lambda>q. q\<lparr>nwrite := 0\<rparr>))) (
     kseq (kmod (upd_pipe p (\<lambda>q. q\<lparr>nread := 0\<rparr>))) (
     kseq (initlock (PipeLk p) ''pipe'') (
     kseq (kmod (upd_file a (\<lambda>x. x\<lparr>f_type := FD_PIPE, f_readable := True, f_writable := False, f_pipe := Some p\<rparr>))) (
     kseq (kmod (upd_file b (\<lambda>x. x\<lparr>f_type := FD_PIPE, f_readable := False, f_writable := True, f_pipe := Some p\<rparr>))) (
     kret (0, Some a, Some b))))))))"

definition pipealloc :: "ksyms \<Rightarrow> (int \<times> nat option \<times> nat option) kern" where
  "pipealloc ks =
     kbind filealloc (\<lambda>f0. case f0 of None \<Rightarrow> pipealloc_bad ks 0 None None | Some a \<Rightarrow>
     kbind filealloc (\<lambda>f1. case f1 of None \<Rightarrow> pipealloc_bad ks 0 f0 None | Some b \<Rightarrow>
     kbind kalloc (\<lambda>p.
     if p = 0 then pipealloc_bad ks 0 f0 f1 else pipealloc_open a b p)))"

subsection \<open>The table\<close>

lemma upd_file_fields [simp]:
  "ftable (fsys (upd_file f g s)) = upd f g (ftable (fsys s))" "procs (upd_file f g s) = procs s" "pipes (upd_file f g s) = pipes s"
  "ready l (upd_file f g s) = ready l s" "cpu_wf (upd_file f g s) = cpu_wf s" "use_lock (upd_file f g s) = use_lock s"
  "freelist (upd_file f g s) = freelist s" "ram (upd_file f g s) = ram s"
  by (simp_all add: upd_file_def)

lemma upd_file_sect [crit_simps]:
  "core (upd_file f g s) = upd_file f g (core s)" "upd_file f g (acquired l s) = acquired l (upd_file f g s)"
  by (simp_all add: upd_file_def core_upd acquired_upd)

lemma upd_file_upd: "upd_file f g (upd_file f h s) = upd_file f (\<lambda>x. g (h x)) s"
  by (simp add: upd_file_def)

lemma file_of_upd [simp]: "f < length (ftable (fsys s)) \<Longrightarrow> file_of f (upd_file f g s) = g (file_of f s)"
  by (simp add: file_of_def)

lemma upd_file_same: "g (file_of f s) = file_of f s \<Longrightarrow> upd_file f g s = s"
  by (simp add: upd_file_def upd_def file_of_def)

lemma upd_file_cong: "g (file_of f s) = h (file_of f s) \<Longrightarrow> upd_file f g s = upd_file f h s"
  by (simp add: upd_file_def upd_def file_of_def)

lemma file_of_core: "core t = core s \<Longrightarrow> file_of f t = file_of f s"
  using core_eq_data(21) [of t s] by (simp add: file_of_def)

lemma core_upd_file: "core t = core s \<Longrightarrow> core (upd_file f g t) = core (upd_file f g s)"
  by (simp add: upd_file_sect)

definition free_file :: "kworld \<Rightarrow> nat option" where
  "free_file s = find_idx (\<lambda>f. f_ref f = 0) (ftable (fsys s))"

lemma free_file_acquired [simp]: "free_file (acquired l s) = free_file s"
  by (simp add: free_file_def)

lemma filealloc_run:
  assumes "ready FtableLock s"
  shows "wp filealloc (\<lambda>r t. r = free_file s
    \<and> core t = core (case free_file s of None \<Rightarrow> s | Some f \<Rightarrow> upd_file f (\<lambda>x. x\<lparr>f_ref := 1\<rparr>) s)) s"
proof -
  have lv: "wp (release FtableLock) (\<lambda>_ t. core t = core u) (acquired FtableLock u)" if "ready FtableLock u" for u
    using wp_leave [OF refl that] .
  show ?thesis
    using assms lv [of s] lv [of "upd_file f (\<lambda>x. x\<lparr>f_ref := 1\<rparr>) s" for f]
    by (cases "free_file s") (simp_all add: filealloc_def wp_simps wp_acquire_ready upd_file_sect free_file_def [symmetric])
qed

lemma filedup_run:
  assumes "ready FtableLock s"
  shows "1 \<le> f_ref (file_of f s) \<Longrightarrow> wp (filedup f) (\<lambda>r t. r = f \<and> core t = core (upd_file f (\<lambda>x. x\<lparr>f_ref := f_ref x + 1\<rparr>) s)) s"
    and "f_ref (file_of f s) < 1 \<Longrightarrow> filedup f s = Panic ''filedup''"
proof -
  have fo: "file_of f (acquired FtableLock s) = file_of f s" by (simp add: file_of_def)
  have lv: "wp (release FtableLock) (\<lambda>_ t. core t = core u) (acquired FtableLock u)" if "ready FtableLock u" for u
    using wp_leave [OF refl that] .
  show "1 \<le> f_ref (file_of f s) \<Longrightarrow> wp (filedup f) (\<lambda>r t. r = f \<and> core t = core (upd_file f (\<lambda>x. x\<lparr>f_ref := f_ref x + 1\<rparr>) s)) s"
    using assms lv [of "upd_file f (\<lambda>x. x\<lparr>f_ref := f_ref x + 1\<rparr>) s"] by (simp add: filedup_def wp_simps wp_acquire_ready upd_file_sect fo)
  show "f_ref (file_of f s) < 1 \<Longrightarrow> filedup f s = Panic ''filedup''"
    using assms by (simp add: filedup_def ready_def acquire_run fo)
qed

definition dropped :: "nat \<Rightarrow> kworld \<Rightarrow> kworld" where
  "dropped f s = upd_file f (\<lambda>x. if f_ref x = 1 then x\<lparr>f_ref := 0, f_type := FD_NONE\<rparr> else x\<lparr>f_ref := f_ref x - 1\<rparr>) s"

lemma dropped_fields [simp]:
  "ready l (dropped f s) = ready l s" "procs (dropped f s) = procs s" "pipes (dropped f s) = pipes s" "use_lock (dropped f s) = use_lock s"
  by (simp_all add: dropped_def)

text \<open>\<open>fileclose\<close>: drop the reference, and what is left to do with the last one.\<close>

lemma fileclose_run:
  assumes "ready FtableLock s" and "f < length (ftable (fsys s))" and "1 \<le> f_ref (file_of f s)"
    and "\<And>t. core t = core (dropped f s) \<Longrightarrow> f_ref (file_of f s) = 1 \<Longrightarrow>
      wp (if f_type (file_of f s) = FD_PIPE then deref (f_pipe (file_of f s)) (\<lambda>p. pipeclose ks p (f_writable (file_of f s)))
         else kwhen (f_type (file_of f s) = FD_INODE) (kseq begin_op (kseq (deref (f_ip (file_of f s)) iput) end_op))) Q t"
    and "\<And>t. core t = core (dropped f s) \<Longrightarrow> f_ref (file_of f s) \<noteq> 1 \<Longrightarrow> Q () t"
  shows "wp (fileclose ks f) Q s"
proof -
  let ?l = FtableLock
  have fo: "file_of f (acquired ?l u) = file_of f u" for u by (simp add: file_of_def)
  define rest where "rest = (if f_type (file_of f s) = FD_PIPE then deref (f_pipe (file_of f s)) (\<lambda>p. pipeclose ks p (f_writable (file_of f s)))
         else kwhen (f_type (file_of f s) = FD_INODE) (kseq begin_op (kseq (deref (f_ip (file_of f s)) iput) end_op)))"
  have lv: "wp (release ?l) R (acquired ?l (dropped f s))" if "\<And>t. core t = core (dropped f s) \<Longrightarrow> R () t" for R
    by (rule wp_release_core [OF refl]) (use assms(1) that in simp_all)
  show ?thesis
  proof (cases "f_ref (file_of f s) = 1")
    case True
    have "upd_file f (\<lambda>x. x\<lparr>f_ref := 0, f_type := FD_NONE\<rparr>) s = dropped f s"
      unfolding dropped_def using True by (intro upd_file_cong) simp
    moreover have "wp (release ?l) (\<lambda>_. wp rest Q) (acquired ?l (dropped f s))"
      using assms(4) [OF _ True] by (intro lv) (simp only: rest_def)
    ultimately show ?thesis
      using assms(1,2) True
      by (cases "f_type (file_of f s) = FD_PIPE") (simp_all add: fileclose_def wp_seq wp_bind wp_get wp_mod wp_acquire_ready fo upd_file_sect upd_file_upd rest_def)
  next
    case False
    have "upd_file f (\<lambda>x. x\<lparr>f_ref := f_ref x - 1\<rparr>) s = dropped f s"
      unfolding dropped_def using False by (intro upd_file_cong) simp
    moreover have "0 < f_ref (file_of f (dropped f s))" using False assms(2,3) by (simp add: dropped_def)
    ultimately show ?thesis
      using assms(1-3,5) False lv [of Q] by (simp add: fileclose_def wp_seq wp_bind wp_get wp_mod wp_acquire_ready fo upd_file_sect)
  qed
qed

text \<open>Unused entries have no type.\<close>

definition files_ok :: "kworld \<Rightarrow> bool" where
  "files_ok s \<longleftrightarrow> (\<forall>x \<in> set (ftable (fsys s)). f_ref x = 0 \<longrightarrow> f_type x = FD_NONE)"

lemma free_fileD:
  assumes "free_file s = Some f"
  shows "f < length (ftable (fsys s))" and "f_ref (file_of f s) = 0" and "files_ok s \<Longrightarrow> f_type (file_of f s) = FD_NONE"
  using find_idx_SomeD [OF assms [unfolded free_file_def]] by (simp_all add: files_ok_def file_of_def)

definition taken_file :: "nat \<Rightarrow> kworld \<Rightarrow> kworld" where
  "taken_file f = upd_file f (\<lambda>x. x\<lparr>f_ref := 1\<rparr>)"

lemma taken_file_fields [simp]:
  "ready l (taken_file f s) = ready l s" "use_lock (taken_file f s) = use_lock s" "cpu_wf (taken_file f s) = cpu_wf s"
  "freelist (taken_file f s) = freelist s" "length (ftable (fsys (taken_file f s))) = length (ftable (fsys s))"
  by (simp_all add: taken_file_def)

text \<open>Closing a file that has just been allocated puts the table back.\<close>

lemma dropped_taken:
  assumes "f < length (ftable (fsys s))" and "f_ref (file_of f s) = 0" and "f_type (file_of f s) = FD_NONE"
  shows "dropped f (taken_file f s) = s"
  unfolding dropped_def taken_file_def upd_file_upd using assms by (intro upd_file_same) simp

lemma fileclose_fresh:
  assumes "core t = core (taken_file f s)" and "ready FtableLock s" and "f < length (ftable (fsys s))"
    and "f_ref (file_of f s) = 0" and "f_type (file_of f s) = FD_NONE"
  shows "wp (fileclose ks f) (\<lambda>_ u. core u = core s) t"
proof (rule fileclose_run)
  have f: "file_of f t = (file_of f s)\<lparr>f_ref := 1\<rparr>" using file_of_core [OF assms(1)] assms(3) by (simp add: taken_file_def)
  show "ready FtableLock t" using core_eq_locks(5) [OF assms(1)] assms(2) by simp
  show "f < length (ftable (fsys t))" using core_eq_data(21) [OF assms(1)] assms(3) by (simp add: taken_file_def)
  show "1 \<le> f_ref (file_of f t)" using f by simp
  fix u
  assume u: "core u = core (dropped f t)"
  have "core (dropped f t) = core (dropped f (taken_file f s))" unfolding dropped_def using assms(1) by (rule core_upd_file)
  then have c: "core u = core s" using u dropped_taken [OF assms(3-5)] by simp
  show "wp (if f_type (file_of f t) = FD_PIPE then deref (f_pipe (file_of f t)) (\<lambda>p. pipeclose ks p (f_writable (file_of f t)))
         else kwhen (f_type (file_of f t) = FD_INODE) (kseq begin_op (kseq (deref (f_ip (file_of f t)) iput) end_op))) (\<lambda>_ u. core u = core s) u"
    using f assms(5) c by (simp add: wp_simps)
  show "f_ref (file_of f t) \<noteq> 1 \<Longrightarrow> core u = core s" using f by simp
qed

lemma upd_file_swap: "a \<noteq> b \<Longrightarrow> upd_file a g (upd_file b h s) = upd_file b h (upd_file a g s)"
  by (simp add: upd_file_def upd_def list_update_swap)

lemma upd_file_commute:
  "upd_pipe p f (upd_file a g s) = upd_file a g (upd_pipe p f s)" "upd_lock l k (upd_file a g s) = upd_file a g (upd_lock l k s)"
  by (simp_all add: upd_file_def upd_pipe_def upd_lock_def)

text \<open>The state after a successful \<open>pipealloc\<close>.\<close>

definition piped :: "nat \<Rightarrow> nat \<Rightarrow> 32 word \<Rightarrow> kworld \<Rightarrow> kworld" where
  "piped a b p s =
     upd_file b (\<lambda>x. x\<lparr>f_ref := 1, f_type := FD_PIPE, f_readable := False, f_writable := True, f_pipe := Some p\<rparr>) (
     upd_file a (\<lambda>x. x\<lparr>f_ref := 1, f_type := FD_PIPE, f_readable := True, f_writable := False, f_pipe := Some p\<rparr>) (
     upd_lock (PipeLk p) (\<lambda>k. k\<lparr>lk_name := ''pipe'', lk_locked := False, lk_cpu := None\<rparr>) (
     upd_pipe p (\<lambda>q. q\<lparr>readopen := True, writeopen := True, nwrite := 0, nread := 0\<rparr>) (
     kalloced s))))"

lemma filealloc_from:
  assumes "core t = core s" and "ready FtableLock s"
    and "\<And>u. free_file s = None \<Longrightarrow> core u = core s \<Longrightarrow> Q None u"
    and "\<And>f u. free_file s = Some f \<Longrightarrow> core u = core (taken_file f s) \<Longrightarrow> Q (Some f) u"
  shows "wp filealloc Q t"
proof -
  have "free_file t = free_file s" using core_eq_data(21) [OF assms(1)] by (simp add: free_file_def)
  moreover have "core (taken_file f t) = core (taken_file f s)" for f unfolding taken_file_def using assms(1) by (rule core_upd_file)
  moreover have "wp filealloc (\<lambda>r u. r = free_file t \<and> core u = core (case free_file t of None \<Rightarrow> t | Some f \<Rightarrow> taken_file f t)) t"
    using filealloc_run [of t] core_eq_locks(5) [OF assms(1)] assms(2) by (simp add: taken_file_def cong: option.case_cong)
  ultimately show ?thesis
    using assms(1,3,4) by (cases "free_file s") (auto elim!: wp_conseq)
qed

lemma pipealloc_no_page:
  assumes "core t = core (taken_file b (taken_file a s))" and "ready FtableLock s" and "files_ok s"
    and "free_file s = Some a" and "free_file (taken_file a s) = Some b"
  shows "wp (pipealloc_bad ks 0 (Some a) (Some b)) (\<lambda>(r, f0, f1) t. r = - 1 \<and> core t = core s) t"
proof -
  note a = free_fileD [OF assms(4)] and b = free_fileD [OF assms(5)]
  have ab: "a \<noteq> b" using a(1) b(2) by (auto simp: taken_file_def)
  have fb: "file_of b (taken_file a s) = file_of b s" using ab by (simp add: taken_file_def file_of_def)
  have fa: "file_of a (taken_file b s) = file_of a s" using ab by (simp add: taken_file_def file_of_def)
  have tb: "f_type (file_of b s) = FD_NONE" using assms(3) b(1,2) fb by (simp add: files_ok_def file_of_def)
  have sw: "taken_file b (taken_file a s) = taken_file a (taken_file b s)"
    using ab by (simp add: taken_file_def upd_file_def upd_def list_update_swap)
  have "wp (fileclose ks a) (\<lambda>_ u. core u = core (taken_file b s)) t"
    using assms(1,2) a(1,2) a(3) [OF assms(3)] fa by (intro fileclose_fresh) (simp_all add: sw)
  moreover have "wp (fileclose ks b) (\<lambda>_ u. core u = core s) u" if "core u = core (taken_file b s)" for u
    using that assms(2) b(1,2) tb fb by (intro fileclose_fresh) simp_all
  ultimately show ?thesis by (auto simp: pipealloc_bad_def wp_simps elim!: wp_conseq)
qed

lemma kalloc_from:
  assumes "core t = core s" and "cpu_wf s" and "use_lock s \<Longrightarrow> ready KmemLock s"
    and "\<And>u. core u = core (kalloced s) \<Longrightarrow> Q (freelist s) u"
  shows "wp kalloc Q t"
proof (rule wp_conseq [OF kalloc_run])
  note d = core_eq_data(5,13,14) [OF assms(1)] and l = core_eq_locks(1,5) [OF assms(1)]
  show "cpu_wf t" "use_lock t \<Longrightarrow> ready KmemLock t" using d l assms(2,3) by simp_all
  fix r u
  assume "r = freelist t \<and> core u = core (kalloced t)"
  moreover have "core (kalloced t) = core (kalloced s)" using d(1,3) assms(1) by (simp add: kalloced_def core_upd)
  ultimately show "Q r u" using assms(4) d(3) by simp
qed

lemma piped_run:
  assumes "core t = core (kalloced (taken_file b (taken_file a s)))" and "a \<noteq> b"
  shows "wp (pipealloc_open a b p) (\<lambda>r u. r = (0, Some a, Some b) \<and> core u = core (piped a b p s)) t"
proof -
  have lk: "core (upd_lock l (\<lambda>k. k\<lparr>lk_name := n, lk_locked := x, lk_cpu := y\<rparr>) u)
      = upd_lock l (\<lambda>k. k\<lparr>lk_name := n, lk_locked := x, lk_cpu := y\<rparr>) (core u)" for u l n x y
    by (simp add: core_def upd_lock_def fun_eq_iff)
  have "kalloced (taken_file b (taken_file a s)) = taken_file b (taken_file a (kalloced s))"
    by (simp add: kalloced_def taken_file_def upd_file_def)
  then have "core t = taken_file b (taken_file a (core (kalloced s)))" using assms(1) by (simp add: taken_file_def upd_file_sect)
  then show ?thesis
    using upd_file_swap [OF assms(2)]
    by (simp add: pipealloc_open_def wp_simps initlock_def upd_pipe_upd piped_def upd_file_sect upd_pipe_sect lk taken_file_def
        upd_file_commute upd_file_upd)
qed

lemma pipealloc_third:
  assumes "ready FtableLock s" and "files_ok s" and "use_lock s \<Longrightarrow> ready KmemLock s"
    and "free_file s = Some a" and "free_file (taken_file a s) = Some b" and "core u = core (taken_file b (taken_file a s))"
  shows "wp (kbind kalloc (\<lambda>p. if p = 0 then pipealloc_bad ks 0 (Some a) (Some b) else pipealloc_open a b p))
    (\<lambda>(r, f0, f1) t. if freelist s \<noteq> 0 then r = 0 \<and> f0 = Some a \<and> f1 = Some b \<and> a \<noteq> b \<and> core t = core (piped a b (freelist s) s)
       else r = - 1 \<and> core t = core s) u"
  unfolding wp_bind
proof (rule kalloc_from [OF assms(6)])
  have ab: "a \<noteq> b" using free_fileD [OF assms(4)] free_fileD [OF assms(5)] by (auto simp: taken_file_def)
  fix v
  assume v: "core v = core (kalloced (taken_file b (taken_file a s)))"
  have "freelist s = 0 \<Longrightarrow> core v = core (taken_file b (taken_file a s))" using v by (simp add: kalloced_def freelist_same)
  then have "freelist s = 0 \<Longrightarrow> wp (pipealloc_bad ks 0 (Some a) (Some b)) (\<lambda>(r, f0, f1) t. r = - 1 \<and> core t = core s) v"
    using pipealloc_no_page [OF _ assms(1,2,4,5)] by simp
  then show "wp (if freelist (taken_file b (taken_file a s)) = 0 then pipealloc_bad ks 0 (Some a) (Some b)
      else pipealloc_open a b (freelist (taken_file b (taken_file a s)))) (\<lambda>(r, f0, f1) t. if freelist s \<noteq> 0 then r = 0 \<and> f0 = Some a
        \<and> f1 = Some b \<and> a \<noteq> b \<and> core t = core (piped a b (freelist s) s) else r = - 1 \<and> core t = core s) v"
    using ab piped_run [OF v ab, of "freelist s"] by (auto elim!: wp_conseq)
qed (use ready_cpu_wf [OF assms(1)] assms(3) in simp_all)

lemma pipealloc_second:
  assumes "ready FtableLock s" and "files_ok s" and "free_file s = Some a" and "core u = core (taken_file a s)"
  shows "wp (pipealloc_bad ks 0 (Some a) None) (\<lambda>(r, f0, f1) t. r = - 1 \<and> core t = core s) u"
  using fileclose_fresh [OF assms(4,1) free_fileD(1,2) [OF assms(3)] free_fileD(3) [OF assms(3,2)], of ks]
  by (auto simp: pipealloc_bad_def wp_simps elim!: wp_conseq)

subsection \<open>Properties\<close>

text \<open>
  C38. \<open>pipealloc\<close> gives two files or nothing.  It succeeds exactly when two table entries are free
  and there is a page, and then the two entries are the read end and the write end of a new
  empty pipe in that page; in every other case, whichever allocation fails, it returns -1 and has put
  back all that it had allocated.
\<close>

theorem pipealloc_all_or_nothing:
  assumes "ready FtableLock s" and "files_ok s" and "use_lock s \<Longrightarrow> ready KmemLock s"
  shows "wp (pipealloc ks) (\<lambda>(r, f0, f1) t.
     case free_file s of
       Some a \<Rightarrow>
         (case free_file (taken_file a s) of
            Some b \<Rightarrow> if freelist s \<noteq> 0 then r = 0 \<and> f0 = Some a \<and> f1 = Some b \<and> a \<noteq> b \<and> core t = core (piped a b (freelist s) s)
              else r = - 1 \<and> core t = core s
          | None \<Rightarrow> r = - 1 \<and> core t = core s)
     | None \<Rightarrow> r = - 1 \<and> core t = core s) s"
  unfolding pipealloc_def wp_bind [of filealloc]
proof (rule filealloc_from [OF refl assms(1)], goal_cases)
  case (1 u)
  then show ?case by (simp add: pipealloc_bad_def wp_simps)
next
  case (2 a u)
  have "wp filealloc (\<lambda>f1. wp (case f1 of None \<Rightarrow> pipealloc_bad ks 0 (Some a) None | Some b \<Rightarrow>
      kbind kalloc (\<lambda>p. if p = 0 then pipealloc_bad ks 0 (Some a) f1 else pipealloc_open a b p)) (\<lambda>(r, f0, f1) t.
         case free_file (taken_file a s) of
            Some b \<Rightarrow> if freelist s \<noteq> 0 then r = 0 \<and> f0 = Some a \<and> f1 = Some b \<and> a \<noteq> b \<and> core t = core (piped a b (freelist s) s)
              else r = - 1 \<and> core t = core s
          | None \<Rightarrow> r = - 1 \<and> core t = core s)) u"
  proof (rule filealloc_from [OF 2(2)], goal_cases)
    case 1
    then show ?case using assms(1) by simp
  next
    case (2 v)
    then show ?case using pipealloc_second [OF assms(1,2) \<open>free_file s = Some a\<close>] by simp
  next
    case (3 b v)
    then show ?case using pipealloc_third [OF assms \<open>free_file s = Some a\<close>] by simp
  qed
  then show ?case using 2(1) by (simp add: wp_bind [of filealloc])
qed

theorem pipealloc_all_or_nothing_witness:
  "wp (pipealloc demo_syms) (\<lambda>(r, f0, f1) t. r = - 1 \<and> core t = core demo) demo"
proof -
  have "free_file demo = Some 0" "free_file (taken_file 0 demo) = Some 1" "files_ok demo"
    by (simp_all add: free_file_def taken_file_def upd_def demo_def upd_cpu_def bss_def zero_fs_def zero_file_def files_ok_def eval_nat_numeral upd_file_def)
  then show ?thesis using pipealloc_all_or_nothing [of demo demo_syms] by simp
qed



end
