(* ===== verification/Sh.thy ===== *)
theory Sh
  imports Prelude
begin

section \<open>The shell's parser (sh.c)\<close>

text \<open>
  The recursive-descent parser of the shell.  The line is a C string, the list \<open>line\<close> of its
  characters before the terminating zero; \<open>es\<close> is its length, and a pointer into the line is a
  position.  A word is the pair of its start \<open>q\<close> and its end \<open>eq\<close>.  The parser gives a command tree
  and the position it has reached, or dies with what it prints on file descriptor 2.  The four
  functions that call each other take fuel, and are shown not to run out of it.  Memory for the
  nodes of the tree is taken to be there: the code does not look at the result of \<open>malloc\<close>.
  Last, \<open>nulterminate\<close> writes a zero after every word, so that each pointer \<open>q\<close> becomes a C string.
\<close>

subsection \<open>Definitions: commands\<close>

datatype cmd =
    EXEC "(nat \<times> nat) list"
  | REDIR cmd nat nat int int
  | PIPE cmd cmd
  | LIST cmd cmd
  | BACK cmd

abbreviation (input) MAXARGS :: nat where "MAXARGS \<equiv> 10"
abbreviation (input) O_RDONLY :: int where "O_RDONLY \<equiv> 0"
abbreviation (input) O_WRONLY_CREATE :: int where "O_WRONLY_CREATE \<equiv> 0x201"
abbreviation (input) NUL :: char where "NUL \<equiv> CHR 0x00"

definition execcmd :: cmd where
  "execcmd = EXEC []"

definition redircmd :: "cmd \<Rightarrow> nat \<Rightarrow> nat \<Rightarrow> int \<Rightarrow> int \<Rightarrow> cmd" where
  "redircmd subcmd file efile mode fd = REDIR subcmd file efile mode fd"

definition pipecmd :: "cmd \<Rightarrow> cmd \<Rightarrow> cmd" where
  "pipecmd left right = PIPE left right"

definition listcmd :: "cmd \<Rightarrow> cmd \<Rightarrow> cmd" where
  "listcmd left right = LIST left right"

definition backcmd :: "cmd \<Rightarrow> cmd" where
  "backcmd subcmd = BACK subcmd"

lemmas constructors = execcmd_def redircmd_def pipecmd_def listcmd_def backcmd_def

text \<open>
  \<open>parseexec\<close> keeps a pointer to the \<open>execcmd\<close> node and fills in its arguments after it has been
  wrapped in redirections.
\<close>

fun set_argv :: "(nat \<times> nat) list \<Rightarrow> cmd \<Rightarrow> cmd" where
  "set_argv argv (REDIR c q eq m fd) = REDIR (set_argv argv c) q eq m fd"
| "set_argv argv c = EXEC argv"

subsection \<open>Definitions: tokens\<close>

definition whitespace :: string where
  "whitespace = [CHR '' '', CHR 0x09, CHR 0x0D, CHR 0x0A, CHR 0x0B]"

definition symbols :: string where
  "symbols = ''<|>&;()''"

definition char_at :: "string \<Rightarrow> nat \<Rightarrow> char" where
  "char_at line s = (if s < length line then line ! s else NUL)"

function skip_white :: "string \<Rightarrow> nat \<Rightarrow> nat" where
  "skip_white line s = (if s < length line \<and> line ! s \<in> set whitespace then skip_white line (Suc s) else s)"
  by pat_completeness auto
termination by (relation "measure (\<lambda>(line, s). length line - s)") auto

function skip_word :: "string \<Rightarrow> nat \<Rightarrow> nat" where
  "skip_word line s =
     (if s < length line \<and> line ! s \<notin> set whitespace \<and> line ! s \<notin> set symbols then skip_word line (Suc s) else s)"
  by pat_completeness auto
termination by (relation "measure (\<lambda>(line, s). length line - s)") auto

declare skip_white.simps [simp del] and skip_word.simps [simp del]

definition gettoken :: "string \<Rightarrow> nat \<Rightarrow> char \<times> nat \<times> nat \<times> nat" where
  "gettoken line s0 =
     (let q = skip_white line s0;
          c = char_at line q;
          (ret, eq) =
            (if c = NUL then (NUL, q)
             else if c \<in> set ''|();&<'' then (c, q + 1)
             else if c = CHR ''>'' then
               if char_at line (q + 1) = CHR ''>'' then (CHR ''+'', q + 2) else (c, q + 1)
             else (CHR ''a'', skip_word line q)) in
      (ret, q, eq, skip_white line eq))"

definition peek :: "string \<Rightarrow> string \<Rightarrow> nat \<Rightarrow> bool \<times> nat" where
  "peek line toks s0 = (let s = skip_white line s0 in (char_at line s \<noteq> NUL \<and> char_at line s \<in> set toks, s))"

subsection \<open>Definitions: the parser\<close>

datatype 'a parse = Parsed 'a nat | Dies string | NoFuel

fun pbind :: "'a parse \<Rightarrow> ('a \<Rightarrow> nat \<Rightarrow> 'b parse) \<Rightarrow> 'b parse" where
  "pbind (Parsed x s) f = f x s"
| "pbind (Dies e) f = Dies e"
| "pbind NoFuel f = NoFuel"

abbreviation (input) nl :: string where "nl \<equiv> [CHR 0x0A]"

definition panic_sh :: "string \<Rightarrow> 'a parse" where
  "panic_sh s = Dies (s @ nl)"

text \<open>Scanning moves forward.\<close>

lemma skip_white_ge: "s \<le> skip_white line s"
proof (induction line s rule: skip_white.induct)
  case (1 line s)
  then show ?case by (subst skip_white.simps) (auto intro: Suc_leD)
qed

lemma skip_word_ge: "s \<le> skip_word line s"
proof (induction line s rule: skip_word.induct)
  case (1 line s)
  then show ?case by (subst skip_word.simps) (auto intro: Suc_leD)
qed

lemma gettoken_forward: "gettoken line s = (tok, q, eq, s') \<Longrightarrow> s \<le> q \<and> q \<le> eq \<and> eq \<le> s' \<and> s \<le> s'"
  using skip_white_ge [of s line] skip_white_ge [of eq line] skip_word_ge [of q line]
  by (auto simp: gettoken_def Let_def split: if_splits)

lemma peek_forward: "peek line toks s = (b, s') \<Longrightarrow> s \<le> s'"
  using skip_white_ge [of s line] by (auto simp: peek_def Let_def)

lemma skip_white_le: "s \<le> length line \<Longrightarrow> skip_white line s \<le> length line"
proof (induction line s rule: skip_white.induct)
  case (1 line s)
  then show ?case by (subst skip_white.simps) auto
qed

lemma skip_word_le: "s \<le> length line \<Longrightarrow> skip_word line s \<le> length line"
proof (induction line s rule: skip_word.induct)
  case (1 line s)
  then show ?case by (subst skip_word.simps) auto
qed

lemma skip_white_stop: "skip_white line s < length line \<Longrightarrow> line ! skip_white line s \<notin> set whitespace"
proof (induction line s rule: skip_white.induct)
  case (1 line s)
  show ?case
  proof (cases "s < length line \<and> line ! s \<in> set whitespace")
    case True
    then have "skip_white line s = skip_white line (Suc s)" by (subst skip_white.simps) simp
    then show ?thesis using 1 True by simp
  next
    case False
    then have "skip_white line s = s" by (subst skip_white.simps) auto
    then show ?thesis using 1(2) False by simp
  qed
qed

lemma skip_white_idem: "skip_white line (skip_white line s) = skip_white line s"
  using skip_white_stop [of line s] by (subst (1) skip_white.simps) auto

lemma char_at_NUL: "char_at line s \<noteq> NUL \<Longrightarrow> s < length line"
  by (simp add: char_at_def split: if_splits)

lemma gettoken_progress:
  assumes "gettoken line s = (tok, q, eq, s')" and "tok \<noteq> NUL"
  shows "s < s'" and "s < length line"
proof -
  let ?q = "skip_white line s"
  have ne: "char_at line ?q \<noteq> NUL" using assms by (auto simp: gettoken_def Let_def)
  then have l: "?q < length line" by (rule char_at_NUL)
  then have w: "line ! ?q \<notin> set whitespace" by (rule skip_white_stop)
  have "line ! ?q \<notin> set symbols \<Longrightarrow> ?q < skip_word line ?q"
    using l w skip_word_ge [of "Suc ?q" line] by (subst skip_word.simps) simp
  then have "?q < eq" using assms(1) ne l by (auto simp: gettoken_def Let_def char_at_def symbols_def split: if_splits)
  moreover have "eq \<le> s'" "q = ?q" using gettoken_forward [OF assms(1)] assms(1) by (auto simp: gettoken_def Let_def split: if_splits)
  ultimately show "s < s'" "s < length line" using skip_white_ge [of s line] l by linarith+
qed

lemma peek_true: "peek line toks s = (True, s') \<Longrightarrow> s' < length line \<and> line ! s' \<in> set toks \<and> skip_white line s' = s'"
  using char_at_NUL [of line s'] by (auto simp: peek_def Let_def skip_white_idem char_at_def split: if_splits)

lemma peek_token:
  assumes "peek line toks s = (True, s1)" and "gettoken line s1 = (tok, q, eq, s2)"
  shows "s < s2" and "s < length line"
proof -
  have p: "s1 < length line" "char_at line s1 \<noteq> NUL" "skip_white line s1 = s1"
    using assms(1) peek_true [OF assms(1)] by (auto simp: peek_def Let_def)
  have "tok \<noteq> NUL" using assms(2) p by (auto simp: gettoken_def Let_def split: if_splits)
  then show "s < s2" "s < length line" using gettoken_progress [OF assms(2)] peek_forward [OF assms(1)] by linarith+
qed

lemma peek_measure:
  "(True, s1) = peek line toks s \<Longrightarrow> (tok, q, eq, s2) = gettoken line s1 \<Longrightarrow> s2 \<le> s3
    \<Longrightarrow> length line - s3 < length line - s"
  using peek_token [of line toks s s1 tok q eq s2] by auto

function parseredirs :: "string \<Rightarrow> cmd \<Rightarrow> nat \<Rightarrow> cmd parse" where
  "parseredirs line cmd s =
     (case peek line ''<>'' s of
        (False, s1) \<Rightarrow> Parsed cmd s1
      | (True, s1) \<Rightarrow>
          (case gettoken line s1 of (tok, _, _, s2) \<Rightarrow>
           case gettoken line s2 of (tok2, q, eq, s3) \<Rightarrow>
           if tok2 \<noteq> CHR ''a'' then panic_sh ''missing file for redirection''
           else
             parseredirs line
               (if tok = CHR ''<'' then redircmd cmd q eq O_RDONLY 0
                else if tok = CHR ''>'' then redircmd cmd q eq O_WRONLY_CREATE 1
                else if tok = CHR ''+'' then redircmd cmd q eq O_WRONLY_CREATE 1
                else cmd) s3))"
  by pat_completeness auto
termination
  by (relation "measure (\<lambda>(line, cmd, s). length line - s)")
    (auto intro: peek_measure dest: gettoken_forward [OF sym])

declare parseredirs.simps [simp del]

text \<open>The loop of \<open>parseexec\<close> over the words.\<close>

function parseargs :: "string \<Rightarrow> cmd \<Rightarrow> (nat \<times> nat) list \<Rightarrow> nat \<Rightarrow> cmd parse" where
  "parseargs line ret argv s =
     (case peek line ''|)&;'' s of
        (True, s1) \<Rightarrow> Parsed (set_argv argv ret) s1
      | (False, s1) \<Rightarrow>
          (case gettoken line s1 of (tok, q, eq, s2) \<Rightarrow>
           if tok = NUL then Parsed (set_argv argv ret) s2
           else if tok \<noteq> CHR ''a'' then panic_sh ''syntax''
           else if length argv + 1 \<ge> MAXARGS then panic_sh ''too many args''
           else pbind (parseredirs line ret s2) (\<lambda>ret' s3. parseargs line ret' (argv @ [(q, eq)]) s3)))"
  by pat_completeness auto
termination by (relation "measure (\<lambda>(line, ret, argv, s). MAXARGS - length argv)") auto

declare parseargs.simps [simp del]

text \<open>The loop of \<open>parseline\<close> over \<open>&\<close>.\<close>

function parseback :: "string \<Rightarrow> cmd \<Rightarrow> nat \<Rightarrow> cmd \<times> nat" where
  "parseback line cmd s =
     (case peek line ''&'' s of
        (False, s1) \<Rightarrow> (cmd, s1)
      | (True, s1) \<Rightarrow> (case gettoken line s1 of (_, _, _, s2) \<Rightarrow> parseback line (backcmd cmd) s2))"
  by pat_completeness auto
termination
  by (relation "measure (\<lambda>(line, cmd, s). length line - s)")
    (auto intro: peek_measure dest: gettoken_forward [OF sym])

declare parseback.simps [simp del]

fun parseline :: "nat \<Rightarrow> string \<Rightarrow> nat \<Rightarrow> cmd parse"
  and parsepipe :: "nat \<Rightarrow> string \<Rightarrow> nat \<Rightarrow> cmd parse"
  and parseexec :: "nat \<Rightarrow> string \<Rightarrow> nat \<Rightarrow> cmd parse"
  and parseblock :: "nat \<Rightarrow> string \<Rightarrow> nat \<Rightarrow> cmd parse" where
  "parseline 0 line s = NoFuel"
| "parseline (Suc n) line s =
     pbind (parsepipe n line s) (\<lambda>cmd0 s0.
     case parseback line cmd0 s0 of (cmd, s1) \<Rightarrow>
       (case peek line '';'' s1 of
          (False, s2) \<Rightarrow> Parsed cmd s2
        | (True, s2) \<Rightarrow>
            (case gettoken line s2 of (_, _, _, s3) \<Rightarrow>
             pbind (parseline n line s3) (\<lambda>right s4. Parsed (listcmd cmd right) s4))))"
| "parsepipe 0 line s = NoFuel"
| "parsepipe (Suc n) line s =
     pbind (parseexec n line s) (\<lambda>cmd s1.
     case peek line ''|'' s1 of
       (False, s2) \<Rightarrow> Parsed cmd s2
     | (True, s2) \<Rightarrow>
         (case gettoken line s2 of (_, _, _, s3) \<Rightarrow>
          pbind (parsepipe n line s3) (\<lambda>right s4. Parsed (pipecmd cmd right) s4)))"
| "parseexec 0 line s = NoFuel"
| "parseexec (Suc n) line s =
     (case peek line ''('' s of
        (True, s1) \<Rightarrow> parseblock n line s1
      | (False, s1) \<Rightarrow> pbind (parseredirs line execcmd s1) (\<lambda>ret s2. parseargs line ret [] s2))"
| "parseblock 0 line s = NoFuel"
| "parseblock (Suc n) line s =
     (case peek line ''('' s of
        (False, s1) \<Rightarrow> panic_sh ''parseblock''
      | (True, s1) \<Rightarrow>
          (case gettoken line s1 of (_, _, _, s2) \<Rightarrow>
           pbind (parseline n line s2) (\<lambda>cmd s3.
           case peek line '')'' s3 of
             (False, s4) \<Rightarrow> panic_sh ''syntax - missing )''
           | (True, s4) \<Rightarrow>
               (case gettoken line s4 of (_, _, _, s5) \<Rightarrow> parseredirs line cmd s5))))"

text \<open>\<open>buf\<close> is the line with its terminating zero.\<close>

primrec nulterminate :: "cmd \<Rightarrow> string \<Rightarrow> string" where
  "nulterminate (EXEC argv) buf = fold (\<lambda>(q, eq) buf. buf[eq := NUL]) argv buf"
| "nulterminate (REDIR c q eq mode fd) buf = (nulterminate c buf)[eq := NUL]"
| "nulterminate (PIPE l r) buf = nulterminate r (nulterminate l buf)"
| "nulterminate (LIST l r) buf = nulterminate r (nulterminate l buf)"
| "nulterminate (BACK c) buf = nulterminate c buf"

definition parsecmd :: "string \<Rightarrow> (cmd \<times> string) parse" where
  "parsecmd line =
     pbind (parseline (4 * length line + 3) line 0) (\<lambda>cmd s.
     case peek line [] s of (_, s1) \<Rightarrow>
     if s1 \<noteq> length line then Dies (''leftovers: '' @ drop s1 line @ nl @ ''syntax'' @ nl)
     else Parsed (cmd, nulterminate cmd (line @ [NUL])) s1)"

subsection \<open>Every line is parsed or refused\<close>

definition plain :: "char \<Rightarrow> bool" where
  "plain c \<longleftrightarrow> c \<noteq> NUL \<and> c \<notin> set whitespace \<and> c \<notin> set symbols"

text \<open>A word: plain characters, up to one that is not.\<close>

definition word_ok :: "string \<Rightarrow> nat \<times> nat \<Rightarrow> bool" where
  "word_ok line w \<longleftrightarrow> (case w of (q, eq) \<Rightarrow> q < eq \<and> eq \<le> length line \<and> (\<forall>i. q \<le> i \<and> i < eq \<longrightarrow> plain (line ! i))
     \<and> \<not> plain (char_at line eq))"

primrec cmd_ok :: "string \<Rightarrow> cmd \<Rightarrow> bool" where
  "cmd_ok line (EXEC argv) \<longleftrightarrow> length argv < MAXARGS \<and> (\<forall>w \<in> set argv. word_ok line w)"
| "cmd_ok line (REDIR c q eq mode fd) \<longleftrightarrow> cmd_ok line c \<and> word_ok line (q, eq)
     \<and> ((mode, fd) = (O_RDONLY, 0) \<or> (mode, fd) = (O_WRONLY_CREATE, 1))"
| "cmd_ok line (PIPE l r) \<longleftrightarrow> cmd_ok line l \<and> cmd_ok line r"
| "cmd_ok line (LIST l r) \<longleftrightarrow> cmd_ok line l \<and> cmd_ok line r"
| "cmd_ok line (BACK c) \<longleftrightarrow> cmd_ok line c"

definition good :: "string \<Rightarrow> nat \<Rightarrow> cmd parse \<Rightarrow> bool" where
  "good line s r \<longleftrightarrow> (case r of Parsed c s' \<Rightarrow> s \<le> s' \<and> s' \<le> length line \<and> cmd_ok line c | Dies e \<Rightarrow> True | NoFuel \<Rightarrow> False)"

lemma good_simps [simp]:
  "good line s (Parsed c s') \<longleftrightarrow> s \<le> s' \<and> s' \<le> length line \<and> cmd_ok line c" "good line s (Dies e)" "good line s (panic_sh e)"
  "\<not> good line s NoFuel"
  by (simp_all add: good_def panic_sh_def)

lemma good_mono: "good line s' r \<Longrightarrow> s \<le> s' \<Longrightarrow> good line s r"
  by (cases r) auto

lemma good_bind:
  assumes "good line s m" and "\<And>c s'. s \<le> s' \<Longrightarrow> s' \<le> length line \<Longrightarrow> cmd_ok line c \<Longrightarrow> good line s (f c s')"
  shows "good line s (pbind m f)"
  using assms by (cases m) auto

lemma gettoken_le:
  assumes "gettoken line s = (tok, q, eq, s')" and "s \<le> length line"
  shows "q \<le> length line" and "eq \<le> length line" and "s' \<le> length line"
proof -
  have q: "q = skip_white line s" using assms(1) by (auto simp: gettoken_def Let_def split: if_splits)
  then show ql: "q \<le> length line" using skip_white_le [OF assms(2)] by simp
  have "eq \<le> length line"
    using assms(1) ql q skip_word_le [OF ql] char_at_NUL [of line q] char_at_NUL [of line "Suc q"]
    by (auto simp: gettoken_def Let_def split: if_splits)
  then show "eq \<le> length line" "s' \<le> length line"
    using assms(1) skip_white_le [of eq line] by (auto simp: gettoken_def Let_def split: if_splits)
qed

lemma peek_le: "peek line toks s = (b, s') \<Longrightarrow> s \<le> length line \<Longrightarrow> s' \<le> length line"
  using skip_white_le [of s line] by (auto simp: peek_def Let_def)

lemma skip_word_plain:
  "s \<le> i \<Longrightarrow> i < skip_word line s \<Longrightarrow> i < length line \<and> line ! i \<notin> set whitespace \<and> line ! i \<notin> set symbols"
  "skip_word line s < length line \<Longrightarrow> line ! skip_word line s \<in> set whitespace \<or> line ! skip_word line s \<in> set symbols"
proof (induction line s rule: skip_word.induct)
  case (1 line s)
  let ?c = "s < length line \<and> line ! s \<notin> set whitespace \<and> line ! s \<notin> set symbols"
  have e: "skip_word line s = (if ?c then skip_word line (Suc s) else s)" by (rule skip_word.simps)
  {
    case 1
    then show ?case using "1.IH"(1) e by (cases "i = s") (auto split: if_splits)
  next
    case 2
    then show ?case using "1.IH"(2) e by (auto split: if_splits)
  }
qed

lemma gettoken_word:
  assumes "gettoken line s = (CHR ''a'', q, eq, s')" and "NUL \<notin> set line" and "s \<le> length line"
  shows "word_ok line (q, eq)"
proof -
  have q: "q = skip_white line s" "eq = skip_word line q" "char_at line q \<noteq> NUL" "char_at line q \<notin> set symbols"
    using assms(1) by (auto simp: gettoken_def Let_def symbols_def split: if_splits)
  then have l: "q < length line" "line ! q \<notin> set whitespace" "line ! q \<notin> set symbols"
    using char_at_NUL [of line q] skip_white_stop [of line s] by (auto simp: char_at_def)
  then have "q < eq" using q(2) skip_word_ge [of "Suc q" line] by (subst (asm) skip_word.simps) simp
  moreover have "\<not> plain (char_at line eq)" using skip_word_plain(2) [of line q] q(2) by (auto simp: plain_def char_at_def)
  moreover have "plain (line ! i)" if "q \<le> i" "i < eq" for i
    using skip_word_plain(1) [of q i line] that q(2) assms(2) by (metis nth_mem plain_def)
  ultimately show ?thesis using gettoken_le [OF assms(1,3)] by (simp add: word_ok_def)
qed

lemma parseredirs_good:
  assumes "NUL \<notin> set line" and "s \<le> length line" and "cmd_ok line cmd"
  shows "good line s (parseredirs line cmd s)"
  using assms
proof (induction line cmd s rule: parseredirs.induct)
  case (1 line cmd s)
  obtain b s1 where p: "peek line ''<>'' s = (b, s1)" by fastforce
  obtain tok q1 e1 s2 where t: "gettoken line s1 = (tok, q1, e1, s2)" by (metis prod_cases4)
  obtain tok2 q eq s3 where u: "gettoken line s2 = (tok2, q, eq, s3)" by (metis prod_cases4)
  note le = peek_le [OF p "1.prems"(2)]
  note le2 = gettoken_le [OF t le] 
  note le3 = gettoken_le [OF u le2(3)]
  have fw: "s \<le> s1" "s1 \<le> s2" "s2 \<le> s3" using peek_forward [OF p] gettoken_forward [OF t] gettoken_forward [OF u] by auto
  show ?case
  proof (cases "b \<and> tok2 = CHR ''a''")
    case True
    have w: "word_ok line (q, eq)" using True u gettoken_word "1.prems"(1) le2(3) by blast
    let ?c = "if tok = CHR ''<'' then redircmd cmd q eq O_RDONLY 0 else if tok = CHR ''>'' then redircmd cmd q eq O_WRONLY_CREATE 1
      else if tok = CHR ''+'' then redircmd cmd q eq O_WRONLY_CREATE 1 else cmd"
    have "good line s3 (parseredirs line ?c s3)"
      using "1.IH" [of b s1 tok _ q1 _ e1 s2 tok2 _ q _ eq s3] True p t u "1.prems" w le3(3) by (simp add: constructors)
    then have "good line s (parseredirs line ?c s3)" using fw by (elim good_mono) simp
    then show ?thesis using True p t u by (subst parseredirs.simps) simp
  next
    case False
    then show ?thesis using p t u le fw "1.prems" by (subst parseredirs.simps) (auto split: bool.split)
  qed
qed

lemma set_argv_ok:
  "cmd_ok line c \<Longrightarrow> length argv < MAXARGS \<Longrightarrow> \<forall>w \<in> set argv. word_ok line w \<Longrightarrow> cmd_ok line (set_argv argv c)"
  by (induction argv c rule: set_argv.induct) auto

lemma parseargs_good:
  assumes "NUL \<notin> set line" and "s \<le> length line" and "cmd_ok line ret" and "length argv < MAXARGS" and "\<forall>w \<in> set argv. word_ok line w"
  shows "good line s (parseargs line ret argv s)"
  using assms
proof (induction line ret argv s rule: parseargs.induct)
  case (1 line ret argv s)
  obtain b s1 where p: "peek line ''|)&;'' s = (b, s1)" by fastforce
  obtain tok q eq s2 where t: "gettoken line s1 = (tok, q, eq, s2)" by (metis prod_cases4)
  note le = peek_le [OF p "1.prems"(2)]
  note le2 = gettoken_le [OF t le]
  have fw: "s \<le> s1" "s1 \<le> s2" using peek_forward [OF p] gettoken_forward [OF t] by auto
  note ok = set_argv_ok [OF "1.prems"(3-5)]
  show ?case
  proof (cases "\<not> b \<and> tok = CHR ''a'' \<and> length argv + 1 < MAXARGS")
    case True
    have w: "word_ok line (q, eq)" using True t gettoken_word "1.prems"(1) le by blast
    have "good line s2 (pbind (parseredirs line ret s2) (\<lambda>ret' s3. parseargs line ret' (argv @ [(q, eq)]) s3))"
    proof (rule good_bind [OF parseredirs_good [OF "1.prems"(1) le2(3) "1.prems"(3)]])
      fix c s3
      assume "s2 \<le> s3" "s3 \<le> length line" "cmd_ok line c"
      then have "good line s3 (parseargs line c (argv @ [(q, eq)]) s3)"
        using "1.IH" [of b s1 tok _ q _ eq s2 s3 c] True p t "1.prems" w by auto
      then show "good line s2 (parseargs line c (argv @ [(q, eq)]) s3)" using \<open>s2 \<le> s3\<close> by (rule good_mono)
    qed
    then have "good line s (pbind (parseredirs line ret s2) (\<lambda>ret' s3. parseargs line ret' (argv @ [(q, eq)]) s3))"
      using fw by (elim good_mono) simp
    then show ?thesis using True p t by (subst parseargs.simps) simp
  next
    case False
    then show ?thesis using p t le le2 fw ok by (subst parseargs.simps) (auto split: bool.split)
  qed
qed

lemma parseback_good:
  assumes "s \<le> length line" and "cmd_ok line cmd" and "parseback line cmd s = (cmd', s')"
  shows "s \<le> s' \<and> s' \<le> length line \<and> cmd_ok line cmd'"
  using assms
proof (induction line cmd s rule: parseback.induct)
  case (1 line cmd s)
  obtain b s1 where p: "peek line ''&'' s = (b, s1)" by fastforce
  obtain tok q eq s2 where t: "gettoken line s1 = (tok, q, eq, s2)" by (metis prod_cases4)
  note le = peek_le [OF p "1.prems"(1)]
  have fw: "s \<le> s1" "s1 \<le> s2" using peek_forward [OF p] gettoken_forward [OF t] by auto
  show ?case
  proof (cases b)
    case True
    then have "parseback line (backcmd cmd) s2 = (cmd', s')" using "1.prems"(3) p t by (subst (asm) parseback.simps) simp
    then have "s2 \<le> s' \<and> s' \<le> length line \<and> cmd_ok line cmd'"
      using "1.IH" [of b s1 tok _ q _ eq s2] True p t "1.prems"(2) gettoken_le [OF t le] by (simp add: constructors)
    then show ?thesis using fw by simp
  next
    case False
    then show ?thesis using "1.prems" p le fw by (subst (asm) parseback.simps) simp
  qed
qed

lemma after_peek:
  assumes "peek line toks s = (True, s1)" and "gettoken line s1 = (tok, q, eq, s2)" and "s \<le> length line"
  shows "s < s2" and "s2 \<le> length line" and "s < length line"
  using peek_token [OF assms(1,2)] gettoken_le [OF assms(2) peek_le [OF assms(1,3)]] by simp_all

text \<open>Four units of fuel for each character that is left, and a few to reach a leaf.\<close>

lemma parse_good:
  assumes "NUL \<notin> set line"
  shows "s \<le> length line \<Longrightarrow> 4 * (length line - s) + 3 \<le> n \<Longrightarrow> good line s (parseline n line s)"
    and "s \<le> length line \<Longrightarrow> 4 * (length line - s) + 2 \<le> n \<Longrightarrow> good line s (parsepipe n line s)"
    and "s \<le> length line \<Longrightarrow> 4 * (length line - s) + 1 \<le> n \<Longrightarrow> good line s (parseexec n line s)"
    and "s \<le> length line \<Longrightarrow> 4 * (length line - s) \<le> n \<Longrightarrow> 0 < n \<Longrightarrow> good line s (parseblock n line s)"
proof (induction n arbitrary: s)
  case (Suc n)
  {
    case 1
    show ?case unfolding parseline.simps
    proof (rule good_bind)
      show "good line s (parsepipe n line s)" using Suc.IH(2) 1 by simp
      fix c s'
      assume c: "s \<le> s'" "s' \<le> length line" "cmd_ok line c"
      obtain d s1 where b: "parseback line c s' = (d, s1)" by fastforce
      obtain p s2 where p: "peek line '';'' s1 = (p, s2)" by fastforce
      obtain tok q eq s3 where t: "gettoken line s2 = (tok, q, eq, s3)" by (metis prod_cases4)
      note g = parseback_good [OF c(2,3) b]
      have "good line s3 (pbind (parseline n line s3) (\<lambda>right s4. Parsed (listcmd d right) s4))" if p
        using Suc.IH(1) [of s3] after_peek [of line "'';''" s1 s2] p t that g c 1 by (intro good_bind) (auto simp: constructors)
      then have "good line s (pbind (parseline n line s3) (\<lambda>right s4. Parsed (listcmd d right) s4))" if p
        by (rule good_mono) (use that after_peek [of line "'';''" s1 s2] p t g c in auto)
      then show "good line s (case parseback line c s' of (cmd, s1) \<Rightarrow> case peek line '';'' s1 of (False, s2) \<Rightarrow> Parsed cmd s2
          | (True, s2) \<Rightarrow> (case gettoken line s2 of (_, _, _, s3) \<Rightarrow> pbind (parseline n line s3) (\<lambda>right s4. Parsed (listcmd cmd right) s4)))"
        using b p t g c peek_le [OF p] peek_forward [OF p] by (auto split: bool.split)
    qed
  next
    case 2
    show ?case unfolding parsepipe.simps
    proof (rule good_bind)
      show "good line s (parseexec n line s)" using Suc.IH(3) 2 by simp
      fix c s1
      assume c: "s \<le> s1" "s1 \<le> length line" "cmd_ok line c"
      obtain p s2 where p: "peek line ''|'' s1 = (p, s2)" by fastforce
      obtain tok q eq s3 where t: "gettoken line s2 = (tok, q, eq, s3)" by (metis prod_cases4)
      have "good line s3 (pbind (parsepipe n line s3) (\<lambda>right s4. Parsed (pipecmd c right) s4))" if p
        using Suc.IH(2) [of s3] after_peek [of line "''|''" s1 s2] p t that c 2 by (intro good_bind) (auto simp: constructors)
      then have "good line s (pbind (parsepipe n line s3) (\<lambda>right s4. Parsed (pipecmd c right) s4))" if p
        by (rule good_mono) (use that after_peek [of line "''|''" s1 s2] p t c in auto)
      then show "good line s (case peek line ''|'' s1 of (False, s2) \<Rightarrow> Parsed c s2
          | (True, s2) \<Rightarrow> (case gettoken line s2 of (_, _, _, s3) \<Rightarrow> pbind (parsepipe n line s3) (\<lambda>right s4. Parsed (pipecmd c right) s4)))"
        using p t c peek_le [OF p] peek_forward [OF p] by (auto split: bool.split)
    qed
  next
    case 3
    obtain p s1 where p: "peek line ''('' s = (p, s1)" by fastforce
    note le = peek_le [OF p 3(1)] peek_forward [OF p]
    have "good line s1 (parseblock n line s1)" if p
      using Suc.IH(4) [of s1] peek_true [of line "''(''" s s1] p that le 3(2) by auto
    moreover have "good line s1 (pbind (parseredirs line execcmd s1) (\<lambda>ret s2. parseargs line ret [] s2))"
      by (rule good_bind [OF parseredirs_good [OF assms le(1)]])
        (auto simp: constructors assms intro!: good_mono [OF parseargs_good])
    ultimately show ?case using p le(2) by (auto split: bool.split intro: good_mono)
  next
    case 4
    obtain p s1 where p: "peek line ''('' s = (p, s1)" by fastforce
    obtain tok q eq s2 where t: "gettoken line s1 = (tok, q, eq, s2)" by (metis prod_cases4)
    have "good line s2 (pbind (parseline n line s2) (\<lambda>cmd s3. case peek line '')'' s3 of (False, s4) \<Rightarrow> panic_sh ''syntax - missing )''
           | (True, s4) \<Rightarrow> (case gettoken line s4 of (_, _, _, s5) \<Rightarrow> parseredirs line cmd s5)))" if p
    proof (rule good_bind)
      show "good line s2 (parseline n line s2)" using Suc.IH(1) [of s2] after_peek [of line "''(''" s s1] p t that 4 by auto
      fix c s3
      assume c: "s2 \<le> s3" "s3 \<le> length line" "cmd_ok line c"
      obtain r s4 where r: "peek line '')'' s3 = (r, s4)" by fastforce
      obtain tok' q' eq' s5 where u: "gettoken line s4 = (tok', q', eq', s5)" by (metis prod_cases4)
      have "good line s5 (parseredirs line c s5)" if r
        using parseredirs_good [OF assms _ c(3)] after_peek [of line "'')''" s3 s4] r u that c by auto
      then have "good line s2 (parseredirs line c s5)" if r
        by (rule good_mono) (use that after_peek [of line "'')''" s3 s4] r u c in auto)
      then show "good line s2 (case peek line '')'' s3 of (False, s4) \<Rightarrow> panic_sh ''syntax - missing )''
           | (True, s4) \<Rightarrow> (case gettoken line s4 of (_, _, _, s5) \<Rightarrow> parseredirs line c s5))"
        using r u by (auto split: bool.split)
    qed
    then show ?case using p t after_peek [of line "''(''" s s1] 4 by (auto split: bool.split elim!: good_mono)
  }
qed simp_all

subsection \<open>Commands as strings\<close>

text \<open>The command a tree stands for once \<open>nulterminate\<close> has run: its words are the C strings in the buffer.\<close>

datatype scmd =
    SExec "string list"
  | SRedir scmd string int int
  | SPipe scmd scmd
  | SList scmd scmd
  | SBack scmd

definition cstring :: "string \<Rightarrow> nat \<Rightarrow> string" where
  "cstring buf q = takeWhile (\<lambda>c. c \<noteq> NUL) (drop q buf)"

primrec read_cmd :: "(nat \<times> nat \<Rightarrow> string) \<Rightarrow> cmd \<Rightarrow> scmd" where
  "read_cmd f (EXEC argv) = SExec (map f argv)"
| "read_cmd f (REDIR c q eq mode fd) = SRedir (read_cmd f c) (f (q, eq)) mode fd"
| "read_cmd f (PIPE l r) = SPipe (read_cmd f l) (read_cmd f r)"
| "read_cmd f (LIST l r) = SList (read_cmd f l) (read_cmd f r)"
| "read_cmd f (BACK c) = SBack (read_cmd f c)"

definition word_text :: "string \<Rightarrow> nat \<times> nat \<Rightarrow> string" where
  "word_text line w = (case w of (q, eq) \<Rightarrow> take (eq - q) (drop q line))"

primrec words :: "cmd \<Rightarrow> (nat \<times> nat) list" where
  "words (EXEC argv) = argv"
| "words (REDIR c q eq mode fd) = words c @ [(q, eq)]"
| "words (PIPE l r) = words l @ words r"
| "words (LIST l r) = words l @ words r"
| "words (BACK c) = words c"

lemma nulterminate_words: "nulterminate c buf = fold (\<lambda>(q, eq) buf. buf[eq := NUL]) (words c) buf"
  by (induction c arbitrary: buf) simp_all

lemma words_ok: "cmd_ok line c \<Longrightarrow> w \<in> set (words c) \<Longrightarrow> word_ok line w"
  by (induction c) auto

lemma read_cmd_cong: "(\<And>w. w \<in> set (words c) \<Longrightarrow> f w = g w) \<Longrightarrow> read_cmd f c = read_cmd g c"
  by (induction c) auto

lemma fold_nul:
  "length (fold (\<lambda>(q, eq) buf. buf[eq := NUL]) ws buf) = length buf"
  "i < length buf \<Longrightarrow> fold (\<lambda>(q, eq) buf. buf[eq := NUL]) ws buf ! i = (if i \<in> snd ` set ws then NUL else buf ! i)"
proof (induction ws arbitrary: buf)
  case (Cons w ws)
  { case 1 show ?case using Cons.IH(1) by (simp add: split_def)
  next
    case 2 then show ?case using Cons.IH(2) by (cases w) (simp add: nth_list_update)
  }
qed simp_all

text \<open>The zeros fall on characters that belong to no word, so every word is kept and ends where it should.\<close>

lemma nulterminate_string:
  assumes "cmd_ok line c" and "w \<in> set (words c)" and "NUL \<notin> set line"
  shows "cstring (nulterminate c (line @ [NUL])) (fst w) = word_text line w"
proof -
  obtain q eq where w: "w = (q, eq)" by fastforce
  let ?b = "nulterminate c (line @ [NUL])"
  have ok: "q < eq" "eq \<le> length line" "\<And>i. q \<le> i \<Longrightarrow> i < eq \<Longrightarrow> plain (line ! i)"
    using words_ok [OF assms(1,2)] by (auto simp: w word_ok_def)
  have l: "length ?b = Suc (length line)" by (simp add: nulterminate_words fold_nul(1))
  have kept: "?b ! i = line ! i" if "q \<le> i" "i < eq" for i
  proof -
    have "i \<notin> snd ` set (words c)"
      using words_ok [OF assms(1)] ok(2) ok(3) [OF that] that by (force simp: word_ok_def char_at_def)
    then show ?thesis using that ok(2) by (simp add: nulterminate_words fold_nul(2) nth_append)
  qed
  have z: "?b ! eq = NUL"
    using assms(2) ok(2) by (force simp: nulterminate_words fold_nul(2) w nth_append)
  have "drop q ?b = word_text line w @ NUL # drop (Suc eq) ?b"
  proof (rule nth_equalityI)
    show "length (drop q ?b) = length (word_text line w @ NUL # drop (Suc eq) ?b)"
      using ok l by (simp add: word_text_def w)
    fix i
    assume "i < length (drop q ?b)"
    then have i: "q + i < Suc (length line)" using l by simp
    consider "i < eq - q" | "i = eq - q" | "eq - q < i" by linarith
    then show "drop q ?b ! i = (word_text line w @ NUL # drop (Suc eq) ?b) ! i"
      by cases (use ok(1,2) l kept [of "q + i"] z i in \<open>auto simp: word_text_def w nth_append nth_Cons' add.commute\<close>)
  qed
  moreover have "\<forall>x \<in> set (word_text line w). x \<noteq> NUL"
    using assms(3) by (auto simp: word_text_def w dest!: in_set_takeD in_set_dropD)
  ultimately show ?thesis by (simp add: cstring_def w takeWhile_append2)
qed

lemma parsed_strings:
  assumes "cmd_ok line c" and "NUL \<notin> set line"
  shows "read_cmd (\<lambda>(q, eq). cstring (nulterminate c (line @ [NUL])) q) c = read_cmd (word_text line) c"
  using nulterminate_string [OF assms(1) _ assms(2)] by (intro read_cmd_cong) force

subsection \<open>Reading the text at a position\<close>

definition on :: "string \<Rightarrow> nat \<Rightarrow> string \<Rightarrow> bool" where
  "on line s t \<longleftrightarrow> s \<le> length line \<and> drop s line = t \<and> NUL \<notin> set line"

definition stop :: "string \<Rightarrow> string \<Rightarrow> bool" where
  "stop toks t \<longleftrightarrow> (t = [] \<or> hd t \<in> set toks)"

definition nonwhite :: "string \<Rightarrow> bool" where
  "nonwhite t \<longleftrightarrow> (t = [] \<or> hd t \<notin> set whitespace)"

lemma on_append: "on line s (u @ t) \<Longrightarrow> on line (s + length u) t"
proof -
  assume o: "on line s (u @ t)"
  have "length (drop s line) = length (u @ t)" using o by (simp only: on_def)
  then have "s + length u \<le> length line" using o by (auto simp: on_def)
  moreover have "drop (length u) (drop s line) = t" using o by (simp add: on_def)
  ultimately show ?thesis using o by (simp add: on_def add.commute)
qed

lemma on_Cons: "on line s (c # t) \<Longrightarrow> s < length line \<and> line ! s = c \<and> c \<noteq> NUL \<and> on line (Suc s) t"
proof -
  assume o: "on line s (c # t)"
  then have l: "s < length line" using length_drop [of s line] by (auto simp: on_def)
  then have "drop s line = line ! s # drop (Suc s) line" by (rule Cons_nth_drop_Suc [symmetric])
  moreover have "line ! s \<noteq> NUL" using o l by (metis nth_mem on_def)
  ultimately show ?thesis using o l by (auto simp: on_def)
qed

lemma on_Nil: "on line s [] \<Longrightarrow> s = length line"
  by (simp add: on_def)

lemma char_at_on: "on line s t \<Longrightarrow> char_at line s = (if t = [] then NUL else hd t)"
  using on_Nil [of line s] on_Cons [of line s] by (cases t) (auto simp: char_at_def)

lemma skip_white_on: "on line s t \<Longrightarrow> nonwhite t \<Longrightarrow> skip_white line s = s"
  using on_Nil [of line s] on_Cons [of line s] by (subst skip_white.simps) (cases t; auto simp: nonwhite_def)

lemma peek_on: "on line s t \<Longrightarrow> nonwhite t \<Longrightarrow> peek line toks s = (t \<noteq> [] \<and> hd t \<in> set toks, s)"
  using on_Cons [of line s "hd t" "tl t"] by (cases t) (auto simp: peek_def skip_white_on char_at_on)

lemma gettoken_sym:
  assumes "on line s (c # t)" and "c \<in> set ''|();&<''" and "nonwhite t"
  shows "gettoken line s = (c, s, s + 1, s + 1)"
proof -
  have "nonwhite (c # t)" using assms(2) by (auto simp: nonwhite_def whitespace_def)
  then have "skip_white line s = s" using assms(1) skip_white_on by blast
  moreover have "skip_white line (Suc s) = Suc s" using on_Cons [OF assms(1)] skip_white_on assms(3) by blast
  ultimately show ?thesis using assms(2) on_Cons [OF assms(1)] by (auto simp: gettoken_def char_at_on [OF assms(1)])
qed

lemma gettoken_gt:
  assumes "on line s (CHR ''>'' # t)" and "nonwhite t" and "t \<noteq> [] \<longrightarrow> hd t \<noteq> CHR ''>''"
  shows "gettoken line s = (CHR ''>'', s, s + 1, s + 1)"
proof -
  note c = on_Cons [OF assms(1)]
  have "skip_white line s = s" using assms(1) skip_white_on by (simp add: nonwhite_def whitespace_def)
  moreover have "skip_white line (Suc s) = Suc s" using c skip_white_on assms(2) by blast
  moreover have "char_at line (Suc s) \<noteq> CHR ''>''" using char_at_on [of line "Suc s" t] c assms(3) by auto
  ultimately show ?thesis by (simp add: gettoken_def char_at_on [OF assms(1)])
qed

lemma skip_word_on:
  assumes "on line s (w @ t)" and "list_all plain w" and "t \<noteq> [] \<longrightarrow> \<not> plain (hd t)"
  shows "skip_word line s = s + length w"
  using assms
proof (induction w arbitrary: s)
  case Nil
  then show ?case using on_Nil [of line s] on_Cons [of line s "hd t" "tl t"] by (subst skip_word.simps) (cases t; auto simp: plain_def)
next
  case (Cons c w)
  note c = on_Cons [of line s c "w @ t"]
  have "skip_word line (Suc s) = Suc s + length w" using Cons c by simp
  then show ?case using Cons.prems c by (subst skip_word.simps) (simp add: plain_def)
qed

lemma gettoken_word_on:
  assumes "on line s (w @ t)" and "list_all plain w" and "w \<noteq> []" and "t \<noteq> [] \<longrightarrow> \<not> plain (hd t)"
  shows "gettoken line s = (CHR ''a'', s, s + length w, skip_white line (s + length w))" and "word_text line (s, s + length w) = w"
proof -
  have h: "plain (hd w)" "hd (w @ t) = hd w" using assms(2,3) by (cases w; simp)+
  have "skip_white line s = s" using assms(1) h skip_white_on [of line s "w @ t"] by (simp add: nonwhite_def plain_def)
  moreover have "char_at line s = hd w" using char_at_on [OF assms(1)] assms(3) h by simp
  ultimately show "gettoken line s = (CHR ''a'', s, s + length w, skip_white line (s + length w))"
    using h skip_word_on [OF assms(1,2,4)] by (auto simp: gettoken_def plain_def symbols_def)
  show "word_text line (s, s + length w) = w" using assms(1) by (simp add: word_text_def on_def)
qed

subsection \<open>Printing a command\<close>

definition paren :: "bool \<Rightarrow> string \<Rightarrow> string" where
  "paren b t = (if b then ''('' @ t @ '')'' else t)"

text \<open>
  Level 0 is a line, 1 a line without \<open>;\<close>, 2 a pipeline and 3 a single command; parentheses are put
  only where the level demands them.
\<close>

primrec unparse :: "scmd \<Rightarrow> nat \<Rightarrow> string" where
  "unparse (SExec argv) lv = concat (map (\<lambda>w. w @ '' '') argv)"
| "unparse (SRedir c fname mode fd) lv = unparse c 3 @ (if fd = 0 then ''<'' else ''>'') @ fname"
| "unparse (SPipe l r) lv = paren (2 < lv) (unparse l 3 @ ''|'' @ unparse r 2)"
| "unparse (SBack c) lv = paren (1 < lv) (unparse c 1 @ ''&'')"
| "unparse (SList l r) lv = paren (0 < lv) (unparse l 1 @ '';'' @ unparse r 0)"

definition plain_word :: "string \<Rightarrow> bool" where
  "plain_word w \<longleftrightarrow> w \<noteq> [] \<and> list_all plain w"

primrec scmd_ok :: "scmd \<Rightarrow> bool" where
  "scmd_ok (SExec argv) \<longleftrightarrow> length argv < MAXARGS \<and> list_all plain_word argv"
| "scmd_ok (SRedir c fname mode fd) \<longleftrightarrow> scmd_ok c \<and> plain_word fname
     \<and> ((mode, fd) = (O_RDONLY, 0) \<or> (mode, fd) = (O_WRONLY_CREATE, 1))"
| "scmd_ok (SPipe l r) \<longleftrightarrow> scmd_ok l \<and> scmd_ok r"
| "scmd_ok (SList l r) \<longleftrightarrow> scmd_ok l \<and> scmd_ok r"
| "scmd_ok (SBack c) \<longleftrightarrow> scmd_ok c"

lemma stop_char: "stop toks t \<Longrightarrow> set toks \<subseteq> set symbols \<Longrightarrow> nonwhite t \<and> (t \<noteq> [] \<longrightarrow> \<not> plain (hd t))"
  by (auto simp: stop_def nonwhite_def plain_def symbols_def whitespace_def)

lemma unparse_nonwhite: "scmd_ok c \<Longrightarrow> nonwhite t \<Longrightarrow> nonwhite (unparse c lv @ t)"
proof (induction c arbitrary: lv t)
  case (SExec argv)
  then show ?case
    by (cases argv) (auto simp: nonwhite_def plain_word_def plain_def hd_append list_all_iff)
next
  case (SRedir c fname mode fd)
  have "nonwhite (unparse c 3 @ ((if fd = 0 then ''<'' else ''>'') @ fname @ t))"
    using SRedir.prems by (intro SRedir.IH) (auto simp: nonwhite_def whitespace_def)
  then show ?case by simp
next
  case (SPipe l r)
  have "nonwhite (unparse l 3 @ (''|'' @ unparse r 2 @ t))" using SPipe.prems by (intro SPipe.IH(1)) (auto simp: nonwhite_def whitespace_def)
  moreover have "nonwhite (CHR ''('' # x)" for x by (simp add: nonwhite_def whitespace_def)
  ultimately show ?case by (simp add: paren_def)
next
  case (SList l r)
  have "nonwhite (unparse l 1 @ ('';'' @ unparse r 0 @ t))" using SList.prems by (intro SList.IH(1)) (auto simp: nonwhite_def whitespace_def)
  moreover have "nonwhite (CHR ''('' # x)" for x by (simp add: nonwhite_def whitespace_def)
  ultimately show ?case by (simp add: paren_def)
next
  case (SBack c)
  have "nonwhite (unparse c 1 @ (''&'' @ t))" using SBack.prems by (intro SBack.IH) (auto simp: nonwhite_def whitespace_def)
  moreover have "nonwhite (CHR ''('' # x)" for x by (simp add: nonwhite_def whitespace_def)
  ultimately show ?case by (simp add: paren_def)
qed

subsection \<open>Redirections and words\<close>

type_synonym redir = "string \<times> int \<times> int"

definition redir_text :: "redir \<Rightarrow> string" where
  "redir_text r = (case r of (fname, mode, fd) \<Rightarrow> (if fd = 0 then ''<'' else ''>'') @ fname)"

definition redir_ok :: "redir \<Rightarrow> bool" where
  "redir_ok r \<longleftrightarrow> (case r of (fname, mode, fd) \<Rightarrow> plain_word fname \<and> ((mode, fd) = (O_RDONLY, 0) \<or> (mode, fd) = (O_WRONLY_CREATE, 1)))"

definition wrap :: "nat \<times> nat \<times> int \<times> int \<Rightarrow> cmd \<Rightarrow> cmd" where
  "wrap p c = (case p of (q, eq, mode, fd) \<Rightarrow> REDIR c q eq mode fd)"

definition swrap :: "redir \<Rightarrow> scmd \<Rightarrow> scmd" where
  "swrap r c = (case r of (fname, mode, fd) \<Rightarrow> SRedir c fname mode fd)"

definition redir_at :: "string \<Rightarrow> nat \<times> nat \<times> int \<times> int \<Rightarrow> redir" where
  "redir_at line p = (case p of (q, eq, mode, fd) \<Rightarrow> (word_text line (q, eq), mode, fd))"

lemma read_wraps: "read_cmd (word_text line) (fold wrap ps c) = fold swrap (map (redir_at line) ps) (read_cmd (word_text line) c)"
  by (induction ps arbitrary: c) (auto simp: wrap_def swrap_def redir_at_def split: prod.split)

lemma set_argv_wraps: "set_argv argv (fold wrap ps (EXEC a)) = fold wrap ps (EXEC argv)"
proof (induction ps rule: rev_induct)
  case (snoc p ps)
  then show ?case by (cases p) (simp add: wrap_def)
qed simp

lemma redirs_head:
  assumes "stop ''|)&;'' rest"
  shows "nonwhite (concat (map redir_text rs) @ rest)" and "concat (map redir_text rs) @ rest \<noteq> [] \<Longrightarrow> \<not> plain (hd (concat (map redir_text rs) @ rest))"
  using stop_char [OF assms] assms
  by (cases rs; auto simp: redir_text_def nonwhite_def whitespace_def plain_def symbols_def split: prod.splits)+

lemma parseredirs_on:
  assumes "on line s (concat (map redir_text rs) @ rest)" and "list_all redir_ok rs" and "stop ''|)&;'' rest"
  shows "\<exists>ps s'. parseredirs line c s = Parsed (fold wrap ps c) s' \<and> map (redir_at line) ps = rs \<and> on line s' rest"
  using assms
proof (induction rs arbitrary: s c)
  case Nil
  have "peek line ''<>'' s = (False, s)"
    using peek_on [of line s rest "''<>''"] Nil stop_char [OF Nil(3)] by (auto simp: stop_def symbols_def)
  then show ?case using Nil by (subst parseredirs.simps) (auto intro!: exI [of _ "[]"])
next
  case (Cons r rs)
  obtain fname mode fd where r: "r = (fname, mode, fd)" by (cases r)
  let ?t = "concat (map redir_text rs) @ rest" and ?op = "if fd = 0 then CHR ''<'' else CHR ''>''"
  have ok: "fname \<noteq> []" "list_all plain fname" "(mode, fd) = (O_RDONLY, 0) \<or> (mode, fd) = (O_WRONLY_CREATE, 1)"
    using Cons.prems(2) by (auto simp: r redir_ok_def plain_word_def)
  have o: "on line s (?op # fname @ ?t)" using Cons.prems(1) by (auto simp: r redir_text_def [of "(fname, mode, fd)"] split: if_splits)
  have h: "plain (hd fname)" using ok(1,2) by (cases fname) auto
  have nw: "nonwhite (fname @ ?t)" "hd (fname @ ?t) = hd fname" using h ok(1) by (auto simp: nonwhite_def plain_def)
  have pk: "peek line ''<>'' s = (True, s)" using peek_on [OF o] by (auto simp: nonwhite_def whitespace_def)
  have g1: "gettoken line s = (?op, s, s + 1, s + 1)"
    using o gettoken_sym [of line s "CHR ''<''" "fname @ ?t"] gettoken_gt [of line s "fname @ ?t"] nw h
    by (auto simp: plain_def symbols_def)
  have o1: "on line (Suc s) (fname @ ?t)" using on_Cons [OF o] by simp
  note h2 = redirs_head [OF Cons.prems(3), of rs]
  note g2 = gettoken_word_on [OF o1 ok(2,1)] 
  have o2: "on line (Suc s + length fname) ?t" using on_append [OF o1] .
  then have sw: "skip_white line (Suc s + length fname) = Suc s + length fname" using h2(1) by (rule skip_white_on)
  let ?c = "REDIR c (Suc s) (Suc s + length fname) mode fd"
  obtain ps s' where ih: "parseredirs line ?c (Suc s + length fname) = Parsed (fold wrap ps ?c) s'" "map (redir_at line) ps = rs" "on line s' rest"
    using Cons.IH [OF o2 _ Cons.prems(3), of ?c] Cons.prems(2) by auto
  have "parseredirs line c s = parseredirs line ?c (Suc s + length fname)"
    using pk g1 g2(1) h2(2) sw ok(3) by (subst parseredirs.simps) (auto simp: constructors)
  then show ?case
    using ih g2(2) h2(2) by (intro exI [of _ "(Suc s, Suc s + length fname, mode, fd) # ps"] exI [of _ s'])
      (simp add: wrap_def [of "(_, _)"] redir_at_def [of _ "(_, _)"] r)
qed

lemma parseargs_end:
  assumes "on line s rest" and "stop ''|)&;'' rest"
  shows "parseargs line ret argv s = Parsed (set_argv argv ret) s"
proof (cases "rest = []")
  case True
  have "peek line ''|)&;'' s = (False, s)" using peek_on [OF assms(1)] True by (simp add: nonwhite_def)
  moreover have "gettoken line s = (NUL, s, s, s)"
    using skip_white_on [OF assms(1)] char_at_on [OF assms(1)] True by (simp add: gettoken_def nonwhite_def)
  ultimately show ?thesis by (subst parseargs.simps) simp
next
  case False
  have "peek line ''|)&;'' s = (True, s)"
    using peek_on [OF assms(1)] stop_char [OF assms(2)] assms(2) False by (auto simp: stop_def symbols_def)
  then show ?thesis by (subst parseargs.simps) simp
qed

lemma parseargs_on:
  assumes "on line s (concat (map (\<lambda>w. w @ '' '') ws) @ concat (map redir_text rs) @ rest)" and "list_all plain_word ws" and "ws \<noteq> []"
    and "list_all redir_ok rs" and "stop ''|)&;'' rest" and "length argv + length ws < MAXARGS"
  shows "\<exists>args ps s'. parseargs line (EXEC []) argv s = Parsed (fold wrap ps (EXEC (argv @ args))) s'
    \<and> map (word_text line) args = ws \<and> map (redir_at line) ps = rs \<and> on line s' rest"
  using assms
proof (induction ws arbitrary: s argv)
  case (Cons w ws)
  let ?t = "concat (map (\<lambda>w. w @ '' '') ws) @ concat (map redir_text rs) @ rest"
  have w: "w \<noteq> []" "list_all plain w" using Cons.prems(2) by (auto simp: plain_word_def)
  have h: "plain (hd w)" using w by (cases w) auto
  have o: "on line s (w @ CHR '' '' # ?t)" using Cons.prems(1) by simp
  have "\<not> plain (CHR '' '')" by (simp add: plain_def whitespace_def)
  then have g: "gettoken line s = (CHR ''a'', s, s + length w, skip_white line (s + length w))" "word_text line (s, s + length w) = w"
    using gettoken_word_on [OF o w(2,1)] by simp_all
  have hd: "hd (w @ CHR '' '' # ?t) = hd w" "w @ CHR '' '' # ?t \<noteq> []" using w(1) by simp_all
  have "nonwhite (w @ CHR '' '' # ?t)" using h hd by (simp add: nonwhite_def plain_def)
  then have p: "peek line ''|)&;'' s = (False, s)"
    using peek_on [OF o] h hd by (auto simp: plain_def symbols_def)
  have o1: "on line (s + length w) (CHR '' '' # ?t)" using on_append [OF o] .
  have o2: "on line (Suc (s + length w)) ?t" using on_Cons [OF o1] by simp
  have nt: "nonwhite ?t"
    using redirs_head(1) [OF Cons.prems(5), of rs] Cons.prems(2) by (cases ws) (auto simp: nonwhite_def plain_word_def plain_def hd_append list_all_iff)
  have sw: "skip_white line (s + length w) = Suc (s + length w)"
    using on_Cons [OF o1] skip_white_on [OF o2 nt] by (subst skip_white.simps) (simp add: whitespace_def)
  let ?a = "(s, s + length w)"
  have step: "parseargs line (EXEC []) argv s = pbind (parseredirs line (EXEC []) (Suc (s + length w))) (\<lambda>ret' s3. parseargs line ret' (argv @ [?a]) s3)"
    using p g(1) sw Cons.prems(6) by (subst parseargs.simps) simp
  show ?case
  proof (cases "ws = []")
    case True
    then have "on line (Suc (s + length w)) (concat (map redir_text rs) @ rest)" using o2 by simp
    from parseredirs_on [OF this Cons.prems(4,5)] obtain ps s' where r:
      "parseredirs line (EXEC []) (Suc (s + length w)) = Parsed (fold wrap ps (EXEC [])) s'" "map (redir_at line) ps = rs" "on line s' rest" by blast
    then show ?thesis
      using step True g(2) parseargs_end [OF r(3) Cons.prems(5)] by (intro exI [of _ "[?a]"] exI [of _ ps] exI [of _ s']) (simp add: set_argv_wraps)
  next
    case False
    have "plain (hd ?t)" "?t \<noteq> []"
      using False Cons.prems(2) by (cases ws; auto simp: plain_word_def hd_append list_all_iff)+
    then have "peek line ''<>'' (Suc (s + length w)) = (False, Suc (s + length w))"
      using peek_on [OF o2 nt] by (auto simp: plain_def symbols_def)
    then have r: "parseredirs line (EXEC []) (Suc (s + length w)) = Parsed (EXEC []) (Suc (s + length w))"
      by (subst parseredirs.simps) simp
    obtain args ps s' where ih: "parseargs line (EXEC []) (argv @ [?a]) (Suc (s + length w)) = Parsed (fold wrap ps (EXEC ((argv @ [?a]) @ args))) s'"
      "map (word_text line) args = ws" "map (redir_at line) ps = rs" "on line s' rest"
      using Cons.IH [OF o2 _ False Cons.prems(4,5), of "argv @ [?a]"] Cons.prems(2,6) by auto
    then show ?thesis using step r g(2) by (intro exI [of _ "?a # args"] exI [of _ ps] exI [of _ s']) simp
  qed
qed simp

subsection \<open>Reading back what is printed\<close>

text \<open>
  The parser \<open>f\<close>, given enough fuel, reads the command \<open>c\<close> off the front of the text and stops at \<open>rest\<close>.
\<close>

definition reads :: "(nat \<Rightarrow> string \<Rightarrow> nat \<Rightarrow> cmd parse) \<Rightarrow> scmd \<Rightarrow> string \<Rightarrow> string \<Rightarrow> bool" where
  "reads f c t rest \<longleftrightarrow> (\<forall>line s. on line s (t @ rest) \<longrightarrow>
     (\<exists>N d s'. (\<forall>n \<ge> N. f n line s = Parsed d s') \<and> read_cmd (word_text line) d = c \<and> on line s' rest))"

definition parsebacks :: "nat \<Rightarrow> string \<Rightarrow> nat \<Rightarrow> cmd parse" where
  "parsebacks n line s = pbind (parsepipe n line s) (\<lambda>c s0. case parseback line c s0 of (d, s1) \<Rightarrow> Parsed d s1)"

lemma readsD:
  assumes "reads f c t rest" and "on line s (t @ rest)"
  obtains N d s' where "\<And>n. N \<le> n \<Longrightarrow> f n line s = Parsed d s'" and "read_cmd (word_text line) d = c" and "on line s' rest"
  using assms unfolding reads_def by meson

lemma reads_exec:
  assumes "scmd_ok (SExec argv)" and "list_all redir_ok rs" and "stop ''|)&;'' rest"
  shows "reads parseexec (fold swrap rs (SExec argv)) (unparse (SExec argv) 3 @ concat (map redir_text rs)) rest"
  unfolding reads_def
proof (intro allI impI)
  fix line s
  assume "on line s ((unparse (SExec argv) 3 @ concat (map redir_text rs)) @ rest)"
  then have o: "on line s (concat (map (\<lambda>w. w @ '' '') argv) @ concat (map redir_text rs) @ rest)" by simp
  have ok: "length argv < 10" "list_all plain_word argv" using assms(1) by simp_all
  note h = redirs_head [OF assms(3), of rs]
  let ?t = "concat (map (\<lambda>w. w @ '' '') argv) @ concat (map redir_text rs) @ rest"
  have nw: "nonwhite ?t" using unparse_nonwhite [OF assms(1) h(1), of 3] by simp
  have par: "?t \<noteq> [] \<Longrightarrow> hd ?t \<noteq> CHR ''(''"
    using ok(2) assms(3) by (cases argv; cases rs) (auto simp: plain_word_def plain_def symbols_def hd_append list_all_iff redir_text_def stop_def split: prod.splits if_splits)
  have p: "peek line ''('' s = (False, s)" using peek_on [OF o nw] par by auto
  have "\<exists>d s'. pbind (parseredirs line execcmd s) (\<lambda>ret s2. parseargs line ret [] s2) = Parsed d s'
      \<and> read_cmd (word_text line) d = fold swrap rs (SExec argv) \<and> on line s' rest"
  proof (cases "argv = []")
    case True
    then obtain ps s' where r: "parseredirs line (EXEC []) s = Parsed (fold wrap ps (EXEC [])) s'" "map (redir_at line) ps = rs" "on line s' rest"
      using parseredirs_on [OF _ assms(2,3)] o by fastforce
    then show ?thesis
      using True parseargs_end [OF r(3) assms(3)] by (auto simp: execcmd_def set_argv_wraps read_wraps)
  next
    case False
    have "plain (hd ?t)" "?t \<noteq> []" using False ok(2) by (cases argv; auto simp: plain_word_def hd_append list_all_iff)+
    then have "peek line ''<>'' s = (False, s)" using peek_on [OF o nw] by (auto simp: plain_def symbols_def)
    then have "parseredirs line (EXEC []) s = Parsed (EXEC []) s" by (subst parseredirs.simps) simp
    moreover obtain args ps s' where "parseargs line (EXEC []) [] s = Parsed (fold wrap ps (EXEC ([] @ args))) s'"
      "map (word_text line) args = argv" "map (redir_at line) ps = rs" "on line s' rest"
      using parseargs_on [OF o ok(2) False assms(2,3), of "[]"] ok(1) by auto
    ultimately show ?thesis by (auto simp: execcmd_def read_wraps)
  qed
  then obtain d s' where d: "pbind (parseredirs line execcmd s) (\<lambda>ret s2. parseargs line ret [] s2) = Parsed d s'"
    "read_cmd (word_text line) d = fold swrap rs (SExec argv)" "on line s' rest" by blast
  have "parseexec n line s = Parsed d s'" if "1 \<le> n" for n using that p d(1) by (cases n) simp_all
  then show "\<exists>N d s'. (\<forall>n \<ge> N. parseexec n line s = Parsed d s') \<and> read_cmd (word_text line) d = fold swrap rs (SExec argv) \<and> on line s' rest"
    using d(2,3) by blast
qed

lemma reads_block:
  assumes "reads parseline c t ('')'' @ concat (map redir_text rs) @ rest)" and "nonwhite (t @ '')'')"
    and "list_all redir_ok rs" and "stop ''|)&;'' rest"
  shows "reads parseexec (fold swrap rs c) (''('' @ t @ '')'' @ concat (map redir_text rs)) rest"
  unfolding reads_def
proof (intro allI impI)
  fix line s
  let ?r = "concat (map redir_text rs) @ rest"
  assume "on line s ((''('' @ t @ '')'' @ concat (map redir_text rs)) @ rest)"
  then have o: "on line s (CHR ''('' # t @ CHR '')'' # ?r)" by simp
  have nw: "nonwhite (t @ CHR '')'' # ?r)" using assms(2) by (cases t) (auto simp: nonwhite_def whitespace_def)
  have p: "peek line ''('' s = (True, s)" using peek_on [OF o] by (simp add: nonwhite_def whitespace_def)
  have g: "gettoken line s = (CHR ''('', s, s + 1, s + 1)" using gettoken_sym [OF o _ nw] by simp
  have "on line (Suc s) (t @ ('')'' @ ?r))" using on_Cons [OF o] by simp
  from readsD [OF assms(1) this] obtain N d s3 where d: "\<And>n. N \<le> n \<Longrightarrow> parseline n line (Suc s) = Parsed d s3"
    "read_cmd (word_text line) d = c" "on line s3 (CHR '')'' # ?r)" by (metis append_Cons append_Nil)
  have p3: "peek line '')'' s3 = (True, s3)" using peek_on [OF d(3)] by (simp add: nonwhite_def whitespace_def)
  have g3: "gettoken line s3 = (CHR '')'', s3, s3 + 1, s3 + 1)" using gettoken_sym [OF d(3)] redirs_head(1) [OF assms(4), of rs] by simp
  have "on line (Suc s3) ?r" using on_Cons [OF d(3)] by simp
  from parseredirs_on [OF this assms(3,4)] obtain ps s' where r: "parseredirs line d (Suc s3) = Parsed (fold wrap ps d) s'"
    "map (redir_at line) ps = rs" "on line s' rest" by blast
  have "parseexec n line s = Parsed (fold wrap ps d) s'" if "N + 2 \<le> n" for n
  proof -
    obtain m where m: "n = Suc (Suc m)" "N \<le> m" using \<open>N + 2 \<le> n\<close> by (metis Suc_le_D Suc_le_mono add_2_eq_Suc')
    then show ?thesis using p g d(1) [OF m(2)] p3 g3 r(1) by simp
  qed
  then show "\<exists>N d s'. (\<forall>n \<ge> N. parseexec n line s = Parsed d s') \<and> read_cmd (word_text line) d = fold swrap rs c \<and> on line s' rest"
    using d(2) r(2,3) by (intro exI [of _ "N + 2"] exI [of _ "fold wrap ps d"] exI [of _ s']) (simp add: read_wraps)
qed

lemma reads_pipe_one:
  assumes "reads parseexec c t rest" and "stop '')&;'' rest"
  shows "reads parsepipe c t rest"
  unfolding reads_def
proof (intro allI impI)
  fix line s
  assume "on line s (t @ rest)"
  from readsD [OF assms(1) this] obtain N d s' where d: "\<And>n. N \<le> n \<Longrightarrow> parseexec n line s = Parsed d s'"
    "read_cmd (word_text line) d = c" "on line s' rest" by metis
  have p: "peek line ''|'' s' = (False, s')"
    using peek_on [OF d(3)] stop_char [OF assms(2)] assms(2) by (auto simp: stop_def symbols_def)
  have "parsepipe n line s = Parsed d s'" if "Suc N \<le> n" for n using that d(1) p by (cases n) simp_all
  then show "\<exists>N d s'. (\<forall>n \<ge> N. parsepipe n line s = Parsed d s') \<and> read_cmd (word_text line) d = c \<and> on line s' rest"
    using d(2,3) by blast
qed

lemma reads_pipe:
  assumes "reads parseexec l t1 (''|'' @ t2 @ rest)" and "reads parsepipe r t2 rest" and "nonwhite (t2 @ rest)"
  shows "reads parsepipe (SPipe l r) (t1 @ ''|'' @ t2) rest"
  unfolding reads_def
proof (intro allI impI)
  fix line s
  assume "on line s ((t1 @ ''|'' @ t2) @ rest)"
  then have o: "on line s (t1 @ (''|'' @ t2 @ rest))" by simp
  from readsD [OF assms(1) this] obtain N d s1 where d: "\<And>n. N \<le> n \<Longrightarrow> parseexec n line s = Parsed d s1"
    "read_cmd (word_text line) d = l" "on line s1 (CHR ''|'' # t2 @ rest)" by (metis append_Cons append_Nil)
  have p: "peek line ''|'' s1 = (True, s1)" using peek_on [OF d(3)] by (simp add: nonwhite_def whitespace_def)
  have g: "gettoken line s1 = (CHR ''|'', s1, s1 + 1, s1 + 1)" using gettoken_sym [OF d(3) _ assms(3)] by simp
  have "on line (Suc s1) (t2 @ rest)" using on_Cons [OF d(3)] by simp
  from readsD [OF assms(2) this] obtain M e s' where e: "\<And>n. M \<le> n \<Longrightarrow> parsepipe n line (Suc s1) = Parsed e s'"
    "read_cmd (word_text line) e = r" "on line s' rest" by metis
  have "parsepipe n line s = Parsed (PIPE d e) s'" if "Suc (N + M) \<le> n" for n
    using that d(1) e(1) p g by (cases n) (simp_all add: pipecmd_def)
  then show "\<exists>N d s'. (\<forall>n \<ge> N. parsepipe n line s = Parsed d s') \<and> read_cmd (word_text line) d = SPipe l r \<and> on line s' rest"
    using d(2) e(2,3) by (intro exI [of _ "Suc (N + M)"] exI [of _ "PIPE d e"] exI [of _ s']) simp
qed

lemma parseback_on:
  assumes "on line s (replicate k (CHR ''&'') @ rest)" and "stop '');'' rest"
  shows "\<exists>s'. parseback line c s = ((BACK ^^ k) c, s') \<and> on line s' rest"
  using assms(1)
proof (induction k arbitrary: s c)
  case 0
  have "peek line ''&'' s = (False, s)"
    using peek_on [of line s rest] 0 stop_char [OF assms(2)] assms(2) by (auto simp: stop_def symbols_def)
  then show ?case using 0 by (subst parseback.simps) simp
next
  case (Suc k)
  then have o: "on line s (CHR ''&'' # replicate k (CHR ''&'') @ rest)" by simp
  have p: "peek line ''&'' s = (True, s)" using peek_on [OF o] by (simp add: nonwhite_def whitespace_def)
  have "nonwhite (replicate k (CHR ''&'') @ rest)"
    using stop_char [OF assms(2)] by (cases k) (auto simp: nonwhite_def whitespace_def symbols_def)
  then have g: "gettoken line s = (CHR ''&'', s, s + 1, s + 1)" using gettoken_sym [OF o] by simp
  obtain s' where "parseback line (BACK c) (Suc s) = ((BACK ^^ k) (BACK c), s')" "on line s' rest"
    using Suc.IH [of "Suc s" "BACK c"] on_Cons [OF o] by blast
  then show ?case using p g by (subst parseback.simps) (simp add: backcmd_def funpow_swap1)
qed

lemma read_backs: "read_cmd f ((BACK ^^ k) c) = (SBack ^^ k) (read_cmd f c)"
  by (induction k) simp_all

lemma reads_backs:
  assumes "reads parsepipe c t (replicate k (CHR ''&'') @ rest)" and "stop '');'' rest"
  shows "reads parsebacks ((SBack ^^ k) c) (t @ replicate k (CHR ''&'')) rest"
  unfolding reads_def
proof (intro allI impI)
  fix line s
  assume "on line s ((t @ replicate k (CHR ''&'')) @ rest)"
  then have o: "on line s (t @ (replicate k (CHR ''&'') @ rest))" by simp
  from readsD [OF assms(1) this] obtain N d s1 where d: "\<And>n. N \<le> n \<Longrightarrow> parsepipe n line s = Parsed d s1"
    "read_cmd (word_text line) d = c" "on line s1 (replicate k (CHR ''&'') @ rest)" by metis
  obtain s' where b: "parseback line d s1 = ((BACK ^^ k) d, s')" "on line s' rest" using parseback_on [OF d(3) assms(2)] by blast
  have "parsebacks n line s = Parsed ((BACK ^^ k) d) s'" if "N \<le> n" for n using d(1) [OF that] b(1) by (simp add: parsebacks_def)
  then show "\<exists>N d s'. (\<forall>n \<ge> N. parsebacks n line s = Parsed d s') \<and> read_cmd (word_text line) d = (SBack ^^ k) c \<and> on line s' rest"
    using b(2) d(2) by (intro exI [of _ N] exI [of _ "(BACK ^^ k) d"] exI [of _ s']) (simp add: read_backs)
qed

lemma parseline_backs:
  "parseline (Suc n) line s = pbind (parsebacks n line s) (\<lambda>cmd s1.
     case peek line '';'' s1 of (False, s2) \<Rightarrow> Parsed cmd s2
     | (True, s2) \<Rightarrow> (case gettoken line s2 of (_, _, _, s3) \<Rightarrow>
         pbind (parseline n line s3) (\<lambda>right s4. Parsed (listcmd cmd right) s4)))"
  by (cases "parsepipe n line s") (simp_all add: parsebacks_def split: prod.split)

lemma reads_line_one:
  assumes "reads parsebacks c t rest" and "stop '')'' rest"
  shows "reads parseline c t rest"
  unfolding reads_def
proof (intro allI impI)
  fix line s
  assume "on line s (t @ rest)"
  from readsD [OF assms(1) this] obtain N d s' where d: "\<And>n. N \<le> n \<Longrightarrow> parsebacks n line s = Parsed d s'"
    "read_cmd (word_text line) d = c" "on line s' rest" by metis
  have p: "peek line '';'' s' = (False, s')"
    using peek_on [OF d(3)] stop_char [OF assms(2)] assms(2) by (auto simp: stop_def symbols_def)
  have "parseline n line s = Parsed d s'" if "Suc N \<le> n" for n
    using that d(1) p by (cases n) (simp_all add: parseline_backs del: parseline.simps)
  then show "\<exists>N d s'. (\<forall>n \<ge> N. parseline n line s = Parsed d s') \<and> read_cmd (word_text line) d = c \<and> on line s' rest"
    using d(2,3) by blast
qed

lemma reads_line:
  assumes "reads parsebacks l t1 ('';'' @ t2 @ rest)" and "reads parseline r t2 rest" and "nonwhite (t2 @ rest)"
  shows "reads parseline (SList l r) (t1 @ '';'' @ t2) rest"
  unfolding reads_def
proof (intro allI impI)
  fix line s
  assume "on line s ((t1 @ '';'' @ t2) @ rest)"
  then have o: "on line s (t1 @ ('';'' @ t2 @ rest))" by simp
  from readsD [OF assms(1) this] obtain N d s1 where d: "\<And>n. N \<le> n \<Longrightarrow> parsebacks n line s = Parsed d s1"
    "read_cmd (word_text line) d = l" "on line s1 (CHR '';'' # t2 @ rest)" by (metis append_Cons append_Nil)
  have p: "peek line '';'' s1 = (True, s1)" using peek_on [OF d(3)] by (simp add: nonwhite_def whitespace_def)
  have g: "gettoken line s1 = (CHR '';'', s1, s1 + 1, s1 + 1)" using gettoken_sym [OF d(3) _ assms(3)] by simp
  have "on line (Suc s1) (t2 @ rest)" using on_Cons [OF d(3)] by simp
  from readsD [OF assms(2) this] obtain M e s' where e: "\<And>n. M \<le> n \<Longrightarrow> parseline n line (Suc s1) = Parsed e s'"
    "read_cmd (word_text line) e = r" "on line s' rest" by metis
  have "parseline n line s = Parsed (LIST d e) s'" if "Suc (N + M) \<le> n" for n
    using that d(1) e(1) p g by (cases n) (simp_all add: parseline_backs listcmd_def del: parseline.simps)
  then show "\<exists>N d s'. (\<forall>n \<ge> N. parseline n line s = Parsed d s') \<and> read_cmd (word_text line) d = SList l r \<and> on line s' rest"
    using d(2) e(2,3) by (intro exI [of _ "Suc (N + M)"] exI [of _ "LIST d e"] exI [of _ s']) simp
qed

definition reads_cmd :: "scmd \<Rightarrow> bool" where
  "reads_cmd c \<longleftrightarrow>
     (\<forall>rs rest. list_all redir_ok rs \<longrightarrow> stop ''|)&;'' rest \<longrightarrow> reads parseexec (fold swrap rs c) (unparse c 3 @ concat (map redir_text rs)) rest)
   \<and> (\<forall>rest. stop '')&;'' rest \<longrightarrow> reads parsepipe c (unparse c 2) rest)
   \<and> (\<forall>k rest. stop '');'' rest \<longrightarrow> reads parsebacks ((SBack ^^ k) c) (unparse c 1 @ replicate k (CHR ''&'')) rest)
   \<and> (\<forall>rest. stop '')'' rest \<longrightarrow> reads parseline c (unparse c 0) rest)"

lemma stop_mono: "stop a t \<Longrightarrow> set a \<subseteq> set b \<Longrightarrow> stop b t"
  by (auto simp: stop_def)

text \<open>From one level to the next where they print the same, and around through parentheses.\<close>

lemma level_pipe:
  assumes "\<And>rs rest. list_all redir_ok rs \<Longrightarrow> stop ''|)&;'' rest \<Longrightarrow> reads parseexec (fold swrap rs c) (unparse c 3 @ concat (map redir_text rs)) rest"
    and "unparse c 2 = unparse c 3" and "stop '')&;'' rest"
  shows "reads parsepipe c (unparse c 2) rest"
  using assms(1) [of "[]" rest] assms(2,3) stop_mono [OF assms(3), of "''|)&;''"] by (auto intro!: reads_pipe_one)

lemma level_back:
  assumes "\<And>rest. stop '')&;'' rest \<Longrightarrow> reads parsepipe c (unparse c 2) rest" and "unparse c 1 = unparse c 2" and "stop '');'' rest"
  shows "reads parsebacks ((SBack ^^ k) c) (unparse c 1 @ replicate k (CHR ''&'')) rest"
proof -
  have "stop '')&;'' (replicate k (CHR ''&'') @ rest)" using assms(3) by (cases k) (auto simp: stop_def)
  then show ?thesis using reads_backs [OF assms(1) assms(3)] assms(2) by simp
qed

lemma level_line:
  assumes "\<And>k rest. stop '');'' rest \<Longrightarrow> reads parsebacks ((SBack ^^ k) c) (unparse c 1 @ replicate k (CHR ''&'')) rest"
    and "unparse c 0 = unparse c 1" and "stop '')'' rest"
  shows "reads parseline c (unparse c 0) rest"
  using assms(1) [of rest 0] assms(2,3) stop_mono [OF assms(3), of "'');''"] by (auto intro!: reads_line_one)

lemma level_block:
  assumes "\<And>rest. stop '')'' rest \<Longrightarrow> reads parseline c (unparse c 0) rest" and "unparse c 3 = ''('' @ unparse c 0 @ '')''"
    and "scmd_ok c" and "list_all redir_ok rs" and "stop ''|)&;'' rest"
  shows "reads parseexec (fold swrap rs c) (unparse c 3 @ concat (map redir_text rs)) rest"
proof -
  have "reads parseline c (unparse c 0) ('')'' @ concat (map redir_text rs) @ rest)" by (rule assms(1)) (simp add: stop_def)
  moreover have "nonwhite (unparse c 0 @ '')'')" using assms(3) by (rule unparse_nonwhite) (simp add: nonwhite_def whitespace_def)
  ultimately show ?thesis using reads_block [of c "unparse c 0" rs rest] assms(2,4,5) by simp
qed

lemma reads_all: "scmd_ok c \<Longrightarrow> reads_cmd c"
proof (induction c)
  case (SExec argv)
  have r: "reads parseexec (fold swrap rs (SExec argv)) (unparse (SExec argv) 3 @ concat (map redir_text rs)) rest"
    if "list_all redir_ok rs" "stop ''|)&;'' rest" for rs rest using reads_exec [OF SExec that] .
  have p: "reads parsepipe (SExec argv) (unparse (SExec argv) 2) rest" if "stop '')&;'' rest" for rest
    by (rule level_pipe [OF r _ that]) simp_all
  have b: "reads parsebacks ((SBack ^^ k) (SExec argv)) (unparse (SExec argv) 1 @ replicate k (CHR ''&'')) rest" if "stop '');'' rest" for k rest
    by (rule level_back [OF p _ that]) simp_all
  have l: "reads parseline (SExec argv) (unparse (SExec argv) 0) rest" if "stop '')'' rest" for rest
    by (rule level_line [OF b _ that]) simp_all
  show ?case unfolding reads_cmd_def using r p b l by blast
next
  case (SRedir c fname mode fd)
  let ?c = "SRedir c fname mode fd"
  have c: "redir_ok (fname, mode, fd)" "reads_cmd c" using SRedir by (auto simp: redir_ok_def)
  have r: "reads parseexec (fold swrap rs ?c) (unparse ?c 3 @ concat (map redir_text rs)) rest"
    if "list_all redir_ok rs" "stop ''|)&;'' rest" for rs rest
  proof -
    have "reads parseexec (fold swrap ((fname, mode, fd) # rs) c) (unparse c 3 @ concat (map redir_text ((fname, mode, fd) # rs))) rest"
      using c that unfolding reads_cmd_def by (metis list.pred_inject(2))
    then show ?thesis by (simp add: swrap_def [of "(_, _)"] redir_text_def [of "(_, _)"] split: if_splits)
  qed
  have p: "reads parsepipe ?c (unparse ?c 2) rest" if "stop '')&;'' rest" for rest
    by (rule level_pipe [OF r _ that]) simp_all
  have b: "reads parsebacks ((SBack ^^ k) ?c) (unparse ?c 1 @ replicate k (CHR ''&'')) rest" if "stop '');'' rest" for k rest
    by (rule level_back [OF p _ that]) simp_all
  have l: "reads parseline ?c (unparse ?c 0) rest" if "stop '')'' rest" for rest
    by (rule level_line [OF b _ that]) simp_all
  show ?case unfolding reads_cmd_def using r p b l by blast
next
  case (SPipe l r)
  let ?c = "SPipe l r"
  have c: "reads_cmd l" "reads_cmd r" "scmd_ok r" using SPipe by auto
  have p: "reads parsepipe ?c (unparse ?c 2) rest" if st: "stop '')&;'' rest" for rest
  proof -
    have "stop ''|)&;'' (''|'' @ unparse r 2 @ rest)" by (simp add: stop_def)
    then have "reads parseexec l (unparse l 3) (''|'' @ unparse r 2 @ rest)" using c(1) unfolding reads_cmd_def
      by (metis append_Nil2 concat.simps(1) fold_simps(1) list.pred_inject(1) list.simps(8))
    moreover have "reads parsepipe r (unparse r 2) rest" using c(2) st unfolding reads_cmd_def by blast
    moreover have "nonwhite (unparse r 2 @ rest)" using c(3) stop_char [OF st] by (intro unparse_nonwhite) (auto simp: symbols_def)
    ultimately show ?thesis using reads_pipe [of l "unparse l 3" "unparse r 2" rest r] by (simp add: paren_def)
  qed
  have b: "reads parsebacks ((SBack ^^ k) ?c) (unparse ?c 1 @ replicate k (CHR ''&'')) rest" if "stop '');'' rest" for k rest
    by (rule level_back [OF p _ that]) (simp_all add: paren_def)
  have l: "reads parseline ?c (unparse ?c 0) rest" if "stop '')'' rest" for rest
    by (rule level_line [OF b _ that]) (simp_all add: paren_def)
  have "reads parseexec (fold swrap rs ?c) (unparse ?c 3 @ concat (map redir_text rs)) rest"
    if "list_all redir_ok rs" "stop ''|)&;'' rest" for rs rest
    by (rule level_block [OF l _ SPipe.prems that]) (simp_all add: paren_def)
  then show ?case unfolding reads_cmd_def using p b l by blast
next
  case (SList l r)
  let ?c = "SList l r"
  have c: "reads_cmd l" "reads_cmd r" "scmd_ok r" using SList by auto
  have l: "reads parseline ?c (unparse ?c 0) rest" if st: "stop '')'' rest" for rest
  proof -
    have "stop '');'' ('';'' @ unparse r 0 @ rest)" by (simp add: stop_def)
    then have "reads parsebacks l (unparse l 1) ('';'' @ unparse r 0 @ rest)" using c(1) unfolding reads_cmd_def
      by (metis append_Nil2 funpow_0 replicate_0)
    moreover have "reads parseline r (unparse r 0) rest" using c(2) st unfolding reads_cmd_def by blast
    moreover have "nonwhite (unparse r 0 @ rest)" using c(3) stop_char [OF st] by (intro unparse_nonwhite) (auto simp: symbols_def)
    ultimately show ?thesis using reads_line [of l "unparse l 1" "unparse r 0" rest r] by (simp add: paren_def)
  qed
  have r: "reads parseexec (fold swrap rs ?c) (unparse ?c 3 @ concat (map redir_text rs)) rest"
    if "list_all redir_ok rs" "stop ''|)&;'' rest" for rs rest
    by (rule level_block [OF l _ SList.prems that]) (simp_all add: paren_def)
  have p: "reads parsepipe ?c (unparse ?c 2) rest" if "stop '')&;'' rest" for rest
    by (rule level_pipe [OF r _ that]) (simp_all add: paren_def)
  have "reads parsebacks ((SBack ^^ k) ?c) (unparse ?c 1 @ replicate k (CHR ''&'')) rest" if "stop '');'' rest" for k rest
    by (rule level_back [OF p _ that]) (simp_all add: paren_def)
  then show ?case unfolding reads_cmd_def using r p l by blast
next
  case (SBack c)
  let ?c = "SBack c"
  have c: "reads_cmd c" using SBack by auto
  have b: "reads parsebacks ((SBack ^^ k) ?c) (unparse ?c 1 @ replicate k (CHR ''&'')) rest" if st: "stop '');'' rest" for k rest
  proof -
    have "reads parsebacks ((SBack ^^ Suc k) c) (unparse c 1 @ replicate (Suc k) (CHR ''&'')) rest"
      using c st unfolding reads_cmd_def by blast
    then show ?thesis by (simp add: paren_def funpow_swap1)
  qed
  have l: "reads parseline ?c (unparse ?c 0) rest" if "stop '')'' rest" for rest
    by (rule level_line [OF b _ that]) (simp_all add: paren_def)
  have r: "reads parseexec (fold swrap rs ?c) (unparse ?c 3 @ concat (map redir_text rs)) rest"
    if "list_all redir_ok rs" "stop ''|)&;'' rest" for rs rest
    by (rule level_block [OF l _ SBack.prems that]) (simp_all add: paren_def)
  have p: "reads parsepipe ?c (unparse ?c 2) rest" if "stop '')&;'' rest" for rest
    by (rule level_pipe [OF r _ that]) (simp_all add: paren_def)
  show ?case unfolding reads_cmd_def using r p b l by blast
qed

subsection \<open>More fuel changes nothing\<close>

definition defined_le :: "'a parse \<Rightarrow> 'a parse \<Rightarrow> bool" where
  "defined_le r r' \<longleftrightarrow> r = NoFuel \<or> r = r'"

lemma defined_le_refl [simp]: "defined_le r r" "defined_le NoFuel r"
  by (simp_all add: defined_le_def)

lemma defined_le_bind:
  assumes "defined_le m m'" and "\<And>x s. defined_le (f x s) (f' x s)"
  shows "defined_le (pbind m f) (pbind m' f')"
proof (cases m)
  case (Parsed x s)
  then show ?thesis using assms(1) assms(2) [of x s] by (auto simp: defined_le_def)
qed (use assms(1) in \<open>auto simp: defined_le_def\<close>)

lemma fuel_mono:
  "n \<le> m \<Longrightarrow> defined_le (parseline n line s) (parseline m line s)"
  "n \<le> m \<Longrightarrow> defined_le (parsepipe n line s) (parsepipe m line s)"
  "n \<le> m \<Longrightarrow> defined_le (parseexec n line s) (parseexec m line s)"
  "n \<le> m \<Longrightarrow> defined_le (parseblock n line s) (parseblock m line s)"
proof (induction n arbitrary: m s)
  case (Suc n)
  {
    case 1
    then obtain k where "m = Suc k" "n \<le> k" by (cases m) auto
    then show ?case using Suc.IH(1,2) [of k] by (auto intro!: defined_le_bind split: prod.split bool.split)
  next
    case 2
    then obtain k where "m = Suc k" "n \<le> k" by (cases m) auto
    then show ?case using Suc.IH(2,3) [of k] by (auto intro!: defined_le_bind split: prod.split bool.split)
  next
    case 3
    then obtain k where "m = Suc k" "n \<le> k" by (cases m) auto
    then show ?case using Suc.IH(4) [of k] by (auto split: prod.split bool.split)
  next
    case 4
    then obtain k where "m = Suc k" "n \<le> k" by (cases m) auto
    then show ?case using Suc.IH(1) [of k] by (auto intro!: defined_le_bind split: prod.split bool.split)
  }
qed simp_all

lemma parseline_fuel: "parseline n line s \<noteq> NoFuel \<Longrightarrow> n \<le> m \<Longrightarrow> parseline m line s = parseline n line s"
  using fuel_mono(1) [of n m line s] by (simp add: defined_le_def)

lemma unparse_no_nul: "scmd_ok c \<Longrightarrow> NUL \<notin> set (unparse c lv)"
proof (induction c arbitrary: lv)
  case (SExec argv)
  have "NUL \<notin> set w" if "w \<in> set argv" for w
    using SExec that by (auto simp: plain_word_def list_all_iff plain_def)
  then show ?case by auto
next
  case (SRedir c fname mode fd)
  then have "NUL \<notin> set fname" by (auto simp: plain_word_def list_all_iff plain_def)
  then show ?case using SRedir by auto
qed (auto simp: paren_def)

subsection \<open>Properties\<close>

text \<open>
  C40. The parser always comes to an end, with a command or with an error message; a command it returns
  has at most \<open>MAXARGS - 1\<close> words in every simple command, each word lies inside the line and
  is made of plain characters, and after \<open>nulterminate\<close> each word is a C string with exactly
  its characters.
\<close>

theorem parsecmd_total:
  assumes "NUL \<notin> set line"
  shows "case parsecmd line of
      Parsed (c, buf) s \<Rightarrow> s = length line \<and> cmd_ok line c \<and> length buf = length line + 1
        \<and> read_cmd (\<lambda>(q, eq). cstring buf q) c = read_cmd (word_text line) c
    | Dies msg \<Rightarrow> True
    | NoFuel \<Rightarrow> False"
proof -
  have g: "good line 0 (parseline (4 * length line + 3) line 0)" using parse_good(1) [OF assms, of 0] by simp
  show ?thesis
    using g parsed_strings [OF _ assms]
    by (cases "parseline (4 * length line + 3) line 0") (auto simp: parsecmd_def nulterminate_words fold_nul(1) split: prod.split)
qed

text \<open>
  C4. Printing and parsing: every command tree over plain words, with fewer than \<open>MAXARGS\<close> arguments,
  printed with the fewest parentheses, is read back as exactly that tree.  So \<open>|\<close> binds tighter
  than \<open>&\<close>, which binds tighter than \<open>;\<close>, pipelines and lists lean to the right, and redirections
  apply in the order written.
\<close>

theorem parsecmd_unparse:
  assumes "scmd_ok c"
  shows "\<exists>d buf s. parsecmd (unparse c 0) = Parsed (d, buf) s \<and> read_cmd (\<lambda>(q, eq). cstring buf q) d = c"
proof -
  let ?line = "unparse c 0" and ?n = "4 * length (unparse c 0) + 3"
  have nul: "NUL \<notin> set ?line" using unparse_no_nul [OF assms] .
  then have o: "on ?line 0 (?line @ [])" by (simp add: on_def)
  have "reads parseline c ?line []" using reads_all [OF assms] unfolding reads_cmd_def by (simp add: stop_def)
  from readsD [OF this o] obtain N d s where d: "\<And>n. N \<le> n \<Longrightarrow> parseline n ?line 0 = Parsed d s"
    "read_cmd (word_text ?line) d = c" "on ?line s []" by metis
  have g: "good ?line 0 (parseline ?n ?line 0)" using parse_good(1) [OF nul, of 0] by simp
  then have "parseline ?n ?line 0 \<noteq> NoFuel" by auto
  then have e: "parseline ?n ?line 0 = Parsed d s"
    using parseline_fuel [of ?n ?line 0 "max N ?n"] d(1) [of "max N ?n"] by simp
  have "s = length ?line" "cmd_ok ?line d" using on_Nil [OF d(3)] g e by auto
  moreover have "peek ?line [] s = (False, s)" using peek_on [OF d(3)] by (simp add: nonwhite_def)
  ultimately show ?thesis using e d(2) parsed_strings [OF _ nul] by (auto simp: parsecmd_def)
qed

theorem parsecmd_total_witness:
  "parsecmd ''a|b'' = Parsed (PIPE (EXEC [(0, 1)]) (EXEC [(2, 3)]), [CHR ''a'', NUL, CHR ''b'', NUL]) 3
    \<and> cmd_ok ''a|b'' (PIPE (EXEC [(0, 1)]) (EXEC [(2, 3)]))"
proof -
  have "parsecmd ''a|b'' = Parsed (PIPE (EXEC [(0, 1)]) (EXEC [(2, 3)]), [CHR ''a'', NUL, CHR ''b'', NUL]) 3"
    by code_simp
  then show ?thesis using parsecmd_total [of "''a|b''"] by simp
qed

theorem parsecmd_unparse_witness:
  "\<exists>d buf s. parsecmd (unparse (SList (SPipe (SRedir (SExec [''a'']) ''f'' 0 0) (SExec [''b''])) (SBack (SExec [''c'']))) 0) = Parsed (d, buf) s
    \<and> read_cmd (\<lambda>(q, eq). cstring buf q) d = SList (SPipe (SRedir (SExec [''a'']) ''f'' 0 0) (SExec [''b''])) (SBack (SExec [''c'']))"
  by (rule parsecmd_unparse) (simp add: plain_word_def plain_def whitespace_def symbols_def)

end
