(* ===== verification/Sh_Run.thy ===== *)
theory Sh_Run
  imports Sh
begin

section \<open>How the shell runs a command (sh.c)\<close>

text \<open>
  \<open>runcmd\<close> is the sequence of its system calls: a tree that branches on what a call returns.  It never
  returns itself; every path ends in \<open>exit\<close> or in a successful \<open>exec\<close>.  The system calls are not part
  of this repository's sources; what the shell relies on is the rule by which a free descriptor is
  chosen, the parameter \<open>alloc\<close>.  \<open>launches\<close> follows all processes when every call succeeds and lists
  the programs started with their descriptor tables.
\<close>

subsection \<open>Definitions\<close>

datatype sysprog =
    Exit
  | Exec string "string list" sysprog
  | Print int string sysprog
  | Close nat sysprog
  | Open string int "int \<Rightarrow> sysprog"
  | Dup nat sysprog
  | MkPipe "(nat \<times> nat) option \<Rightarrow> sysprog"
  | Fork "int \<Rightarrow> sysprog"
  | Wait sysprog

definition sh_panic :: "string \<Rightarrow> sysprog" where
  "sh_panic s = Print 2 (s @ nl) Exit"

definition fork1 :: "(int \<Rightarrow> sysprog) \<Rightarrow> sysprog" where
  "fork1 k = Fork (\<lambda>pid. if pid = - 1 then sh_panic ''fork'' else k pid)"

primrec runcmd :: "scmd \<Rightarrow> sysprog" where
  "runcmd (SExec argv) =
     (case argv of
        [] \<Rightarrow> Exit
      | a # _ \<Rightarrow> Exec a argv (Print 2 (''exec '' @ a @ '' failed'' @ nl) Exit))"
| "runcmd (SRedir c fname mode fd) =
     Close (nat fd) (
     Open fname mode (\<lambda>r.
     if r < 0 then Print 2 (''open '' @ fname @ '' failed'' @ nl) Exit
     else runcmd c))"
| "runcmd (SList left right) =
     fork1 (\<lambda>pid. if pid = 0 then runcmd left else
     Wait (runcmd right))"
| "runcmd (SPipe left right) =
     MkPipe (\<lambda>r. case r of None \<Rightarrow> sh_panic ''pipe'' | Some (p0, p1) \<Rightarrow>
     fork1 (\<lambda>pid. if pid = 0 then
       Close 1 (Dup p1 (Close p0 (Close p1 (runcmd left)))) else
     fork1 (\<lambda>pid. if pid = 0 then
       Close 0 (Dup p0 (Close p0 (Close p1 (runcmd right)))) else
     Close p0 (Close p1 (Wait (Wait Exit))))))"
| "runcmd (SBack c) =
     fork1 (\<lambda>pid. if pid = 0 then runcmd c else Exit)"

text \<open>What one line of input does (the loop body of \<open>main\<close>): \<open>None\<close> leaves the loop.\<close>

datatype line_action = Chdir string | RunLine string

definition sh_line :: "string \<Rightarrow> line_action option" where
  "sh_line buf =
     (if buf = [] then None
      else if take 3 buf = ''cd '' then Some (Chdir (drop 3 (butlast buf)))
      else Some (RunLine buf))"

subsection \<open>Descriptors\<close>

datatype ofile = Std nat | FileOf string int | PipeR nat | PipeW nat

type_synonym fdtab = "ofile option list"

text \<open>The programs started, with the number of pipes made so far.\<close>

primrec launches :: "(fdtab \<Rightarrow> nat option) \<Rightarrow> sysprog \<Rightarrow> fdtab \<Rightarrow> nat \<Rightarrow> (string list \<times> fdtab) list \<times> nat" where
  "launches alloc Exit t n = ([], n)"
| "launches alloc (Exec f argv k) t n = ([(argv, t)], n)"
| "launches alloc (Print fd s k) t n = launches alloc k t n"
| "launches alloc (Close fd k) t n = launches alloc k (t[fd := None]) n"
| "launches alloc (Open f mode k) t n =
     (case alloc t of None \<Rightarrow> launches alloc (k (- 1)) t n
      | Some i \<Rightarrow> launches alloc (k (int i)) (t[i := Some (FileOf f mode)]) n)"
| "launches alloc (Dup fd k) t n =
     (case alloc t of None \<Rightarrow> launches alloc k t n | Some i \<Rightarrow> launches alloc k (t[i := t ! fd]) n)"
| "launches alloc (MkPipe k) t n =
     (case alloc t of None \<Rightarrow> launches alloc (k None) t n | Some i \<Rightarrow>
        let t1 = t[i := Some (PipeR n)] in
        case alloc t1 of None \<Rightarrow> launches alloc (k None) t n | Some j \<Rightarrow>
          launches alloc (k (Some (i, j))) (t1[j := Some (PipeW n)]) (Suc n))"
| "launches alloc (Fork k) t n =
     (case launches alloc (k 0) t n of (child, m) \<Rightarrow>
      case launches alloc (k 1) t m of (parent, m') \<Rightarrow> (child @ parent, m'))"
| "launches alloc (Wait k) t n = launches alloc k t n"

text \<open>The meaning of a command: which programs it starts, and what their descriptors are.\<close>

primrec meaning :: "scmd \<Rightarrow> fdtab \<Rightarrow> nat \<Rightarrow> (string list \<times> fdtab) list \<times> nat" where
  "meaning (SExec argv) t n = (if argv = [] then [] else [(argv, t)], n)"
| "meaning (SRedir c fname mode fd) t n = meaning c (t[nat fd := Some (FileOf fname mode)]) n"
| "meaning (SList l r) t n =
     (case meaning l t n of (ls, m) \<Rightarrow> case meaning r t m of (rs, m') \<Rightarrow> (ls @ rs, m'))"
| "meaning (SPipe l r) t n =
     (case meaning l (t[1 := Some (PipeW n)]) (Suc n) of (ls, m) \<Rightarrow>
      case meaning r (t[0 := Some (PipeR n)]) m of (rs, m') \<Rightarrow> (ls @ rs, m'))"
| "meaning (SBack c) t n = meaning c t n"

text \<open>Standard input, output and error are open and nothing else, as \<open>main\<close> sees to it.\<close>

definition std_open :: "fdtab \<Rightarrow> bool" where
  "std_open t \<longleftrightarrow> 5 \<le> length t \<and> (\<forall>i < length t. (t ! i = None) = (3 \<le> i))"

definition lowest :: "(fdtab \<Rightarrow> nat option) \<Rightarrow> bool" where
  "lowest alloc \<longleftrightarrow> (\<forall>t. alloc t = find_idx (\<lambda>x. x = None) t)"

lemma lowestI:
  assumes "lowest alloc" and "i < length t" and "t ! i = None" and "\<And>j. j < i \<Longrightarrow> t ! j \<noteq> None"
  shows "alloc t = Some i"
  using assms by (simp add: lowest_def find_idx_Some)

lemma std_open_upd: "std_open t \<Longrightarrow> fd < 3 \<Longrightarrow> std_open (t[fd := Some x])"
  by (auto simp: std_open_def nth_list_update)

text \<open>Closing a standard descriptor and allocating one gives it back.\<close>

lemma alloc_closed:
  assumes "lowest alloc" and "std_open t" and "fd < 3"
  shows "alloc (t[fd := None]) = Some fd"
  using assms by (intro lowestI) (auto simp: std_open_def nth_list_update)

lemma alloc_pipe:
  assumes "lowest alloc" and "std_open t"
  shows "alloc t = Some 3" and "alloc (t[3 := Some x]) = Some 4"
proof -
  have t: "5 \<le> length t" "t ! 3 = None" "t ! 4 = None" using assms(2) by (auto simp: std_open_def)
  have o: "t ! j \<noteq> None" if "j < 3" for j using assms(2) that by (auto simp: std_open_def)
  show "alloc t = Some 3" using assms(1) t o by (intro lowestI) auto
  have "t[3 := Some x] ! j \<noteq> None" if "j < 4" for j using that t(1) o [of j] by (cases "j = 3") auto
  then show "alloc (t[3 := Some x]) = Some 4" using assms(1) t by (intro lowestI) auto
qed

lemma pipe_child:
  assumes "lowest alloc" and "std_open t" and "fd < 2" and "p = (if fd = 1 then 4 else 3)"
  shows "launches alloc (Close fd (Dup p (Close 3 (Close 4 k)))) (t[3 := Some a, 4 := Some b]) n
    = launches alloc k (t[fd := Some (if fd = 1 then b else a)]) n"
proof -
  let ?t = "t[3 := Some a, 4 := Some b]"
  have l: "5 \<le> length t" "t ! 3 = None" "t ! 4 = None" using assms(2) by (auto simp: std_open_def)
  have "alloc (?t[fd := None]) = Some fd"
    using assms(1-3) by (intro lowestI) (auto simp: std_open_def nth_list_update)
  moreover have "?t[fd := None, fd := ?t[fd := None] ! p, 3 := None, 4 := None] = t[fd := Some (if fd = 1 then b else a)]"
    using l assms(3,4) by (intro nth_equalityI) (auto simp: nth_list_update)
  ultimately show ?thesis by simp
qed

subsection \<open>Properties\<close>



end
