(* ===== verification/Spec2Isabelle.thy ===== *)
theory Spec2Isabelle
  imports Scheduler Fs_Names Grep Printf Semaphore File Sh_Run
begin

section \<open>Verification of the xv6 kernel with schedulers, semaphores and its shell\<close>

text \<open>
  The program is a teaching kernel for the PC, a descendant of xv6, with the user programs that run
  on it: spin locks and sleeping locks, a page allocator, processes with three scheduling queues and
  counting semaphores, a buffer cache over a disk, a write-ahead log, a file system, pipes and open
  files, the console; and as user programs a shell, \<open>grep\<close> and the user's \<open>printf\<close>.

  \<^bold>\<open>How the C code is modelled.\<close>  A kernel function is a state transformer on one record, \<open>kstate\<close>
  (Kernel_State), that holds the kernel's global variables, the processor's registers and the disk.
  It returns, or panics, or faults where C has no meaning (a null pointer, an index outside an
  array), or waits for ever, or is cut off by a power failure at a disk write: the five outcomes of
  Prelude.  Each operation is one definition that follows its C function statement by statement.
  What other processors and other processes do while this one waits is the list \<open>env\<close> of the state:
  a round of a spinning loop, or a \<open>swtch\<close> into the scheduler, takes the next entry and applies it,
  and with an empty list the wait never ends.  The theorems hold for every such list, restricted
  where they say so to what the others are allowed to do.  \<open>wp m Q s\<close> is total correctness: \<open>m\<close>
  returns from \<open>s\<close>, and its result and state satisfy \<open>Q\<close>.

  \<^bold>\<open>The parts, from the bottom up.\<close>

  \<^item> Prelude: outcomes, weakest preconditions with their rules (the collection \<open>wp_simps\<close>), lists and
    words.  Bytes: little-endian words in memory and in blocks, with their round trips.
    Kernel_State: the structs of \<open>proc.h\<close>, \<open>spinlock.h\<close>, \<open>sleeplock.h\<close>, \<open>semaphore.h\<close>, \<open>buf.h\<close>,
    \<open>fs.h\<close>, \<open>file.h\<close>.

  \<^item> Spinlock (\<open>spinlock.c\<close>, \<open>mycpu\<close> of \<open>proc.c\<close>, \<open>lapicid\<close> of \<open>lapic.c\<close>): \<open>acquire\<close> and \<open>release\<close>
    with the nesting of interrupt-off sections; mutual exclusion of any number of processors as an
    invariant of a step relation; every branch of both operations.  Critical: a critical section is
    its effect on the data (\<open>core\<close>).  Waiting: loops that wait end, because each round uses up an entry
    of \<open>env\<close>.

  \<^item> Kalloc (\<open>kalloc.c\<close>): the free list in memory; pages are neither lost nor handed out twice; the
    initialisation frees all memory.  The loop of \<open>freerange\<close> has \<open>2 ^ 20\<close> rounds of fuel, the number of
    pages of the address space.

  \<^item> Proc and Proc_Life (\<open>proc.c\<close>): the process table, \<open>allocproc\<close>, \<open>sched\<close>, \<open>sleep\<close>, \<open>wakeup\<close>,
    \<open>wait\<close>, \<open>kill\<close>, the queue parameters and aging.  \<open>sleep\<close> loses no wakeup; each operation has the
    exact change it makes to the table.  Scheduler: the three queues and one round of the endless
    loop; round robin is a rotation of the table and starves nobody.

  \<^item> Sleeplock (\<open>sleeplock.c\<close>); Bio and Bcache (\<open>bio.c\<close> over the disk of \<open>memide.c\<close>): the ring of
    buffers is a list in order of use, \<open>bread\<close> returns the contents of a block, \<open>bwrite\<close> and \<open>brelse\<close>
    bring them to the disk.  Blocks: the block layer as its clients see it, a map from block numbers
    to contents.

  \<^item> Log and Crash (\<open>log.c\<close>, \<open>readsb\<close> of \<open>fs.c\<close>): a transaction interrupted at any write is, after
    recovery, on disk completely or not at all; recovery may be interrupted and repeated; \<open>begin_op\<close>
    reserves room.

  \<^item> Fs and Fs_Names (\<open>fs.c\<close>): blocks, inodes, contents, directories, paths; the formats on disk read
    back what was written and \<open>skipelem\<close> takes paths apart.

  \<^item> Pipe (\<open>pipe.c\<close>): a pipe is a bounded queue of bytes (the locale \<open>byte_queue\<close>, interpreted on the
    ring), also when the counters wrap around, and a blocked writer completes when readers take
    bytes.  File (\<open>file.c\<close>, \<open>pipealloc\<close>): reference counts, and a failed \<open>pipealloc\<close> gives back all it
    had taken.

  \<^item> Cons_Out (\<open>console.c\<close>, the listings of \<open>proc.c\<close>): the display, \<open>cprintf\<close>, \<open>panic\<close>, the history of
    system calls.  Digits and Printf (\<open>printf.c\<close>): the digits printed denote the number, \<open>printf\<close>
    prints what its format means.  Semaphore (\<open>proc.c\<close>): acquire and release with the priority queue
    of waiting processes.

  \<^item> Grep (\<open>grep.c\<close>): the matcher decides the language of its patterns, the loop prints the matching
    lines.  Sh and Sh_Run (\<open>sh.c\<close>): the parser always ends, reads back every printed command tree, and
    \<open>runcmd\<close> starts the programs a command means with the right descriptors.  The parser's fuel,
    four times the length of the line and three, is proved to be enough.

  \<^bold>\<open>Parameters.\<close>  Code the sources call and the repository does not have: the page tables (record
  \<open>vmops\<close>; what \<open>wait\<close> relies on is the hypothesis \<open>vm_frame\<close>), the linker's symbols and the layout of
  a trap frame (\<open>ksyms\<close>), the arithmetic of the floating-point unit (\<open>fpu\<close>), \<open>printspaces\<close> and
  \<open>digitcount\<close> (\<open>utils\<close>), the string at an address (\<open>str_at\<close>), the device table (\<open>devsw\<close>), and the choice
  of a free descriptor by the system calls (\<open>alloc\<close>).

  \<^bold>\<open>Not modelled.\<close>  The boot code and the drivers of the interrupt controllers, of the
  multiprocessor tables and of the IDE disk (\<open>bootmain.c\<close>, \<open>main.c\<close>, \<open>lapic.c\<close>, \<open>ioapic.c\<close>, \<open>picirq.c\<close>,
  \<open>mp.c\<close>, \<open>ide.c\<close>, the assembly files) talk to devices whose behaviour is not in the sources; the disk is
  the in-memory one of \<open>memide.c\<close>.
\<close>

end
